(* ===== verification/Lin_Prelude.thy ===== *)
theory Lin_Prelude
  imports Main "HOL-Library.Word"
begin

text \<open>
  Shared vocabulary of the development: Rust's fixed-width integers as machine
  words, byte strings, the result type, little-endian encodings, and the generic
  facts on lists and words the components use.  Two collections carry the
  automation: \<open>lin_defs\<close> (the constants that concrete evaluations unfold) and
  \<open>lin_inv\<close> (invariant preservation, one rule per operation).
\<close>

unbundle bit_operations_syntax

named_theorems lin_defs "constants unfolded by concrete evaluations"
named_theorems lin_inv "an operation keeps the invariant of its component"

section \<open>Types\<close>

text \<open>
  \<open>usize\<close> is 64 bits wide (the supported targets); an \<open>instant\<close> is the number
  of nanoseconds since an arbitrary origin, as read from the monotonic clock, so
  that the saturating \<open>Instant::duration_since\<close> is subtraction on \<open>nat\<close>.
\<close>

type_synonym u8 = "8 word"
type_synonym u16 = "16 word"
type_synonym u32 = "32 word"
type_synonym u64 = "64 word"
type_synonym usize = "64 word"
type_synonym bytes = "u8 list"
type_synonym instant = nat

text \<open>\<open>Result<T, E>\<close>: \<open>Inl\<close> is \<open>Err\<close>, \<open>Inr\<close> is \<open>Ok\<close>.\<close>

type_synonym ('e, 'a) result = "'e + 'a"

abbreviation is_ok :: "'e + 'a \<Rightarrow> bool" where
  "is_ok r \<equiv> \<not> isl r"

text \<open>\<open>Result::map_err\<close>.\<close>

definition map_err :: "('e \<Rightarrow> 'f) \<Rightarrow> 'e + 'a \<Rightarrow> 'f + 'a" where
  "map_err f r = (case r of Inl e \<Rightarrow> Inl (f e) | Inr a \<Rightarrow> Inr a)"

lemma map_err_simps [simp]:
  "map_err g (Inl e) = Inl (g e)" "map_err g (Inr a) = Inr a"
  by (simp_all add: map_err_def)

section \<open>Little-endian encodings\<close>

definition u16_to_le :: "u16 \<Rightarrow> bytes" where
  "u16_to_le w = [ucast w, ucast (drop_bit 8 w)]"

definition u16_from_le :: "u8 \<Rightarrow> u8 \<Rightarrow> u16" where
  "u16_from_le a b = ucast a OR push_bit 8 (ucast b)"

definition u32_to_le :: "u32 \<Rightarrow> bytes" where
  "u32_to_le w = [ucast w, ucast (drop_bit 8 w), ucast (drop_bit 16 w), ucast (drop_bit 24 w)]"

definition u32_from_le :: "u8 \<Rightarrow> u8 \<Rightarrow> u8 \<Rightarrow> u8 \<Rightarrow> u32" where
  "u32_from_le a b c d =
     ucast a OR push_bit 8 (ucast b) OR push_bit 16 (ucast c) OR push_bit 24 (ucast d)"

lemma length_u16_to_le [simp]: "length (u16_to_le w) = 2"
  by (simp add: u16_to_le_def)

lemma length_u32_to_le [simp]: "length (u32_to_le w) = 4"
  by (simp add: u32_to_le_def)

lemma u16_le_roundtrip [simp]: "u16_from_le (ucast w) (ucast (drop_bit 8 w)) = w"
  unfolding u16_from_le_def
  by (rule bit_word_eqI) (auto simp: bit_simps)

lemma u32_le_roundtrip [simp]:
  "u32_from_le (ucast w) (ucast (drop_bit 8 w)) (ucast (drop_bit 16 w)) (ucast (drop_bit 24 w)) = w"
proof (rule bit_word_eqI)
  fix n assume n: "n < LENGTH(32)"
  consider "n < 8" | "8 \<le> n" "n < 16" | "16 \<le> n" "n < 24" | "24 \<le> n" "n < 32"
    using n by fastforce
  then show "bit (u32_from_le (ucast w) (ucast (drop_bit 8 w)) (ucast (drop_bit 16 w))
      (ucast (drop_bit 24 w))) n = bit w n"
    unfolding u32_from_le_def by cases (auto simp: bit_simps)
qed

lemma u16_from_le_inj:
  assumes "u16_from_le a b = u16_from_le a' b'"
  shows "a = a' \<and> b = b'"
proof -
  have "bit a n = bit a' n" if "n < 8" for n
    using arg_cong [OF assms, of "\<lambda>w. bit w n"] that by (simp add: u16_from_le_def bit_simps)
  moreover have "bit b n = bit b' n" if "n < 8" for n
    using arg_cong [OF assms, of "\<lambda>w. bit w (n + 8)"] that
      bit_imp_le_length [of a "n + 8"] bit_imp_le_length [of a' "n + 8"]
    by (auto simp: u16_from_le_def bit_simps)
  ultimately show ?thesis by (auto intro!: bit_word_eqI)
qed

section \<open>Lists and words\<close>

lemma foldl_inj:
  assumes "\<And>x. inj (\<lambda>s. f s x)" and "s \<noteq> t"
  shows "foldl f s xs \<noteq> foldl f t xs"
  using assms(2)
proof (induction xs arbitrary: s t)
  case (Cons x xs)
  then have "f s x \<noteq> f t x" using injD [OF assms(1)] by blast
  with Cons.IH show ?case by simp
qed simp

lemma list_update_split:
  "i < length xs \<Longrightarrow> xs[i := v] = take i xs @ v # drop (Suc i) xs"
  by (rule upd_conv_take_nth_drop)

end
