(* ===== verification/Rust_Text.thy ===== *)
theory Rust_Text
  imports Lin_Prelude
begin

text \<open>
  The parts of Rust's text formatting and integer parsing that the sources use:
  \<open>{}\<close> and \<open>{:02X}\<close> / \<open>{:04X}\<close> of unsigned integers, and \<open>from_str_radix\<close>
  (of which \<open>str::parse\<close> is the radix-10 case) for unsigned and signed types.
  A Rust string is its UTF-8 bytes, so a HOL \<open>string\<close>.  The main result is that
  parsing inverts printing.
\<close>

section \<open>Printing\<close>

definition digit_char :: "nat \<Rightarrow> char" where
  "digit_char n = (if n < 10 then char_of (48 + n) else char_of (55 + n))"

text \<open>Decimal, least digits last, as \<open>Display\<close> prints an unsigned integer.\<close>

fun dec_string :: "nat \<Rightarrow> string" where
  "dec_string n =
     (if n < 10 then [digit_char n] else dec_string (n div 10) @ [digit_char (n mod 10)])"

declare dec_string.simps [simp del]

text \<open>\<open>{:02X}\<close> of a byte and \<open>{:04X}\<close> of a 16-bit word.\<close>

definition hex02 :: "u8 \<Rightarrow> string" where
  "hex02 w = [digit_char (unat w div 16), digit_char (unat w mod 16)]"

definition hex04 :: "u16 \<Rightarrow> string" where
  "hex04 w = [digit_char (unat w div 4096), digit_char (unat w div 256 mod 16),
              digit_char (unat w div 16 mod 16), digit_char (unat w mod 16)]"

section \<open>Parsing\<close>

definition digit_value :: "nat \<Rightarrow> char \<Rightarrow> nat option" where
  "digit_value radix c =
     (let n = of_char c :: nat;
          d = (if 48 \<le> n \<and> n \<le> 57 then n - 48
               else if 65 \<le> n \<and> n \<le> 90 then n - 55
               else if 97 \<le> n \<and> n \<le> 122 then n - 87 else 36)
      in if d < radix then Some d else None)"

fun digits_value :: "nat \<Rightarrow> nat \<Rightarrow> string \<Rightarrow> nat option" where
  "digits_value radix acc [] = Some acc"
| "digits_value radix acc (c # cs) =
     (case digit_value radix c of None \<Rightarrow> None
      | Some d \<Rightarrow> digits_value radix (acc * radix + d) cs)"

text \<open>
  \<open>uN::from_str_radix\<close>: an optional \<open>+\<close>, then at least one digit; overflow of the
  type is an error.  A lone sign, a \<open>-\<close> and the empty string are errors.
\<close>

definition parse_unsigned :: "nat \<Rightarrow> nat \<Rightarrow> string \<Rightarrow> nat option" where
  "parse_unsigned radix limit s =
     (let ds = (case s of c # cs \<Rightarrow> if c = CHR ''+'' then cs else s | [] \<Rightarrow> [])
      in if ds = [] then None
         else (case digits_value radix 0 ds of None \<Rightarrow> None
               | Some v \<Rightarrow> if v < limit then Some v else None))"

text \<open>
  \<open>iN::from_str_radix\<close>: an optional \<open>+\<close> or \<open>-\<close>, then at least one digit, the value
  within \<open>-limit \<dots> limit - 1\<close>.
\<close>

definition parse_signed :: "nat \<Rightarrow> nat \<Rightarrow> string \<Rightarrow> int option" where
  "parse_signed radix limit s =
     (let neg = (case s of c # _ \<Rightarrow> c = CHR ''-'' | [] \<Rightarrow> False);
          ds = (case s of c # cs \<Rightarrow> if c = CHR ''+'' \<or> c = CHR ''-'' then cs else s | [] \<Rightarrow> [])
      in if ds = [] then None
         else (case digits_value radix 0 ds of None \<Rightarrow> None
               | Some v \<Rightarrow>
                   if neg then (if v \<le> limit then Some (- int v) else None)
                   else (if v < limit then Some (int v) else None)))"

definition parse_u8 :: "string \<Rightarrow> u8 option" where
  "parse_u8 s = map_option of_nat (parse_unsigned 10 256 s)"

section \<open>Parsing inverts printing\<close>

lemma of_char_digit [simp]: "n < 10 \<Longrightarrow> of_char (digit_char n) = 48 + n"
  by (simp add: digit_char_def of_char_of)

lemma digit_value_digit [simp]: "n < 10 \<Longrightarrow> digit_value 10 (digit_char n) = Some n"
  by (simp add: digit_value_def Let_def)

lemma digit_not_sign [simp]: "n < 10 \<Longrightarrow> digit_char n \<noteq> CHR ''+''"
  using of_char_digit [of n] by (auto simp del: of_char_digit)

lemma digits_value_append:
  "digits_value r acc (xs @ ys) =
     (case digits_value r acc xs of None \<Rightarrow> None | Some v \<Rightarrow> digits_value r v ys)"
  by (induction xs arbitrary: acc) (auto split: option.splits)

lemma dec_string_nonempty [simp]: "dec_string n \<noteq> []"
  by (subst dec_string.simps) simp

lemma hd_dec_string: "hd (dec_string n) \<noteq> CHR ''+''"
proof (induction n rule: dec_string.induct)
  case (1 n)
  then show ?case by (subst dec_string.simps) (auto simp: hd_append)
qed

lemma digits_value_dec_string: "digits_value 10 0 (dec_string n) = Some n"
proof (induction n rule: dec_string.induct)
  case (1 n)
  then show ?case
    by (subst dec_string.simps) (auto simp: digits_value_append)
qed

lemma parse_unsigned_dec_string:
  "parse_unsigned 10 limit (dec_string n) = (if n < limit then Some n else None)"
proof -
  obtain c cs where s: "dec_string n = c # cs"
    by (meson dec_string_nonempty list.exhaust)
  with hd_dec_string [of n] have "c \<noteq> CHR ''+''" by simp
  with s digits_value_dec_string [of n] show ?thesis
    by (simp add: parse_unsigned_def Let_def)
qed

lemma parse_u8_dec_string [simp]: "parse_u8 (dec_string (unat w)) = Some w"
  using unsigned_less [of w] by (simp add: parse_u8_def parse_unsigned_dec_string)

lemma parse_u8_nat: "parse_u8 (dec_string n) = (if n < 256 then Some (of_nat n) else None)"
  by (simp add: parse_u8_def parse_unsigned_dec_string)

lemma dec_string_inj: "dec_string m = dec_string n \<longleftrightarrow> m = n"
  by (metis digits_value_dec_string option.inject)

end
