(* ===== verification/E2E_Safety.thy ===== *)
theory E2E_Safety
  imports Lin_Prelude Rust_Text
begin

text \<open>
  \<open>src/safety/mod.rs\<close>: end-to-end protection.  \<open>protect\<close> prepends the ten-byte header
  (data id, source id, sequence counter, CRC-16/CCITT-FALSE), \<open>unwrap\<close> checks it.  The
  lemmas show the CRC injective in any two adjacent bytes, the round trip over whole
  streams (wrap-around of the counter included), and that whatever datagrams arrive,
  the accepted ones carry consecutive counters.
\<close>

section \<open>Types\<close>

definition HEADER_SIZE :: nat where [lin_defs]: "HEADER_SIZE = 10"

record e2e_config =
  cfg_data_id :: u16
  cfg_source_id :: u16

datatype error_kind = CrcMismatch | SequenceGap | HeaderTooShort | IdentifierMismatch

fun error_kind_debug :: "error_kind \<Rightarrow> string" where
  "error_kind_debug CrcMismatch = ''CrcMismatch''"
| "error_kind_debug SequenceGap = ''SequenceGap''"
| "error_kind_debug HeaderTooShort = ''HeaderTooShort''"
| "error_kind_debug IdentifierMismatch = ''IdentifierMismatch''"

record e2e_error =
  ee_kind :: error_kind
  ee_counter :: u32
  ee_message :: string

definition e2e_error_display :: "e2e_error \<Rightarrow> string" where
  "e2e_error_display e =
     ''lin/safety: E2E error (kind='' @ error_kind_debug (ee_kind e) @ '', counter=''
     @ dec_string (unat (ee_counter e)) @ ''): '' @ ee_message e"

section \<open>CRC\<close>

definition crc_bit :: "u16 \<Rightarrow> u16" where
  "crc_bit crc = (if crc AND 0x8000 \<noteq> 0 then push_bit 1 crc XOR 0x1021 else push_bit 1 crc)"

definition crc_byte :: "u16 \<Rightarrow> u8 \<Rightarrow> u16" where
  "crc_byte crc b = (crc_bit ^^ 8) (crc XOR push_bit 8 (ucast b))"

definition crc16 :: "bytes \<Rightarrow> u16" where
  "crc16 data = foldl crc_byte 0xFFFF data"

section \<open>Protector\<close>

text \<open>\<open>xs[n..n + bs.len()].copy_from_slice(bs)\<close>.\<close>

definition copy_at :: "nat \<Rightarrow> bytes \<Rightarrow> bytes \<Rightarrow> bytes" where
  "copy_at n bs xs = take n xs @ bs @ drop (n + length bs) xs"

definition build_protected :: "e2e_config \<Rightarrow> u32 \<Rightarrow> bytes \<Rightarrow> bytes" where
  "build_protected cfg seq payload =
     (let hdr = replicate HEADER_SIZE 0;
          hdr = copy_at 0 (u16_to_le (cfg_data_id cfg)) hdr;
          hdr = copy_at 2 (u16_to_le (cfg_source_id cfg)) hdr;
          hdr = copy_at 4 (u32_to_le seq) hdr;
          crc_input = hdr @ payload;
          crc = crc16 crc_input;
          hdr = copy_at 8 (u16_to_le crc) hdr
      in hdr @ payload)"

record protector =
  pr_cfg :: e2e_config
  pr_seq :: u32

definition protector_new :: "e2e_config \<Rightarrow> protector" where
  "protector_new cfg = \<lparr>pr_cfg = cfg, pr_seq = 0\<rparr>"

definition protect :: "bytes \<Rightarrow> protector \<Rightarrow> bytes \<times> protector" where
  "protect payload p =
     (let seq = pr_seq p
      in (build_protected (pr_cfg p) seq payload, p\<lparr>pr_seq := seq + 1\<rparr>))"

section \<open>Receiver\<close>

record receiver =
  rc_cfg :: e2e_config
  rc_last_seq :: u32
  rc_first :: bool

definition receiver_new :: "e2e_config \<Rightarrow> receiver" where
  "receiver_new cfg = \<lparr>rc_cfg = cfg, rc_last_seq = 0, rc_first = True\<rparr>"

definition unwrap :: "bytes \<Rightarrow> receiver \<Rightarrow> (e2e_error + bytes) \<times> receiver" where
  "unwrap data r =
     (if length data < HEADER_SIZE then
        (Inl \<lparr>ee_kind = HeaderTooShort, ee_counter = 0,
              ee_message = ''got '' @ dec_string (length data) @ '' bytes, need at least ''
                @ dec_string HEADER_SIZE\<rparr>, r)
      else
        (let seq = u32_from_le (data ! 4) (data ! 5) (data ! 6) (data ! 7);
             crc_wire = u16_from_le (data ! 8) (data ! 9);
             payload = drop HEADER_SIZE data;
             tmp = (take HEADER_SIZE data)[8 := 0, 9 := 0];
             compute_buf = tmp @ payload;
             crc_calc = crc16 compute_buf
         in if crc_calc \<noteq> crc_wire then
              (Inl \<lparr>ee_kind = CrcMismatch, ee_counter = seq,
                    ee_message = ''CRC mismatch: wire=0x'' @ hex04 crc_wire @ '' calc=0x''
                      @ hex04 crc_calc\<rparr>, r)
            else
              (let data_id = u16_from_le (data ! 0) (data ! 1);
                   source_id = u16_from_le (data ! 2) (data ! 3)
               in if data_id \<noteq> cfg_data_id (rc_cfg r) \<or> source_id \<noteq> cfg_source_id (rc_cfg r) then
                    (Inl \<lparr>ee_kind = IdentifierMismatch, ee_counter = seq,
                          ee_message = ''identifier mismatch: wire data_id=0x'' @ hex04 data_id
                            @ '' source_id=0x'' @ hex04 source_id
                            @ '', expected data_id=0x'' @ hex04 (cfg_data_id (rc_cfg r))
                            @ '' source_id=0x'' @ hex04 (cfg_source_id (rc_cfg r))\<rparr>, r)
                  else if \<not> rc_first r \<and> seq \<noteq> rc_last_seq r + 1 then
                    (Inl \<lparr>ee_kind = SequenceGap, ee_counter = seq,
                          ee_message = ''sequence gap: last='' @ dec_string (unat (rc_last_seq r))
                            @ '' recv='' @ dec_string (unat seq)\<rparr>, r)
                  else (Inr payload, r\<lparr>rc_last_seq := seq, rc_first := False\<rparr>))))"

section \<open>The CRC is injective in two adjacent bytes\<close>

lemma and_0x8000: "c AND 0x8000 \<noteq> 0 \<longleftrightarrow> bit (c :: u16) 15"
  using and_exp_eq_0_iff_not_bit [of c 15] by simp

lemma crc_bit_eq: "crc_bit c = (if bit c 15 then push_bit 1 c XOR 0x1021 else push_bit 1 c)"
  by (simp only: crc_bit_def and_0x8000)

lemma bit_shift_up: "bit (push_bit 1 (c :: u16)) n \<longleftrightarrow> 0 < n \<and> n < 16 \<and> bit c (n - 1)"
  unfolding bit_push_bit_iff by auto

lemma crc_bit_0: "bit (crc_bit c) 0 \<longleftrightarrow> bit c 15"
proof -
  have "bit (0x1021 :: u16) 0" by simp
  then show ?thesis by (simp only: crc_bit_eq bit_xor_iff bit_shift_up split: if_split) auto
qed

lemma push_bit_1_low: "push_bit 1 (c :: u16) = push_bit 1 d \<Longrightarrow> n < 15 \<Longrightarrow> bit c n = bit d n"
  using bit_shift_up [of c "Suc n"] bit_shift_up [of d "Suc n"] by (simp del: push_bit_Suc)

lemma crc_bit_inj: "inj crc_bit"
proof (rule injI)
  fix c d assume eq: "crc_bit c = crc_bit d"
  then have top: "bit c 15 = bit d 15" by (metis crc_bit_0)
  have shift: "push_bit 1 c = push_bit 1 d"
  proof (cases "bit c 15")
    case True
    with top eq have "(push_bit 1 c XOR 0x1021) XOR 0x1021 = (push_bit 1 d XOR 0x1021) XOR 0x1021"
      by (simp only: crc_bit_eq if_True)
    then show ?thesis by (simp only: xor.assoc xor_self_eq xor.right_neutral)
  qed (use top eq in \<open>simp only: crc_bit_eq if_False\<close>)
  show "c = d"
  proof (rule bit_word_eqI)
    fix n assume "n < LENGTH(16)"
    then have "n < 15 \<or> n = 15" by auto
    with push_bit_1_low [OF shift] top show "bit c n = bit d n" by blast
  qed
qed

text \<open>Linearity, and a low byte passes through eight rounds unchanged.\<close>

lemma crc_bit_xor: "crc_bit (c XOR d) = crc_bit c XOR crc_bit d"
  by (rule bit_word_eqI)
    (auto simp only: crc_bit_eq bit_xor_iff bit_shift_up split: if_split)

lemma crc_rounds_xor: "(crc_bit ^^ n) (c XOR d) = (crc_bit ^^ n) c XOR (crc_bit ^^ n) d"
  by (induction n) (simp_all add: crc_bit_xor)

lemma crc_rounds_inj: "inj (crc_bit ^^ n)"
  by (induction n) (auto simp: inj_def dest: injD [OF crc_bit_inj])

lemma bit_byte_shift: "bit (push_bit k (ucast (b :: u8)) :: u16) n \<longleftrightarrow>
    k \<le> n \<and> n < 16 \<and> bit b (n - k)"
  unfolding bit_push_bit_iff by (auto simp: bit_ucast_iff dest: bit_imp_le_length)

lemma crc_rounds_low:
  "k \<le> 8 \<Longrightarrow> (crc_bit ^^ k) (ucast (b :: u8)) = push_bit k (ucast b)"
proof (induction k)
  case (Suc k)
  have "\<not> bit (push_bit k (ucast b) :: u16) 15"
    using Suc.prems bit_imp_le_length [of b "15 - k"] by (auto simp: bit_byte_shift)
  with Suc show ?case by (simp add: crc_bit_eq push_bit_Suc)
qed simp

lemma crc_byte_split:
  "crc_byte c b = (crc_bit ^^ 8) c XOR (crc_bit ^^ 8) (push_bit 8 (ucast b))"
  unfolding crc_byte_def by (rule crc_rounds_xor)

lemma crc_byte_inj_state: "inj (\<lambda>c. crc_byte c b)"
proof (rule injI)
  fix c d assume "crc_byte c b = crc_byte d b"
  then have "c XOR push_bit 8 (ucast b) = d XOR push_bit 8 (ucast b)"
    using injD [OF crc_rounds_inj] by (auto simp: crc_byte_def)
  then have "(c XOR push_bit 8 (ucast b)) XOR push_bit 8 (ucast b) =
      (d XOR push_bit 8 (ucast b)) XOR push_bit 8 (ucast b)" by (rule arg_cong)
  then show "c = d" by (simp only: xor.assoc xor_self_eq xor.right_neutral)
qed

text \<open>Two bytes enter as one 16-bit block: both rounds of eight act on their concatenation.\<close>

lemma crc_two_bytes:
  "crc_byte (crc_byte c a) b = (crc_bit ^^ 16) (c XOR (push_bit 8 (ucast a) XOR ucast b))"
proof -
  have low: "push_bit 8 (ucast b) = (crc_bit ^^ 8) (ucast b)"
    by (simp only: crc_rounds_low order.refl)
  have "crc_byte (crc_byte c a) b =
      (crc_bit ^^ 8) ((crc_bit ^^ 8) (c XOR push_bit 8 (ucast a)) XOR (crc_bit ^^ 8) (ucast b))"
    by (simp only: crc_byte_def low)
  also have "\<dots> = (crc_bit ^^ 8) ((crc_bit ^^ 8) ((c XOR push_bit 8 (ucast a)) XOR ucast b))"
    by (simp only: crc_rounds_xor)
  also have "\<dots> = (crc_bit ^^ (8 + 8)) ((c XOR push_bit 8 (ucast a)) XOR ucast b)"
    by (simp only: funpow_add comp_def)
  finally show ?thesis by (simp add: xor.assoc)
qed

lemma two_bytes_inj:
  assumes "push_bit 8 (ucast a) XOR ucast b = (push_bit 8 (ucast a') XOR ucast b' :: u16)"
  shows "(a :: u8) = a' \<and> (b :: u8) = b'"
proof -
  have bits: "(8 \<le> n \<and> n < 16 \<and> bit a (n - 8)) = (n < 16 \<and> bit b n) \<longleftrightarrow>
      (8 \<le> n \<and> n < 16 \<and> bit a' (n - 8)) = (n < 16 \<and> bit b' n)" for n
    using arg_cong [OF assms, of "\<lambda>w. bit w n"] bit_byte_shift [of 0 b n] bit_byte_shift [of 0 b' n]
    by (simp only: bit_xor_iff bit_byte_shift push_bit_0_id id_apply le0 diff_zero) blast
  have "bit a n = bit a' n" if "n < 8" for n
    using bits [of "n + 8"] that bit_imp_le_length [of b "n + 8"] bit_imp_le_length [of b' "n + 8"]
    by auto
  moreover have "bit b n = bit b' n" if "n < 8" for n
    using bits [of n] that by auto
  ultimately show ?thesis by (auto intro!: bit_word_eqI)
qed

lemma crc_two_bytes_inj:
  assumes "crc_byte (crc_byte c a) b = crc_byte (crc_byte c a') b'"
  shows "a = a' \<and> b = b'"
proof (rule two_bytes_inj)
  let ?x = "push_bit 8 (ucast a) XOR ucast b :: u16"
  let ?y = "push_bit 8 (ucast a') XOR ucast b' :: u16"
  have "c XOR ?x = c XOR ?y"
    using assms injD [OF crc_rounds_inj] unfolding crc_two_bytes by blast
  then have "c XOR (c XOR ?x) = c XOR (c XOR ?y)" by (rule arg_cong)
  then show "?x = ?y" by (simp only: xor.assoc [symmetric] xor_self_eq xor.left_neutral)
qed

lemma crc_from_ne: "c \<noteq> d \<Longrightarrow> foldl crc_byte c data \<noteq> foldl crc_byte d data"
  by (rule foldl_inj) (rule crc_byte_inj_state)

lemma crc_byte_inj_byte: "crc_byte c a = crc_byte c b \<Longrightarrow> a = b"
  using crc_two_bytes_inj [of c a 0 b 0] by simp

lemma crc16_two_bytes:
  assumes "(a, b) \<noteq> (a', b')"
  shows "crc16 (pre @ a # b # post) \<noteq> crc16 (pre @ a' # b' # post)"
  using assms crc_two_bytes_inj by (auto simp: crc16_def intro!: crc_from_ne)

lemma crc16_one_byte: "a \<noteq> b \<Longrightarrow> crc16 (pre @ a # post) \<noteq> crc16 (pre @ b # post)"
  using crc_byte_inj_byte by (auto simp: crc16_def intro!: crc_from_ne)

lemma crc16_update:
  assumes "i < length data" and "v \<noteq> data ! i"
  shows "crc16 (data[i := v]) \<noteq> crc16 data"
  using crc16_one_byte [of v "data ! i" "take i data" "drop (Suc i) data"] assms
  by (simp add: list_update_split id_take_nth_drop [symmetric])

section \<open>Datagrams\<close>

definition zeroed :: "bytes \<Rightarrow> bytes" where
  "zeroed data = data[8 := 0, 9 := 0]"

definition wire_crc :: "bytes \<Rightarrow> u16" where
  "wire_crc data = u16_from_le (data ! 8) (data ! 9)"

definition crc_ok :: "bytes \<Rightarrow> bool" where
  "crc_ok data \<longleftrightarrow> crc16 (zeroed data) = wire_crc data"

definition wire_seq :: "bytes \<Rightarrow> u32" where
  "wire_seq data = u32_from_le (data ! 4) (data ! 5) (data ! 6) (data ! 7)"

definition ids_match :: "e2e_config \<Rightarrow> bytes \<Rightarrow> bool" where
  "ids_match cfg data \<longleftrightarrow> u16_from_le (data ! 0) (data ! 1) = cfg_data_id cfg \<and>
     u16_from_le (data ! 2) (data ! 3) = cfg_source_id cfg"

definition in_sequence :: "receiver \<Rightarrow> u32 \<Rightarrow> bool" where
  "in_sequence r seq \<longleftrightarrow> rc_first r \<or> seq = rc_last_seq r + 1"

lemma zeroed_split:
  "10 \<le> length data \<Longrightarrow> (take 10 data)[8 := 0, 9 := 0] @ drop 10 data = zeroed data"
  by (simp add: zeroed_def list_update_append [symmetric] flip: list_update_append1)

text \<open>The four verdicts of \<open>unwrap\<close>, in the order the code takes them.\<close>

definition verdict :: "bytes \<Rightarrow> receiver \<Rightarrow> error_kind option" where
  "verdict data r =
     (if length data < 10 then Some HeaderTooShort
      else if \<not> crc_ok data then Some CrcMismatch
      else if \<not> ids_match (rc_cfg r) data then Some IdentifierMismatch
      else if \<not> in_sequence r (wire_seq data) then Some SequenceGap
      else None)"

lemma unwrap_verdict:
  shows "verdict data r = None \<Longrightarrow>
      unwrap data r = (Inr (drop 10 data), r\<lparr>rc_last_seq := wire_seq data, rc_first := False\<rparr>)"
    and "verdict data r = Some k \<Longrightarrow>
      \<exists>e. unwrap data r = (Inl e, r) \<and> ee_kind e = k \<and>
          ee_counter e = (if k = HeaderTooShort then 0 else wire_seq data)"
  by (auto simp: verdict_def unwrap_def HEADER_SIZE_def Let_def zeroed_split crc_ok_def
      ids_match_def in_sequence_def wire_crc_def wire_seq_def not_less split: if_splits)

lemma unwrap_Inr:
  "fst (unwrap data r) = Inr payload \<longleftrightarrow> verdict data r = None \<and> payload = drop 10 data"
  using unwrap_verdict(1) [of data r] unwrap_verdict(2) [of data r]
  by (cases "verdict data r") auto

lemma unwrap_state:
  "snd (unwrap data r) =
     (if verdict data r = None then r\<lparr>rc_last_seq := wire_seq data, rc_first := False\<rparr> else r)"
  using unwrap_verdict(1) [of data r] unwrap_verdict(2) [of data r]
  by (cases "verdict data r") auto

text \<open>The layout of a protected datagram.\<close>

definition header_zero :: "e2e_config \<Rightarrow> u32 \<Rightarrow> bytes" where
  "header_zero cfg seq =
     u16_to_le (cfg_data_id cfg) @ u16_to_le (cfg_source_id cfg) @ u32_to_le seq @ [0, 0]"

lemma replicate_10: "replicate 10 x = [x, x, x, x, x, x, x, x, x, x]"
  by (simp add: numeral_eq_Suc)

lemma ten_bytes [simp]:
  fixes b0 b1 b2 b3 b4 b5 b6 b7 b8 b9 :: u8 and rest :: bytes
  defines "d \<equiv> b0 # b1 # b2 # b3 # b4 # b5 # b6 # b7 # b8 # b9 # rest"
  shows "zeroed d = b0 # b1 # b2 # b3 # b4 # b5 # b6 # b7 # 0 # 0 # rest"
    and "wire_crc d = u16_from_le b8 b9"
    and "wire_seq d = u32_from_le b4 b5 b6 b7"
    and "ids_match cfg d \<longleftrightarrow>
      u16_from_le b0 b1 = cfg_data_id cfg \<and> u16_from_le b2 b3 = cfg_source_id cfg"
    and "drop 10 d = rest"
  by (simp_all add: d_def zeroed_def wire_crc_def wire_seq_def ids_match_def)

lemma build_protected_eq:
  "build_protected cfg seq payload =
     u16_to_le (cfg_data_id cfg) @ u16_to_le (cfg_source_id cfg) @ u32_to_le seq @
     u16_to_le (crc16 (header_zero cfg seq @ payload)) @ payload"
  by (simp add: build_protected_def copy_at_def HEADER_SIZE_def Let_def header_zero_def
      u16_to_le_def u32_to_le_def replicate_10)

lemma length_build_protected [simp]:
  "length (build_protected cfg seq payload) = 10 + length payload"
  by (simp add: build_protected_eq)

lemma build_protected_fields [simp]:
  "wire_seq (build_protected cfg seq payload) = seq"
  "ids_match cfg' (build_protected cfg seq payload) \<longleftrightarrow>
     cfg_data_id cfg = cfg_data_id cfg' \<and> cfg_source_id cfg = cfg_source_id cfg'"
  "drop 10 (build_protected cfg seq payload) = payload"
  "zeroed (build_protected cfg seq payload) = header_zero cfg seq @ payload"
  "wire_crc (build_protected cfg seq payload) = crc16 (header_zero cfg seq @ payload)"
  by (simp_all add: build_protected_eq header_zero_def u16_to_le_def u32_to_le_def)

lemma build_protected_crc_ok [simp]: "crc_ok (build_protected cfg seq payload)"
  by (simp add: crc_ok_def)

lemma verdict_build_protected:
  "verdict (build_protected cfg seq payload) r =
     (if \<not> ids_match (rc_cfg r) (build_protected cfg seq payload) then Some IdentifierMismatch
      else if \<not> in_sequence r seq then Some SequenceGap else None)"
  by (simp add: verdict_def)

text \<open>Changing any one byte of a datagram with a good CRC makes the CRC bad.\<close>

lemma crc_ok_update:
  assumes "10 \<le> length data" and "crc_ok data" and "i < length data" and "v \<noteq> data ! i"
  shows "\<not> crc_ok (data[i := v])"
proof (cases "i = 8 \<or> i = 9")
  case True
  then have "zeroed (data[i := v]) = zeroed data"
    by (auto simp: zeroed_def list_update_swap)
  moreover have "wire_crc (data[i := v]) \<noteq> wire_crc data"
    using True assms by (auto simp: wire_crc_def dest!: u16_from_le_inj)
  ultimately show ?thesis using assms(2) by (simp add: crc_ok_def)
next
  case False
  then have "zeroed (data[i := v]) = (zeroed data)[i := v]"
    by (simp add: zeroed_def list_update_swap)
  moreover have "zeroed data ! i = data ! i" using False by (simp add: zeroed_def)
  ultimately have "crc16 (zeroed (data[i := v])) \<noteq> crc16 (zeroed data)"
    using crc16_update [of i "zeroed data" v] assms by (simp add: zeroed_def)
  moreover have "wire_crc (data[i := v]) = wire_crc data"
    using False by (simp add: wire_crc_def)
  ultimately show ?thesis using assms(2) by (simp add: crc_ok_def)
qed

section \<open>Streams\<close>

fun protect_all :: "bytes list \<Rightarrow> protector \<Rightarrow> bytes list \<times> protector" where
  "protect_all [] p = ([], p)"
| "protect_all (b # bs) p =
     (case protect b p of (d, p1) \<Rightarrow> (case protect_all bs p1 of (ds, p2) \<Rightarrow> (d # ds, p2)))"

fun unwrap_all :: "bytes list \<Rightarrow> receiver \<Rightarrow> (e2e_error + bytes) list \<times> receiver" where
  "unwrap_all [] r = ([], r)"
| "unwrap_all (d # ds) r =
     (case unwrap d r of (x, r1) \<Rightarrow> (case unwrap_all ds r1 of (xs, r2) \<Rightarrow> (x # xs, r2)))"

lemma protect_all_Cons [simp]:
  "fst (protect_all (b # bs) p) =
     build_protected (pr_cfg p) (pr_seq p) b # fst (protect_all bs (p\<lparr>pr_seq := pr_seq p + 1\<rparr>))"
  by (simp add: protect_def Let_def split: prod.split)

lemma unwrap_all_Cons [simp]:
  "fst (unwrap_all (d # ds) r) = fst (unwrap d r) # fst (unwrap_all ds (snd (unwrap d r)))"
  "snd (unwrap_all (d # ds) r) = snd (unwrap_all ds (snd (unwrap d r)))"
  by (simp_all split: prod.split)

declare protect_all.simps(2) [simp del] unwrap_all.simps(2) [simp del]

lemma unwrap_protected_stream:
  assumes "rc_cfg r = pr_cfg p" and "rc_first r \<or> pr_seq p = rc_last_seq r + 1"
  shows "fst (unwrap_all (fst (protect_all payloads p)) r) = map Inr payloads"
  using assms
proof (induction payloads arbitrary: p r)
  case (Cons b bs)
  have "verdict (build_protected (pr_cfg p) (pr_seq p) b) r = None"
    using Cons.prems by (auto simp: verdict_build_protected in_sequence_def)
  from unwrap_verdict(1) [OF this] Cons.IH [of _ "p\<lparr>pr_seq := pr_seq p + 1\<rparr>"] Cons.prems
  show ?case by simp
qed simp

text \<open>The counters of the datagrams a receiver accepts, in order of arrival.\<close>

fun accepted_seqs :: "bytes list \<Rightarrow> receiver \<Rightarrow> u32 list" where
  "accepted_seqs [] r = []"
| "accepted_seqs (d # ds) r =
     (if is_ok (fst (unwrap d r)) then wire_seq d # accepted_seqs ds (snd (unwrap d r))
      else accepted_seqs ds (snd (unwrap d r)))"

lemma is_ok_unwrap: "is_ok (fst (unwrap d r)) \<longleftrightarrow> verdict d r = None"
  using unwrap_verdict(1) [of d r] unwrap_verdict(2) [of d r] by (cases "verdict d r") auto

lemma accepted_seqs_after:
  assumes "\<not> rc_first r" and "j < length (accepted_seqs ds r)"
  shows "accepted_seqs ds r ! j = rc_last_seq r + 1 + of_nat j"
  using assms
proof (induction ds arbitrary: r j)
  case (Cons d ds)
  show ?case
  proof (cases "verdict d r = None")
    case True
    then have "wire_seq d = rc_last_seq r + 1"
      using Cons.prems(1) by (auto simp: verdict_def in_sequence_def split: if_splits)
    with Cons.IH [of "snd (unwrap d r)" "j - 1"] Cons.prems True show ?thesis
      by (cases j) (auto simp: is_ok_unwrap unwrap_state)
  next
    case False
    then obtain k where "verdict d r = Some k" by auto
    with Cons show ?thesis by (simp add: is_ok_unwrap unwrap_state)
  qed
qed simp

lemma accepted_seqs_consecutive:
  assumes "j < length (accepted_seqs ds r)"
  shows "accepted_seqs ds r ! j = hd (accepted_seqs ds r) + of_nat j"
  using assms
proof (induction ds arbitrary: r)
  case (Cons d ds)
  show ?case
  proof (cases "verdict d r = None")
    case True
    then have "\<not> rc_first (snd (unwrap d r))" "rc_last_seq (snd (unwrap d r)) = wire_seq d"
      by (simp_all add: unwrap_state)
    with Cons.prems True accepted_seqs_after [of "snd (unwrap d r)" "j - 1" ds] show ?thesis
      by (cases j) (auto simp: is_ok_unwrap)
  next
    case False
    then obtain k where "verdict d r = Some k" by auto
    with Cons show ?thesis by (simp add: is_ok_unwrap unwrap_state)
  qed
qed simp

lemma unat_of_nat_u32: "k < 2 ^ 32 \<Longrightarrow> unat (of_nat k :: u32) = k"
  by (simp add: unat_of_nat)

text \<open>A receiver that has missed one datagram rejects the rest of the stream.\<close>

lemma protected_gap:
  assumes "\<not> rc_first r" and "pr_cfg p = rc_cfg r"
    and "pr_seq p = rc_last_seq r + 1 + of_nat k" and "0 < k"
    and "k + length payloads \<le> 2 ^ 32"
  shows "snd (unwrap_all (fst (protect_all payloads p)) r) = r \<and>
    (\<forall>x \<in> set (fst (unwrap_all (fst (protect_all payloads p)) r)).
       \<exists>e. x = Inl e \<and> ee_kind e = SequenceGap)"
  using assms(2-)
proof (induction payloads arbitrary: p k)
  case (Cons b bs)
  have "k < 2 ^ 32" using Cons.prems(4) by simp
  then have "unat (of_nat k :: u32) = k" by (rule unat_of_nat_u32)
  then have "(of_nat k :: u32) \<noteq> 0" using Cons.prems(3) by auto
  then have "pr_seq p \<noteq> rc_last_seq r + 1" using Cons.prems(2) by simp
  then have "verdict (build_protected (pr_cfg p) (pr_seq p) b) r = Some SequenceGap"
    using Cons.prems(1) assms(1) by (simp add: verdict_build_protected in_sequence_def)
  from unwrap_verdict(2) [OF this] obtain e where
    e: "unwrap (build_protected (pr_cfg p) (pr_seq p) b) r = (Inl e, r)" "ee_kind e = SequenceGap"
    by blast
  from Cons.IH [of "p\<lparr>pr_seq := pr_seq p + 1\<rparr>" "Suc k"] Cons.prems e
  show ?case by (simp add: add.assoc)
qed simp

section \<open>Properties\<close>

text \<open>
  C4: Every stream of payloads sent through a fresh protector and taken in order by a
  fresh receiver with the same configuration comes out unchanged, datagram by datagram,
  however long the stream is (the 32-bit sequence counter wraps around on both sides).
\<close>

theorem e2e_stream_roundtrip:
  "fst (unwrap_all (fst (protect_all payloads (protector_new cfg))) (receiver_new cfg)) =
     map Inr payloads"
  by (rule unwrap_protected_stream) (simp_all add: protector_new_def receiver_new_def)

text \<open>
  C21: Changing any one byte of a protected datagram, in the header, the CRC field or the
  payload, to any other value makes every receiver reject it with a CRC mismatch, and
  the receiver's state does not change.
\<close>

theorem e2e_corrupt_byte_rejected:
  assumes "i < length (fst (protect payload p))" and "v \<noteq> fst (protect payload p) ! i"
  shows "\<exists>e. unwrap ((fst (protect payload p))[i := v]) r = (Inl e, r) \<and> ee_kind e = CrcMismatch"
proof -
  have "verdict ((fst (protect payload p))[i := v]) r = Some CrcMismatch"
    using assms crc_ok_update [of "fst (protect payload p)" i v]
    by (simp add: verdict_def protect_def Let_def)
  then show ?thesis using unwrap_verdict(2) by blast
qed

theorem e2e_corrupt_byte_rejected_witness:
  "\<exists>e. unwrap ((fst (protect [7, 9] (protector_new \<lparr>cfg_data_id = 1, cfg_source_id = 16\<rparr>)))[0 := 0xFF])
      (receiver_new \<lparr>cfg_data_id = 1, cfg_source_id = 16\<rparr>) =
      (Inl e, receiver_new \<lparr>cfg_data_id = 1, cfg_source_id = 16\<rparr>) \<and> ee_kind e = CrcMismatch"
  by (rule e2e_corrupt_byte_rejected)
    (simp_all add: protect_def Let_def protector_new_def build_protected_eq u16_to_le_def)

text \<open>
  An error burst inside two adjacent payload bytes (any pattern of up to 16 bit
  errors there) is always detected: the datagram with the original header and the
  altered payload is rejected with a CRC mismatch.
\<close>

theorem e2e_burst_rejected:
  assumes "(a, b) \<noteq> (a', b')"
  shows "\<exists>e. unwrap (take 10 (build_protected cfg seq (pre @ a # b # post)) @ pre @ a' # b' # post) r
      = (Inl e, r) \<and> ee_kind e = CrcMismatch"
proof -
  let ?h = "header_zero cfg seq"
  let ?d = "take 10 (build_protected cfg seq (pre @ a # b # post)) @ pre @ a' # b' # post"
  have "crc16 ((?h @ pre) @ a # b # post) \<noteq> crc16 ((?h @ pre) @ a' # b' # post)"
    using assms by (rule crc16_two_bytes)
  then have "\<not> crc_ok ?d"
    by (simp add: crc_ok_def build_protected_eq header_zero_def u16_to_le_def u32_to_le_def)
  then have "verdict ?d r = Some CrcMismatch" by (simp add: verdict_def)
  then show ?thesis using unwrap_verdict(2) by blast
qed

theorem e2e_burst_rejected_witness:
  "\<exists>e. unwrap (take 10 (build_protected \<lparr>cfg_data_id = 1, cfg_source_id = 16\<rparr> 0 ([] @ 1 # 2 # []))
        @ [] @ 3 # 2 # []) (receiver_new \<lparr>cfg_data_id = 1, cfg_source_id = 16\<rparr>)
      = (Inl e, receiver_new \<lparr>cfg_data_id = 1, cfg_source_id = 16\<rparr>) \<and> ee_kind e = CrcMismatch"
  by (rule e2e_burst_rejected) simp

text \<open>
  C12: Whatever datagrams arrive (lost, repeated, reordered, corrupted or forged ones
  among them), those a fresh receiver accepts carry consecutive sequence counters,
  starting from the first one accepted, and among any \<open>2 ^ 32\<close> accepted in a row no
  counter occurs twice.
\<close>

theorem e2e_accepted_consecutive:
  "accepted_seqs ds (receiver_new cfg) =
     map (\<lambda>j. hd (accepted_seqs ds (receiver_new cfg)) + of_nat j)
       [0..<length (accepted_seqs ds (receiver_new cfg))] \<and>
   distinct (take (2 ^ 32) (accepted_seqs ds (receiver_new cfg)))"
proof
  let ?acc = "accepted_seqs ds (receiver_new cfg)"
  show "?acc = map (\<lambda>j. hd ?acc + of_nat j) [0..<length ?acc]"
    by (rule nth_equalityI) (auto intro: accepted_seqs_consecutive)
  show "distinct (take (2 ^ 32) ?acc)"
  proof (rule distinct_conv_nth [THEN iffD2], intro allI impI)
    fix i j assume ij: "i < length (take (2 ^ 32) ?acc)" "j < length (take (2 ^ 32) ?acc)" "i \<noteq> j"
    then have "unat (of_nat i :: u32) = i" "unat (of_nat j :: u32) = j"
      by (auto intro!: unat_of_nat_u32)
    with ij(3) have "(of_nat i :: u32) \<noteq> of_nat j" by metis
    with ij show "take (2 ^ 32) ?acc ! i \<noteq> take (2 ^ 32) ?acc ! j"
      using accepted_seqs_consecutive [of i ds "receiver_new cfg"]
        accepted_seqs_consecutive [of j ds "receiver_new cfg"] by simp
  qed
qed

text \<open>
  A receiver that misses exactly one datagram of a stream never resynchronises by
  itself: every later datagram of the same sender, up to a full turn of the counter, is
  rejected with a sequence gap and leaves the receiver unchanged.
\<close>

theorem e2e_gap_locks_out:
  assumes "\<not> rc_first r" and "pr_cfg p = rc_cfg r" and "pr_seq p = rc_last_seq r + 2"
    and "length payloads < 2 ^ 32"
  shows "snd (unwrap_all (fst (protect_all payloads p)) r) = r \<and>
    (\<forall>x \<in> set (fst (unwrap_all (fst (protect_all payloads p)) r)).
       \<exists>e. x = Inl e \<and> ee_kind e = SequenceGap)"
  using protected_gap [of r p 1 payloads] assms by (simp add: add.assoc)

theorem e2e_gap_locks_out_witness:
  "snd (unwrap_all (fst (protect_all [[1], [2]]
        \<lparr>pr_cfg = \<lparr>cfg_data_id = 1, cfg_source_id = 16\<rparr>, pr_seq = 2\<rparr>))
      \<lparr>rc_cfg = \<lparr>cfg_data_id = 1, cfg_source_id = 16\<rparr>, rc_last_seq = 0, rc_first = False\<rparr>) =
    \<lparr>rc_cfg = \<lparr>cfg_data_id = 1, cfg_source_id = 16\<rparr>, rc_last_seq = 0, rc_first = False\<rparr>"
  using e2e_gap_locks_out
    [of "\<lparr>rc_cfg = \<lparr>cfg_data_id = 1, cfg_source_id = 16\<rparr>, rc_last_seq = 0, rc_first = False\<rparr>"
      "\<lparr>pr_cfg = \<lparr>cfg_data_id = 1, cfg_source_id = 16\<rparr>, pr_seq = 2\<rparr>" "[[1], [2]]"]
  by simp

text \<open>
  The verdict on an arbitrary datagram, with the checks in the order of the code:
  short, CRC, identifiers, sequence; a datagram from a sender with another data id or
  source id is rejected even though its CRC is right; only an accepted datagram changes
  the receiver, whose expected counter then follows it.
\<close>

theorem e2e_unwrap_verdict:
  "map_sum ee_kind id (fst (unwrap data r)) =
     (if length data < HEADER_SIZE then Inl HeaderTooShort
      else if crc16 (data[8 := 0, 9 := 0]) \<noteq> u16_from_le (data ! 8) (data ! 9) then Inl CrcMismatch
      else if (u16_from_le (data ! 0) (data ! 1), u16_from_le (data ! 2) (data ! 3)) \<noteq>
              (cfg_data_id (rc_cfg r), cfg_source_id (rc_cfg r)) then Inl IdentifierMismatch
      else if \<not> rc_first r \<and> wire_seq data \<noteq> rc_last_seq r + 1 then Inl SequenceGap
      else Inr (drop HEADER_SIZE data)) \<and>
   snd (unwrap data r) =
     (if is_ok (fst (unwrap data r))
      then r\<lparr>rc_last_seq := wire_seq data, rc_first := False\<rparr> else r)"
  using unwrap_verdict [of data r] unwrap_state [of data r] is_ok_unwrap [of data r]
  by (cases "verdict data r")
    (auto simp: verdict_def crc_ok_def zeroed_def wire_crc_def ids_match_def in_sequence_def
      HEADER_SIZE_def split: if_splits)

end
