(* ===== verification/Relay_Types.thy ===== *)
theory Relay_Types
  imports Rust_Text
begin

text \<open>
  The RELAY protocol types of \<open>src/relay.rs\<close> and the unified error type of
  \<open>src/error.rs\<close>: protocol identifiers and their integer encoding, the message
  envelope, back-pressure policy and subscriber options, the four RELAY error
  sentinels, the deadline context, health and metrics.
\<close>

section \<open>Protocol identifiers\<close>

datatype protocol = Can | Dds | Lin | Mqtt | Rcp | Someip

fun protocol_to_i32 :: "protocol \<Rightarrow> int" where
  "protocol_to_i32 Can = 1"
| "protocol_to_i32 Dds = 2"
| "protocol_to_i32 Lin = 3"
| "protocol_to_i32 Mqtt = 4"
| "protocol_to_i32 Rcp = 5"
| "protocol_to_i32 Someip = 6"

definition int_string :: "int \<Rightarrow> string" where
  "int_string v = (if v < 0 then CHR ''-'' # dec_string (nat (- v)) else dec_string (nat v))"

definition protocol_try_from :: "int \<Rightarrow> string + protocol" where
  "protocol_try_from v =
     (if v = 1 then Inr Can
      else if v = 2 then Inr Dds
      else if v = 3 then Inr Lin
      else if v = 4 then Inr Mqtt
      else if v = 5 then Inr Rcp
      else if v = 6 then Inr Someip
      else Inl (''unknown protocol: '' @ int_string v))"

fun protocol_display :: "protocol \<Rightarrow> string" where
  "protocol_display Can = ''CAN''"
| "protocol_display Dds = ''DDS''"
| "protocol_display Lin = ''LIN''"
| "protocol_display Mqtt = ''MQTT''"
| "protocol_display Rcp = ''RCP''"
| "protocol_display Someip = ''SOMEIP''"

text \<open>The derived \<open>Debug\<close> text (\<open>{:?}\<close>), which error messages quote.\<close>

fun protocol_debug :: "protocol \<Rightarrow> string" where
  "protocol_debug Can = ''Can''"
| "protocol_debug Dds = ''Dds''"
| "protocol_debug Lin = ''Lin''"
| "protocol_debug Mqtt = ''Mqtt''"
| "protocol_debug Rcp = ''Rcp''"
| "protocol_debug Someip = ''Someip''"

lemma protocol_roundtrip [simp]: "protocol_try_from (protocol_to_i32 p) = Inr p"
  by (cases p) (simp_all add: protocol_try_from_def)

lemma protocol_try_from_Inr:
  "protocol_try_from v = Inr p \<longleftrightarrow> v = protocol_to_i32 p"
  by (cases p) (auto simp: protocol_try_from_def)

section \<open>Version and message\<close>

record version =
  major :: "32 word"
  minor :: "32 word"
  patch :: "32 word"

definition version_default :: version where
  "version_default = \<lparr>major = 0, minor = 0, patch = 0\<rparr>"

definition i32_string :: "32 word \<Rightarrow> string" where
  "i32_string w = int_string (sint w)"

definition version_display :: "version \<Rightarrow> string" where
  "version_display v =
     i32_string (major v) @ ''.'' @ i32_string (minor v) @ ''.'' @ i32_string (patch v)"

text \<open>
  The envelope.  Timestamps come from the \<open>chrono\<close> crate and are opaque here: their
  type is a parameter.  The \<open>BTreeMap\<close> of metadata is a finite map of strings.
\<close>

record 'ts message =
  msg_protocol :: protocol
  msg_version :: version
  msg_id :: string
  msg_payload :: bytes
  msg_timestamp :: 'ts
  msg_seq :: u64
  msg_meta :: "string \<rightharpoonup> string"

definition message_new :: "'ts \<Rightarrow> protocol \<Rightarrow> string \<Rightarrow> bytes \<Rightarrow> 'ts message" where
  "message_new now p i payload =
     \<lparr>msg_protocol = p, msg_version = version_default, msg_id = i, msg_payload = payload,
      msg_timestamp = now, msg_seq = 0, msg_meta = Map.empty\<rparr>"

section \<open>Subscriber options\<close>

datatype back_pressure_policy = DropNewest | DropOldest | Block

instantiation back_pressure_policy :: default
begin
definition "default_back_pressure_policy = DropNewest"
instance ..
end

record subscriber_options =
  channel_depth :: usize
  back_pressure :: back_pressure_policy
  rate_limit_per_sec :: u32

definition subscriber_options_default :: subscriber_options where
  "subscriber_options_default =
     \<lparr>channel_depth = 0, back_pressure = default, rate_limit_per_sec = 0\<rparr>"

definition chan_depth :: "subscriber_options \<Rightarrow> usize \<Rightarrow> usize" where
  "chan_depth opts default_depth =
     (if channel_depth opts > 0 then channel_depth opts else default_depth)"

lemma chan_depth_pos: "0 < d \<Longrightarrow> 0 < chan_depth opts d"
  by (simp add: chan_depth_def)

section \<open>Errors\<close>

text \<open>The four RELAY sentinels, and the library's own error type.\<close>

datatype relay_error = RClosed | RNotConnected | RTimeout | RPayloadTooLarge

fun relay_error_display :: "relay_error \<Rightarrow> string" where
  "relay_error_display RClosed = ''relay: closed''"
| "relay_error_display RNotConnected = ''relay: not connected''"
| "relay_error_display RTimeout = ''relay: timeout''"
| "relay_error_display RPayloadTooLarge = ''relay: payload too large''"

text \<open>\<open>Io\<close> carries the text of the underlying I/O error.\<close>

datatype error =
    Closed | NotConnected | Timeout | PayloadTooLarge
  | InvalidFrame string | NoResponse | Other string | Io string

fun error_display :: "error \<Rightarrow> string" where
  "error_display Closed = ''relay: closed''"
| "error_display NotConnected = ''relay: not connected''"
| "error_display Timeout = ''relay: timeout''"
| "error_display PayloadTooLarge = ''relay: payload too large''"
| "error_display (InvalidFrame reason) = ''lin: invalid frame: '' @ reason"
| "error_display NoResponse = ''lin: no slave response''"
| "error_display (Other m) = ''lin: '' @ m"
| "error_display (Io m) = m"

fun error_from_relay :: "relay_error \<Rightarrow> error" where
  "error_from_relay RClosed = Closed"
| "error_from_relay RNotConnected = NotConnected"
| "error_from_relay RTimeout = Timeout"
| "error_from_relay RPayloadTooLarge = PayloadTooLarge"

fun error_kind :: "error \<Rightarrow> relay_error option" where
  "error_kind Closed = Some RClosed"
| "error_kind NotConnected = Some RNotConnected"
| "error_kind Timeout = Some RTimeout"
| "error_kind PayloadTooLarge = Some RPayloadTooLarge"
| "error_kind NoResponse = Some RTimeout"
| "error_kind _ = None"

lemma error_kind_from_relay [simp]: "error_kind (error_from_relay e) = Some e"
  by (cases e) simp_all

lemma error_from_relay_display: "error_display (error_from_relay e) = relay_error_display e"
  by (cases e) simp_all

section \<open>Context\<close>

text \<open>Reading the clock is an argument: \<open>now\<close> is the result of \<open>Instant::now()\<close>.\<close>

record context_t =
  deadline :: "instant option"

definition context_background :: context_t where
  "context_background = \<lparr>deadline = None\<rparr>"

definition context_with_timeout :: "instant \<Rightarrow> nat \<Rightarrow> context_t" where
  "context_with_timeout now d = \<lparr>deadline = Some (now + d)\<rparr>"

definition context_done :: "context_t \<Rightarrow> instant \<Rightarrow> bool" where
  "context_done ctx now = (case deadline ctx of None \<Rightarrow> False | Some d \<Rightarrow> d \<le> now)"

lemma context_done_simps [simp]:
  "\<not> context_done context_background now"
  "context_done (context_with_timeout t d) now \<longleftrightarrow> t + d \<le> now"
  by (simp_all add: context_done_def context_background_def context_with_timeout_def)

lemma context_done_mono: "context_done ctx s \<Longrightarrow> s \<le> t \<Longrightarrow> context_done ctx t"
  by (auto simp: context_done_def split: option.splits)

section \<open>Health and metrics\<close>

datatype health_status = HealthOk | HealthDegraded | HealthDown

fun health_status_display :: "health_status \<Rightarrow> string" where
  "health_status_display HealthOk = ''OK''"
| "health_status_display HealthDegraded = ''degraded''"
| "health_status_display HealthDown = ''down''"

record health =
  health_status :: health_status
  health_details :: string

definition health_ok :: health where
  "health_ok = \<lparr>health_status = HealthOk, health_details = []\<rparr>"

definition health_degraded :: "string \<Rightarrow> health" where
  "health_degraded d = \<lparr>health_status = HealthDegraded, health_details = d\<rparr>"

definition health_down :: "string \<Rightarrow> health" where
  "health_down d = \<lparr>health_status = HealthDown, health_details = d\<rparr>"

record metrics =
  m_write_count :: u64
  m_deliver_count :: u64
  m_drop_count :: u64
  m_bytes_written :: u64
  m_bytes_delivered :: u64
  m_error_count :: u64

end
