(* ===== verification/Lin_Frame.thy ===== *)
theory Lin_Frame
  imports Relay_Types
begin

text \<open>
  \<open>src/frame.rs\<close>: frame types, the protected identifier (PID), the carry-around
  checksum and frame validation.  The PID functions are characterised as a
  distance-2 code on the 64 identifiers, and the checksum loop is shown equal to
  the end-around-carry sum of the bytes.
\<close>

section \<open>Constants and types\<close>

definition LIN_MAX_DATA_LEN :: nat where [lin_defs]: "LIN_MAX_DATA_LEN = 8"
definition LIN_MAX_ID :: u8 where [lin_defs]: "LIN_MAX_ID = 0x3F"
definition LIN_DIAG_REQUEST_ID :: u8 where [lin_defs]: "LIN_DIAG_REQUEST_ID = 0x3C"
definition LIN_DIAG_RESPONSE_ID :: u8 where [lin_defs]: "LIN_DIAG_RESPONSE_ID = 0x3D"

datatype checksum_type = Classic | Enhanced

instantiation checksum_type :: default
begin
definition "default_checksum_type = Classic"
instance ..
end

fun checksum_type_to_u8 :: "checksum_type \<Rightarrow> u8" where
  "checksum_type_to_u8 Classic = 0"
| "checksum_type_to_u8 Enhanced = 1"

definition checksum_type_try_from :: "u8 \<Rightarrow> string + checksum_type" where
  "checksum_type_try_from v =
     (if v = 0 then Inr Classic
      else if v = 1 then Inr Enhanced
      else Inl (''unknown checksum type: '' @ dec_string (unat v)))"

fun checksum_type_display :: "checksum_type \<Rightarrow> string" where
  "checksum_type_display Classic = ''classic''"
| "checksum_type_display Enhanced = ''enhanced''"

lemma checksum_type_roundtrip [simp]:
  "checksum_type_try_from (checksum_type_to_u8 ct) = Inr ct"
  by (cases ct) (simp_all add: checksum_type_try_from_def)

record lin_frame =
  fr_id :: u8
  fr_data :: bytes
  fr_checksum :: u8
  fr_checksum_type :: checksum_type

record lin_filter =
  flt_id :: u8
  flt_all :: bool

definition filter_matches :: "lin_filter \<Rightarrow> lin_frame \<Rightarrow> bool" where
  "filter_matches flt fr = (if flt_all flt then True else fr_id fr = flt_id flt)"

record schedule_entry =
  se_id :: u8
  se_delay_ms :: u32

section \<open>Protected identifier\<close>

definition protect_id :: "u8 \<Rightarrow> u8" where
  "protect_id i =
     (let i = i AND LIN_MAX_ID;
          p0 = (i XOR drop_bit 1 i XOR drop_bit 2 i XOR drop_bit 4 i) AND 0x01;
          p1 = (NOT (drop_bit 1 i XOR drop_bit 3 i XOR drop_bit 4 i XOR drop_bit 5 i)) AND 0x01
      in i OR push_bit 6 p0 OR push_bit 7 p1)"

definition verify_pid :: "u8 \<Rightarrow> error + u8" where
  "verify_pid pid =
     (let i = pid AND LIN_MAX_ID
      in if protect_id i \<noteq> pid
         then Inl (InvalidFrame (''PID 0x'' @ hex02 pid @ '' parity mismatch''))
         else Inr i)"

text \<open>The bits of a PID, as the LIN specification lists them.\<close>

definition pid_p0 :: "u8 \<Rightarrow> bool" where
  "pid_p0 i = (((bit i 0 \<noteq> bit i 1) \<noteq> bit i 2) \<noteq> bit i 4)"

definition pid_p1 :: "u8 \<Rightarrow> bool" where
  "pid_p1 i = (\<not> (((bit i 1 \<noteq> bit i 3) \<noteq> bit i 4) \<noteq> bit i 5))"

lemma bit_63: "bit (0x3F :: u8) n \<longleftrightarrow> n < 6"
proof -
  have "(0x3F :: u8) = mask 6" by (simp add: mask_eq_exp_minus_1)
  then have "bit (0x3F :: u8) n \<longleftrightarrow> bit (mask 6 :: u8) n" by (rule arg_cong)
  also have "\<dots> \<longleftrightarrow> n < 6" by (auto simp: bit_mask_iff)
  finally show ?thesis .
qed

lemma bit_and_max_id [simp]: "bit (i AND LIN_MAX_ID) n \<longleftrightarrow> n < 6 \<and> bit i n"
  by (simp only: LIN_MAX_ID_def bit_and_iff bit_63) blast

lemma bit_protect_id:
  "bit (protect_id i) n \<longleftrightarrow>
     (if n < 6 then bit i n
      else if n = 6 then pid_p0 i
      else if n = 7 then pid_p1 i else False)"
proof -
  let ?x = "i AND LIN_MAX_ID"
  have one: "bit (w AND 0x01) m \<longleftrightarrow> m = 0 \<and> bit w 0" for w :: u8 and m
    by (auto simp: bit_and_iff bit_1_iff)
  have drop: "bit (drop_bit k ?x) 0 \<longleftrightarrow> k < 6 \<and> bit i k" for k
    by (simp only: bit_drop_bit_eq comp_def add_0_right bit_and_max_id)
  have "bit (protect_id i) n \<longleftrightarrow> (n < 6 \<and> bit i n) \<or> (n = 6 \<and> pid_p0 i) \<or> (n = 7 \<and> pid_p1 i)"
    unfolding protect_id_def Let_def bit_or_iff bit_push_bit_iff one bit_not_iff bit_xor_iff drop
      bit_and_max_id pid_p0_def pid_p1_def
    by auto
  then show ?thesis by auto
qed

lemma protect_id_low [simp]: "protect_id i AND LIN_MAX_ID = i AND LIN_MAX_ID"
  by (rule bit_word_eqI) (auto simp: bit_protect_id)

lemma and_max_id_id: "i AND LIN_MAX_ID = i \<longleftrightarrow> i \<le> LIN_MAX_ID"
proof -
  have "i AND LIN_MAX_ID = take_bit 6 i"
    by (rule bit_word_eqI) (auto simp: bit_take_bit_iff)
  moreover have "take_bit 6 i = i \<longleftrightarrow> i < 2 ^ 6"
    by (simp add: word_unat_eq_iff word_less_nat_alt unsigned_take_bit_eq
        take_bit_nat_eq_self_iff)
  moreover have "i < 2 ^ 6 \<longleftrightarrow> i \<le> LIN_MAX_ID"
    by (auto simp: LIN_MAX_ID_def word_less_nat_alt word_le_nat_alt)
  ultimately show ?thesis by simp
qed

lemma protect_id_masked [simp]: "protect_id (i AND LIN_MAX_ID) = protect_id i"
  by (rule bit_word_eqI) (auto simp: bit_protect_id pid_p0_def pid_p1_def)

lemma verify_pid_protect_id: "verify_pid (protect_id i) = Inr (i AND LIN_MAX_ID)"
  by (simp add: verify_pid_def Let_def)

lemma verify_pid_Inr: "verify_pid pid = Inr i \<longleftrightarrow> i \<le> LIN_MAX_ID \<and> pid = protect_id i"
proof
  assume "verify_pid pid = Inr i"
  then have "protect_id (pid AND LIN_MAX_ID) = pid" "i = pid AND LIN_MAX_ID"
    by (auto simp: verify_pid_def Let_def split: if_splits)
  then show "i \<le> LIN_MAX_ID \<and> pid = protect_id i"
    by (simp add: and_max_id_id [symmetric] and.assoc)
next
  assume "i \<le> LIN_MAX_ID \<and> pid = protect_id i"
  then show "verify_pid pid = Inr i"
    by (simp add: verify_pid_protect_id and_max_id_id)
qed

lemma is_ok_verify_pid: "is_ok (verify_pid pid) \<longleftrightarrow> protect_id pid = pid"
  by (simp add: verify_pid_def Let_def)

text \<open>Every bit of an identifier enters at least one parity bit.\<close>

lemma bit_flip_bit_u8: "bit (flip_bit k (w :: u8)) n \<longleftrightarrow> (n = k \<and> n < 8) \<noteq> bit w n"
  by (auto simp: bit_flip_bit_iff dest: bit_imp_le_length)

lemma flip_bit_pid_rejected:
  assumes "k < 8" and "protect_id pid = pid"
  shows "protect_id (flip_bit k pid) \<noteq> flip_bit k pid"
proof
  assume flipped: "protect_id (flip_bit k pid) = flip_bit k pid"
  have old: "bit pid 6 = pid_p0 pid" "bit pid 7 = pid_p1 pid"
    using bit_protect_id [of pid 6] bit_protect_id [of pid 7] assms(2) by simp_all
  have new: "bit (flip_bit k pid) 6 = pid_p0 (flip_bit k pid)"
    "bit (flip_bit k pid) 7 = pid_p1 (flip_bit k pid)"
    using bit_protect_id [of "flip_bit k pid" 6] bit_protect_id [of "flip_bit k pid" 7] flipped
    by simp_all
  have "k = 0 \<or> k = 1 \<or> k = 2 \<or> k = 3 \<or> k = 4 \<or> k = 5 \<or> k = 6 \<or> k = 7"
    using assms(1) by linarith
  with old new show False
    by (elim disjE) (auto simp: pid_p0_def pid_p1_def bit_flip_bit_u8)
qed

section \<open>Checksum\<close>

definition checksum_add :: "u16 \<Rightarrow> u8 \<Rightarrow> u16" where
  "checksum_add s b = (let s = s + ucast b in if s > 0xFF then s - 0xFF else s)"

definition checksum_sum :: "u16 \<Rightarrow> bytes \<Rightarrow> u16" where
  "checksum_sum s data = foldl checksum_add s data"

definition calc_checksum :: "u8 \<Rightarrow> bytes \<Rightarrow> checksum_type \<Rightarrow> u8" where
  "calc_checksum pid data ct =
     (let s = checksum_sum (if ct = Enhanced then ucast pid else 0) data
      in 0xFF - ucast s)"

text \<open>The reference: an end-around-carry total is the residue in \<open>1 \<dots> 255\<close>, and 0 for 0.\<close>

definition carry_residue :: "nat \<Rightarrow> nat" where
  "carry_residue t = (if t = 0 then 0 else Suc ((t - 1) mod 255))"

definition byte_total :: "bytes \<Rightarrow> nat" where
  "byte_total data = sum_list (map unat data)"

definition checksum_total :: "u8 \<Rightarrow> bytes \<Rightarrow> checksum_type \<Rightarrow> nat" where
  "checksum_total pid data ct = (if ct = Enhanced then unat pid else 0) + byte_total data"

lemma byte_total_simps [simp]:
  "byte_total [] = 0"
  "byte_total (b # bs) = unat b + byte_total bs"
  "byte_total (xs @ ys) = byte_total xs + byte_total ys"
  by (simp_all add: byte_total_def)

lemma unat_u8_bound: "unat (w :: u8) \<le> 255"
proof -
  have "unat w < 2 ^ LENGTH(8)" by (rule unsigned_less)
  then show ?thesis by simp
qed

lemma unat_ucast_u16 [simp]: "unat (ucast (w :: u8) :: u16) = unat w"
  using unat_u8_bound [of w]
  by (simp add: unsigned_ucast_eq take_bit_nat_eq_self_iff)

lemma unat_checksum_add:
  assumes "unat s \<le> 255"
  shows "unat (checksum_add s b) =
    (if unat s + unat b > 255 then unat s + unat b - 255 else unat s + unat b)"
proof -
  have sum: "unat (s + ucast b) = unat s + unat b"
    using assms unat_u8_bound [of b] by (subst unat_add_lem [THEN iffD1]) simp_all
  have "unat (s + ucast b - 0xFF) = unat s + unat b - 255" if "unat s + unat b > 255"
    using that by (subst unat_sub) (simp_all add: word_le_nat_alt sum)
  with sum show ?thesis
    by (auto simp: checksum_add_def Let_def word_less_nat_alt)
qed

lemma carry_residue_bound: "carry_residue t \<le> 255"
  using mod_less_divisor [of 255 "t - 1"] by (simp add: carry_residue_def) linarith

lemma carry_residue_small: "t \<le> 255 \<Longrightarrow> carry_residue t = t"
  by (simp add: carry_residue_def)

lemma carry_residue_add:
  assumes "b \<le> 255"
  shows "carry_residue (t + b) =
    (if carry_residue t + b > 255 then carry_residue t + b - 255 else carry_residue t + b)"
proof (cases t)
  case 0
  with assms show ?thesis by (simp add: carry_residue_def)
next
  case (Suc u)
  have lt: "u mod 255 < 255" by simp
  have "(u + b) mod 255 = (u mod 255 + b) mod 255" by (simp add: mod_add_left_eq)
  also have "\<dots> = (if u mod 255 + b \<ge> 255 then u mod 255 + b - 255 else u mod 255 + b)"
  proof (cases "u mod 255 + b \<ge> 255")
    case True
    then obtain r where r: "u mod 255 + b = 255 + r" by (metis le_Suc_ex)
    with lt assms have "r < 255" by linarith
    with r show ?thesis by simp
  qed simp
  finally show ?thesis using Suc by (auto simp: carry_residue_def)
qed

lemma unat_checksum_sum:
  assumes "unat s = carry_residue t"
  shows "unat (checksum_sum s data) = carry_residue (t + byte_total data)"
  using assms
proof (induction data arbitrary: s t)
  case (Cons b data)
  have "unat (checksum_add s b) = carry_residue (t + unat b)"
    using carry_residue_bound [of t]
    by (simp add: unat_checksum_add Cons.prems carry_residue_add unat_u8_bound)
  from Cons.IH [OF this] show ?case by (simp add: checksum_sum_def add.assoc)
qed (simp add: checksum_sum_def)

lemma unat_checksum_sum_calc:
  "unat (checksum_sum (if ct = Enhanced then ucast pid else 0) data) =
     carry_residue (checksum_total pid data ct)"
proof -
  have "unat (if ct = Enhanced then ucast pid else 0 :: u16) =
      carry_residue (if ct = Enhanced then unat pid else 0)"
    by (simp add: carry_residue_small unat_u8_bound)
  from unat_checksum_sum [OF this] show ?thesis by (simp add: checksum_total_def)
qed

lemma unat_calc_checksum:
  "unat (calc_checksum pid data ct) = 255 - carry_residue (checksum_total pid data ct)"
proof -
  let ?s = "checksum_sum (if ct = Enhanced then ucast pid else 0) data"
  have "unat (ucast ?s :: u8) = carry_residue (checksum_total pid data ct)"
    using carry_residue_bound [of "checksum_total pid data ct"]
    by (simp add: unsigned_ucast_eq unat_checksum_sum_calc take_bit_nat_eq_self_iff)
  then show ?thesis
    using carry_residue_bound [of "checksum_total pid data ct"]
    by (simp add: calc_checksum_def Let_def unat_sub word_le_nat_alt)
qed

lemma carry_residue_eq:
  "carry_residue s = carry_residue t \<longleftrightarrow> (s = 0 \<longleftrightarrow> t = 0) \<and> s mod 255 = t mod 255"
proof (cases "s = 0 \<or> t = 0")
  case False
  then obtain u v where uv: "s = Suc u" "t = Suc v" by (meson not0_implies_Suc)
  have "u mod 255 = v mod 255 \<longleftrightarrow> Suc u mod 255 = Suc v mod 255"
    by (auto simp: mod_Suc)
  with uv show ?thesis by (simp add: carry_residue_def)
qed (auto simp: carry_residue_def)

section \<open>Validation\<close>

definition is_diagnostic :: "u8 \<Rightarrow> bool" where
  [lin_defs]: "is_diagnostic i \<longleftrightarrow> i = LIN_DIAG_REQUEST_ID \<or> i = LIN_DIAG_RESPONSE_ID"

definition validate_frame :: "lin_frame \<Rightarrow> error + unit" where
  "validate_frame f =
     (if fr_id f > LIN_MAX_ID then
        Inl (InvalidFrame (''frame ID 0x'' @ hex02 (fr_id f) @ '' exceeds maximum 0x''
              @ hex02 LIN_MAX_ID))
      else if fr_data f = [] then Inl (InvalidFrame ''frame data must not be empty'')
      else if length (fr_data f) > LIN_MAX_DATA_LEN then
        Inl (InvalidFrame (''frame data length '' @ dec_string (length (fr_data f))
              @ '' exceeds maximum '' @ dec_string LIN_MAX_DATA_LEN))
      else if is_diagnostic (fr_id f) \<and> fr_checksum_type f \<noteq> Classic then
        Inl (InvalidFrame (''diagnostic frame 0x'' @ hex02 (fr_id f)
              @ '' must use classic checksum''))
      else Inr ())"

lemma validate_frame_ok:
  "validate_frame f = Inr () \<longleftrightarrow>
     fr_id f \<le> LIN_MAX_ID \<and> 1 \<le> length (fr_data f) \<and> length (fr_data f) \<le> LIN_MAX_DATA_LEN \<and>
     (is_diagnostic (fr_id f) \<longrightarrow> fr_checksum_type f = Classic)"
  by (cases "fr_data f") (auto simp: validate_frame_def not_less Suc_le_eq)

lemma validate_frame_cases:
  "validate_frame f = Inr () \<or> (\<exists>reason. validate_frame f = Inl (InvalidFrame reason))"
  by (simp add: validate_frame_def)

section \<open>Properties\<close>

lemma ucast_u8_inject: "ucast (v :: u8) = (ucast w :: u16) \<longleftrightarrow> v = w"
  by (metis unat_ucast_u16 word_unat_eq_iff)

lemma checksum_total_append:
  "checksum_total pid (xs @ ys) ct = checksum_total pid xs ct + byte_total ys"
  by (simp add: checksum_total_def)

lemma calc_checksum_eq_iff:
  "calc_checksum pid xs ct = calc_checksum pid ys ct \<longleftrightarrow>
     carry_residue (checksum_total pid xs ct) = carry_residue (checksum_total pid ys ct)"
  using carry_residue_bound [of "checksum_total pid xs ct"]
    carry_residue_bound [of "checksum_total pid ys ct"]
  by (auto simp: word_unat_eq_iff unat_calc_checksum)

lemma byte_total_update:
  "i < length xs \<Longrightarrow> byte_total (xs[i := v]) + unat (xs ! i) = byte_total xs + unat v"
  by (induction xs arbitrary: i) (auto split: nat.split)

lemma mod_shift:
  fixes d v s t :: nat
  assumes "s mod 255 = t mod 255" and "s + d = t + v"
  shows "d mod 255 = v mod 255"
proof -
  have "(255 :: int) dvd int s - int t"
    using arg_cong [OF assms(1), of int] by (simp add: mod_eq_dvd_iff [symmetric] zmod_int)
  moreover have "int v - int d = int s - int t" using assms(2) by linarith
  ultimately have "int v mod 255 = int d mod 255" by (simp add: mod_eq_dvd_iff)
  then have "int (v mod 255) = int (d mod 255)" by (simp add: zmod_int)
  then show ?thesis by simp
qed

lemma residue_255: "r \<le> 255 \<Longrightarrow> c \<le> 255 \<Longrightarrow>
    (if r + c > 255 then r + c - 255 else r + c) = 255 \<longleftrightarrow> c = 255 - r \<or> r = 255 \<and> c = 255"
  for r c :: nat
  by auto

text \<open>The checksum a sender computes makes the receiver's sum \<open>0xFF\<close>.\<close>

lemma checksum_sum_own:
  "checksum_sum (if ct = Enhanced then ucast pid else 0) (data @ [calc_checksum pid data ct]) = 0xFF"
proof -
  let ?s = "checksum_sum (if ct = Enhanced then ucast pid else 0) data"
  have "unat (checksum_add ?s (calc_checksum pid data ct)) = 255"
    using carry_residue_bound [of "checksum_total pid data ct"]
    by (simp add: unat_checksum_add unat_checksum_sum_calc unat_calc_checksum)
  then have "checksum_add ?s (calc_checksum pid data ct) = 0xFF" by (simp add: word_unat_eq_iff)
  then show ?thesis by (simp add: checksum_sum_def)
qed

text \<open>
  Protected identifiers.  \<open>verify_pid\<close> accepts a byte exactly when it is the PID of
  an identifier in \<open>0x00 \<dots> 0x3F\<close> and then returns that identifier; \<open>protect_id\<close>
  ignores the two upper bits of its argument, so every one of the 256 arguments has a PID
  that verifies, and 64 of the 256 bytes are PIDs.
\<close>

theorem pid_roundtrip:
  "(verify_pid pid = Inr i \<longleftrightarrow> i \<le> LIN_MAX_ID \<and> pid = protect_id i) \<and>
   verify_pid (protect_id j) = Inr (j AND LIN_MAX_ID) \<and>
   card {p. is_ok (verify_pid p)} = 64"
proof (intro conjI)
  have "{p. is_ok (verify_pid p)} = protect_id ` {i. i \<le> LIN_MAX_ID}"
  proof (intro equalityI subsetI)
    fix p assume "p \<in> {p. is_ok (verify_pid p)}"
    then have "p = protect_id (p AND LIN_MAX_ID)" by (simp add: is_ok_verify_pid)
    moreover have "p AND LIN_MAX_ID \<le> LIN_MAX_ID"
      by (simp add: and_max_id_id [symmetric] and.assoc)
    ultimately show "p \<in> protect_id ` {i. i \<le> LIN_MAX_ID}" by blast
  next
    fix p assume "p \<in> protect_id ` {i. i \<le> LIN_MAX_ID}"
    then show "p \<in> {p. is_ok (verify_pid p)}" by (auto simp: verify_pid_protect_id)
  qed
  moreover have "inj_on protect_id {i. i \<le> LIN_MAX_ID}"
    by (rule inj_onI) (metis and_max_id_id mem_Collect_eq protect_id_low)
  moreover have "{i. i \<le> LIN_MAX_ID} = of_nat ` {..<64 :: nat}"
  proof (intro equalityI subsetI)
    fix i assume "i \<in> {i. i \<le> LIN_MAX_ID}"
    then have "unat i < 64" by (simp add: LIN_MAX_ID_def word_le_nat_alt)
    then have "of_nat (unat i) \<in> (of_nat ` {..<64 :: nat} :: u8 set)" by (rule imageI [OF lessThan_iff [THEN iffD2]])
    then show "i \<in> of_nat ` {..<64 :: nat}" by simp
  qed (auto simp: LIN_MAX_ID_def word_le_nat_alt unat_of_nat)
  moreover have "inj_on (of_nat :: nat \<Rightarrow> u8) {..<64}"
    by (rule inj_onI) (auto simp: word_unat_eq_iff unat_of_nat)
  ultimately show "card {p. is_ok (verify_pid p)} = 64"
    by (simp add: card_image)
qed (simp_all add: verify_pid_Inr verify_pid_protect_id)

text \<open>
  A single wrong bit on the wire, in the identifier or in a parity bit, is always
  detected: flipping any bit of a PID gives a byte that \<open>verify_pid\<close> rejects with the
  parity error naming that byte.
\<close>

theorem pid_single_bit_error:
  assumes "k < 8"
  shows "verify_pid (flip_bit k (protect_id i)) =
    Inl (InvalidFrame (''PID 0x'' @ hex02 (flip_bit k (protect_id i)) @ '' parity mismatch''))"
proof -
  have "protect_id (protect_id i) = protect_id i"
    using verify_pid_protect_id [of i] is_ok_verify_pid [of "protect_id i"] by simp
  with flip_bit_pid_rejected [OF assms] show ?thesis by (simp add: verify_pid_def Let_def)
qed

theorem pid_single_bit_error_witness:
  "verify_pid (flip_bit 3 (protect_id 0x10)) =
    Inl (InvalidFrame (''PID 0x'' @ hex02 (flip_bit 3 (protect_id 0x10)) @ '' parity mismatch''))"
  by (rule pid_single_bit_error) simp

text \<open>
  The checksum loop with its 16-bit accumulator and the subtraction of 255 on each
  carry computes the inverted end-around-carry sum: 255 minus the total of the bytes
  (with the PID for the enhanced model) reduced to the range 1 to 255 modulo 255, a zero
  total staying zero.  No intermediate value overflows.
\<close>

theorem calc_checksum_total:
  "unat (calc_checksum pid data ct) =
     255 - (if checksum_total pid data ct = 0 then 0
            else Suc ((checksum_total pid data ct - 1) mod 255))"
  by (simp add: unat_calc_checksum carry_residue_def)

text \<open>
  C27: The check a receiver makes: continuing the sum over the data with a checksum byte
  \<open>c\<close> gives \<open>0xFF\<close> when \<open>c\<close> is the computed checksum, and for no other byte, except that
  a checksum of \<open>0x00\<close> and \<open>0xFF\<close> cannot be told apart that way.
\<close>

theorem checksum_receiver_check:
  "checksum_sum (if ct = Enhanced then ucast pid else 0) (data @ [c]) = 0xFF \<longleftrightarrow>
     c = calc_checksum pid data ct \<or> calc_checksum pid data ct = 0 \<and> c = 0xFF"
proof -
  let ?s = "checksum_sum (if ct = Enhanced then ucast pid else 0) data"
  let ?r = "carry_residue (checksum_total pid data ct)"
  have s: "unat ?s = ?r" by (rule unat_checksum_sum_calc)
  have "unat (checksum_add ?s c) = (if ?r + unat c > 255 then ?r + unat c - 255 else ?r + unat c)"
    using carry_residue_bound [of "checksum_total pid data ct"] by (simp add: unat_checksum_add s)
  then have "checksum_add ?s c = 0xFF \<longleftrightarrow>
      (if ?r + unat c > 255 then ?r + unat c - 255 else ?r + unat c) = 255"
    by (simp add: word_unat_eq_iff)
  also have "\<dots> \<longleftrightarrow> unat c = 255 - ?r \<or> ?r = 255 \<and> unat c = 255"
    by (rule residue_255 [OF carry_residue_bound unat_u8_bound])
  also have "\<dots> \<longleftrightarrow> c = calc_checksum pid data ct \<or> calc_checksum pid data ct = 0 \<and> c = 0xFF"
    using carry_residue_bound [of "checksum_total pid data ct"]
    by (auto simp: word_unat_eq_iff unat_calc_checksum)
  finally show ?thesis by (simp add: checksum_sum_def)
qed

text \<open>
  What the checksum can tell apart: two payloads under the same PID have the same
  checksum exactly when their byte totals agree modulo 255 and are both zero or both
  non-zero (counting the PID in the enhanced model).  In particular the order of the
  bytes is not protected.
\<close>

theorem checksum_collisions:
  "(calc_checksum pid xs ct = calc_checksum pid ys ct \<longleftrightarrow>
      checksum_total pid xs ct mod 255 = checksum_total pid ys ct mod 255 \<and>
      (checksum_total pid xs ct = 0 \<longleftrightarrow> checksum_total pid ys ct = 0)) \<and>
   calc_checksum pid (rev xs) ct = calc_checksum pid xs ct"
proof
  have "byte_total (rev xs) = byte_total xs" by (simp add: byte_total_def rev_map [symmetric])
  then show "calc_checksum pid (rev xs) ct = calc_checksum pid xs ct"
    by (simp add: calc_checksum_eq_iff checksum_total_def)
qed (auto simp: calc_checksum_eq_iff carry_residue_eq)

text \<open>
  A corrupted data byte changes the checksum, whichever byte it is and whatever the
  wrong value, unless the corruption exchanges \<open>0x00\<close> and \<open>0xFF\<close>.
\<close>

theorem checksum_detects_byte:
  assumes "i < length data" and "v \<noteq> data ! i" and "(v, data ! i) \<notin> {(0, 0xFF), (0xFF, 0)}"
  shows "calc_checksum pid (data[i := v]) ct \<noteq> calc_checksum pid data ct"
proof
  assume "calc_checksum pid (data[i := v]) ct = calc_checksum pid data ct"
  then have m: "checksum_total pid (data[i := v]) ct mod 255 = checksum_total pid data ct mod 255"
    by (simp add: calc_checksum_eq_iff carry_residue_eq)
  have "checksum_total pid (data[i := v]) ct + unat (data ! i) = checksum_total pid data ct + unat v"
    using byte_total_update [OF assms(1), of v] by (simp add: checksum_total_def)
  with m have "unat (data ! i) mod 255 = unat v mod 255" by (rule mod_shift)
  with unat_u8_bound [of v] unat_u8_bound [of "data ! i"]
  have "unat (data ! i) = unat v \<or> unat (data ! i) = 0 \<and> unat v = 255 \<or>
      unat (data ! i) = 255 \<and> unat v = 0"
    by (cases "unat v = 255"; cases "unat (data ! i) = 255") auto
  then show False using assms(2,3) by (auto simp: word_unat_eq_iff)
qed

theorem checksum_detects_byte_witness:
  "calc_checksum 0x50 ([0x10, 0x20, 0x30][1 := 0x21]) Enhanced \<noteq>
     calc_checksum 0x50 [0x10, 0x20, 0x30] Enhanced"
  by (rule checksum_detects_byte) auto

end
