(* ===== verification/Lin_Bus.thy ===== *)
theory Lin_Bus
  imports Lin_Frame "HOL-Library.Sublist"
begin

text \<open>
  \<open>src/bus.rs\<close>: the subscriber queue \<open>SubInner\<close> with its rate limiter and
  back-pressure policies, one polling of \<open>FrameReceiver::recv\<close>, and the \<open>Bus\<close> and
  \<open>MasterBus\<close> traits as locales.  The trait locales state what every
  implementation promises its clients; the virtual and the mock bus interpret them.

  The \<open>tokio\<close> notification object is external: the model records the calls made on
  it, oldest first, and nothing else.  Cells are shared (\<open>Arc\<close>) between a bus and its
  receivers, so they live in a heap and are named by their index.
\<close>

section \<open>SubInner\<close>

datatype notify_call = NotifyOne | NotifyWaiters

record rate_state =
  window_start :: instant
  rate_count :: u32

record sub_inner =
  queue :: "lin_frame list"
  capacity :: usize
  policy :: back_pressure_policy
  notify :: "notify_call list"
  sub_closed :: bool
  rate_limit :: u32
  rate_state :: rate_state

definition sub_inner_new ::
    "usize \<Rightarrow> back_pressure_policy \<Rightarrow> u32 \<Rightarrow> instant \<Rightarrow> sub_inner" where
  "sub_inner_new cap pol limit now =
     \<lparr>queue = [], capacity = cap, policy = pol, notify = [], sub_closed = False,
      rate_limit = limit, rate_state = \<lparr>window_start = now, rate_count = 0\<rparr>\<rparr>"

definition as_secs :: "nat \<Rightarrow> nat" where
  "as_secs d = d div 1000000000"

text \<open>The rate limiter: the first half of \<open>SubInner::push\<close>.\<close>

definition rate_admit :: "instant \<Rightarrow> sub_inner \<Rightarrow> bool \<times> sub_inner" where
  "rate_admit now s =
     (if rate_limit s > 0 then
        let rs = rate_state s;
            rs = (if as_secs (now - window_start rs) \<ge> 1
                  then \<lparr>window_start = now, rate_count = 0\<rparr> else rs)
        in if rate_count rs \<ge> rate_limit s then (False, s\<lparr>rate_state := rs\<rparr>)
           else (True, s\<lparr>rate_state := rs\<lparr>rate_count := rate_count rs + 1\<rparr>\<rparr>)
      else (True, s))"

text \<open>The back-pressure policy: the second half.  \<open>pop_front\<close> of an empty queue is no change.\<close>

definition enqueue :: "lin_frame \<Rightarrow> sub_inner \<Rightarrow> bool \<times> sub_inner" where
  "enqueue f s =
     (case policy s of
        DropNewest \<Rightarrow>
          if length (queue s) \<ge> unat (capacity s) then (False, s)
          else (True, s\<lparr>queue := queue s @ [f], notify := notify s @ [NotifyOne]\<rparr>)
      | DropOldest \<Rightarrow>
          let q = (if length (queue s) \<ge> unat (capacity s) then tl (queue s) else queue s)
          in (True, s\<lparr>queue := q @ [f], notify := notify s @ [NotifyOne]\<rparr>)
      | Block \<Rightarrow> (True, s\<lparr>queue := queue s @ [f], notify := notify s @ [NotifyOne]\<rparr>))"

definition push :: "instant \<Rightarrow> lin_frame \<Rightarrow> sub_inner \<Rightarrow> bool \<times> sub_inner" where
  "push now f s =
     (case rate_admit now s of (ok, s1) \<Rightarrow> if ok then enqueue f s1 else (False, s1))"

definition sub_pop :: "sub_inner \<Rightarrow> lin_frame option \<times> sub_inner" where
  "sub_pop s = (case queue s of [] \<Rightarrow> (None, s) | f # q \<Rightarrow> (Some f, s\<lparr>queue := q\<rparr>))"

definition sub_is_empty :: "sub_inner \<Rightarrow> bool" where
  "sub_is_empty s \<longleftrightarrow> queue s = []"

definition sub_close :: "sub_inner \<Rightarrow> sub_inner" where
  "sub_close s = s\<lparr>sub_closed := True, notify := notify s @ [NotifyWaiters]\<rparr>"

text \<open>One turn of the loop in \<open>FrameReceiver::recv\<close>: it returns, or waits for a wake-up.\<close>

datatype 'a poll = Ready 'a | Pending

definition recv_poll :: "sub_inner \<Rightarrow> lin_frame option poll \<times> sub_inner" where
  "recv_poll s =
     (case sub_pop s of
        (Some f, s1) \<Rightarrow> (Ready (Some f), s1)
      | (None, s1) \<Rightarrow>
          if sub_closed s1 then (case sub_pop s1 of (r, s2) \<Rightarrow> (Ready r, s2))
          else (Pending, s1))"

section \<open>What a push leaves alone, and the capacity invariant\<close>

lemma rate_admit_frame [simp]:
  "queue (snd (rate_admit now s)) = queue s"
  "capacity (snd (rate_admit now s)) = capacity s"
  "policy (snd (rate_admit now s)) = policy s"
  "notify (snd (rate_admit now s)) = notify s"
  "sub_closed (snd (rate_admit now s)) = sub_closed s"
  "rate_limit (snd (rate_admit now s)) = rate_limit s"
  by (simp_all add: rate_admit_def Let_def)

lemma enqueue_frame [simp]:
  "capacity (snd (enqueue f s)) = capacity s"
  "policy (snd (enqueue f s)) = policy s"
  "sub_closed (snd (enqueue f s)) = sub_closed s"
  "rate_limit (snd (enqueue f s)) = rate_limit s"
  "rate_state (snd (enqueue f s)) = rate_state s"
  by (simp_all add: enqueue_def Let_def split: back_pressure_policy.split)

lemma push_eq:
  "push now f s =
     (if fst (rate_admit now s) then enqueue f (snd (rate_admit now s))
      else (False, snd (rate_admit now s)))"
  by (simp add: push_def split: prod.split)

lemma push_frame [simp]:
  "capacity (snd (push now f s)) = capacity s"
  "policy (snd (push now f s)) = policy s"
  "sub_closed (snd (push now f s)) = sub_closed s"
  "rate_limit (snd (push now f s)) = rate_limit s"
  by (simp_all add: push_eq)

lemma push_rate_state: "rate_state (snd (push now f s)) = rate_state (snd (rate_admit now s))"
  by (simp add: push_eq)

lemma push_unlimited: "rate_limit s = 0 \<Longrightarrow> push now f s = enqueue f s"
  by (simp add: push_def rate_admit_def)

text \<open>What an accepted frame does to the queue, for each policy.\<close>

definition admitted_queue :: "lin_frame \<Rightarrow> sub_inner \<Rightarrow> lin_frame list" where
  "admitted_queue f s =
     (if policy s = DropOldest \<and> unat (capacity s) \<le> length (queue s)
      then tl (queue s) else queue s) @ [f]"

lemma enqueue_queue:
  "queue (snd (enqueue f s)) = (if fst (enqueue f s) then admitted_queue f s else queue s)"
  by (simp add: enqueue_def admitted_queue_def Let_def split: back_pressure_policy.split)

lemma push_queue:
  "queue (snd (push now f s)) = (if fst (push now f s) then admitted_queue f s else queue s)"
  by (simp add: push_eq enqueue_queue admitted_queue_def)

lemma push_accepts:
  "fst (push now f s) \<longleftrightarrow>
     fst (rate_admit now s) \<and>
     (policy s = DropNewest \<longrightarrow> length (queue s) < unat (capacity s))"
  by (simp add: push_eq enqueue_def Let_def split: back_pressure_policy.split)

definition sub_ok :: "sub_inner \<Rightarrow> bool" where
  "sub_ok s \<longleftrightarrow> 0 < unat (capacity s) \<and>
     (policy s \<noteq> Block \<longrightarrow> length (queue s) \<le> unat (capacity s)) \<and>
     rate_count (rate_state s) \<le> rate_limit s"

lemma sub_ok_new [lin_inv]: "0 < cap \<Longrightarrow> sub_ok (sub_inner_new cap pol limit now)"
  by (simp add: sub_ok_def sub_inner_new_def word_less_nat_alt)

lemma rate_admit_count:
  assumes "rate_count (rate_state s) \<le> rate_limit s"
  shows "rate_count (rate_state (snd (rate_admit now s))) \<le> rate_limit s"
  using assms inc_le [of 0 "rate_limit s"]
  by (auto simp: rate_admit_def Let_def not_le intro: inc_le)

lemma push_sub_ok [lin_inv]:
  assumes "sub_ok s"
  shows "sub_ok (snd (push now f s))"
proof -
  have "policy s \<noteq> Block \<longrightarrow> length (queue (snd (push now f s))) \<le> unat (capacity s)"
    using assms
    by (cases "policy s") (auto simp: push_queue admitted_queue_def push_accepts sub_ok_def)
  with assms rate_admit_count [of s now] show ?thesis
    by (simp add: sub_ok_def push_rate_state)
qed

lemma pop_frame [simp]:
  "capacity (snd (sub_pop s)) = capacity s"
  "policy (snd (sub_pop s)) = policy s"
  "sub_closed (snd (sub_pop s)) = sub_closed s"
  "rate_limit (snd (sub_pop s)) = rate_limit s"
  "rate_state (snd (sub_pop s)) = rate_state s"
  "queue (snd (sub_pop s)) = tl (queue s)"
  by (simp_all add: sub_pop_def split: list.split)

lemma pop_sub_ok [lin_inv]: "sub_ok s \<Longrightarrow> sub_ok (snd (sub_pop s))"
  by (auto simp: sub_ok_def)

lemma close_sub_ok [lin_inv]: "sub_ok s \<Longrightarrow> sub_ok (sub_close s)"
  by (simp add: sub_close_def sub_ok_def)

lemma recv_poll_eq:
  "recv_poll s =
     (case queue s of
        f # q \<Rightarrow> (Ready (Some f), s\<lparr>queue := q\<rparr>)
      | [] \<Rightarrow> (if sub_closed s then Ready None else Pending, s))"
  by (simp add: recv_poll_def sub_pop_def split: list.split)

lemma recv_poll_sub_ok [lin_inv]: "sub_ok s \<Longrightarrow> sub_ok (snd (recv_poll s))"
  by (auto simp: recv_poll_eq sub_ok_def split: list.split)

section \<open>Runs of pushes\<close>

text \<open>Pushes at given clock readings; the first component lists which were accepted.\<close>

fun push_all :: "(instant \<times> lin_frame) list \<Rightarrow> sub_inner \<Rightarrow> bool list \<times> sub_inner" where
  "push_all [] s = ([], s)"
| "push_all ((now, f) # ps) s =
     (case push now f s of (ok, s1) \<Rightarrow>
        (case push_all ps s1 of (oks, s2) \<Rightarrow> (ok # oks, s2)))"

lemma push_all_Cons:
  "fst (push_all ((now, f) # ps) s) =
     fst (push now f s) # fst (push_all ps (snd (push now f s)))"
  "snd (push_all ((now, f) # ps) s) = snd (push_all ps (snd (push now f s)))"
  by (simp_all split: prod.split)

declare push_all.simps(2) [simp del]
declare push_all_Cons [simp]

text \<open>What each policy keeps of a run, as a function of the queue and the arrivals.\<close>

fun keep :: "back_pressure_policy \<Rightarrow> nat \<Rightarrow> 'a list \<Rightarrow> 'a list \<Rightarrow> 'a list" where
  "keep DropNewest cap q fs = q @ take (cap - length q) fs"
| "keep DropOldest cap q fs = drop (length q + length fs - cap) (q @ fs)"
| "keep Block cap q fs = q @ fs"

lemma keep_step:
  assumes "0 < cap" and "p \<noteq> Block \<Longrightarrow> length q \<le> cap"
  shows "keep p cap (keep p cap q [f]) fs = keep p cap q (f # fs)"
proof (cases p)
  case DropNewest
  with assms show ?thesis by (cases "length q = cap") (auto simp: take_Cons' Suc_diff_le)
next
  case DropOldest
  show ?thesis
  proof (cases "length q = cap")
    case True
    with assms obtain a q' where "q = a # q'" by (cases q) auto
    with True DropOldest show ?thesis by auto
  qed (use assms DropOldest in auto)
qed simp

lemma enqueue_keep:
  assumes "sub_ok s"
  shows "queue (snd (enqueue f s)) = keep (policy s) (unat (capacity s)) (queue s) [f]"
proof (cases "policy s")
  case DropOldest
  with assms show ?thesis by (cases "queue s") (auto simp: enqueue_def Let_def sub_ok_def)
qed (use assms in \<open>auto simp: enqueue_def sub_ok_def\<close>)

lemma push_all_keep:
  assumes "sub_ok s" and "rate_limit s = 0"
  shows "queue (snd (push_all ps s)) =
    keep (policy s) (unat (capacity s)) (queue s) (map snd ps)"
  using assms
proof (induction ps arbitrary: s)
  case Nil
  then show ?case by (cases "policy s") (auto simp: sub_ok_def)
next
  case (Cons p ps)
  obtain now f where p: "p = (now, f)" by (cases p)
  let ?s1 = "snd (push now f s)"
  have "queue (snd (push_all (p # ps) s)) =
      keep (policy s) (unat (capacity s)) (queue ?s1) (map snd ps)"
    using Cons.IH [of ?s1] Cons.prems by (simp add: p push_sub_ok)
  also have "queue ?s1 = keep (policy s) (unat (capacity s)) (queue s) [f]"
    using Cons.prems by (simp add: push_unlimited enqueue_keep)
  finally show ?case
    using keep_step [of "unat (capacity s)" "policy s" "queue s" f "map snd ps"] Cons.prems
    by (simp add: p sub_ok_def)
qed

section \<open>The rate limiter over time\<close>

abbreviation one_second :: nat where "one_second \<equiv> 1000000000"

definition accepted :: "bool list \<Rightarrow> nat" where
  "accepted oks = length (filter (\<lambda>ok. ok) oks)"

lemma accepted_simps [simp]:
  "accepted [] = 0"
  "accepted (ok # oks) = (if ok then Suc (accepted oks) else accepted oks)"
  by (simp_all add: accepted_def)

lemma window_open: "as_secs d = 0 \<longleftrightarrow> d < one_second"
  by (auto simp: as_secs_def)

text \<open>One admission, by cases of the window.\<close>

lemma rate_admit_cases:
  fixes now :: instant and s :: sub_inner
  assumes "0 < rate_limit s" and "rate_count (rate_state s) \<le> rate_limit s"
  defines "t \<equiv> snd (rate_admit now s)"
  shows "rate_limit t = rate_limit s"
    and "one_second \<le> now - window_start (rate_state s) \<Longrightarrow>
           fst (rate_admit now s) \<and> window_start (rate_state t) = now \<and>
           unat (rate_count (rate_state t)) = 1"
    and "now - window_start (rate_state s) < one_second \<Longrightarrow>
           window_start (rate_state t) = window_start (rate_state s) \<and>
           unat (rate_count (rate_state t)) =
             (if fst (rate_admit now s) then Suc (unat (rate_count (rate_state s)))
              else unat (rate_count (rate_state s)))"
proof -
  show "rate_limit t = rate_limit s" by (simp add: t_def)
next
  assume "one_second \<le> now - window_start (rate_state s)"
  then show "fst (rate_admit now s) \<and> window_start (rate_state t) = now \<and>
      unat (rate_count (rate_state t)) = 1"
    using assms(1) by (simp add: t_def rate_admit_def Let_def window_open not_le)
next
  assume "now - window_start (rate_state s) < one_second"
  then have old: "as_secs (now - window_start (rate_state s)) = 0"
    by (simp only: window_open)
  have "unat (w + 1) = Suc (unat w)" if "w < rate_limit s" for w :: u32
  proof -
    have "Suc (unat w) \<le> unat (rate_limit s)" using that by (simp add: word_less_nat_alt)
    also have "\<dots> < 2 ^ LENGTH(32)" by (rule unsigned_less)
    finally show ?thesis using unat_add_lem [of w 1] by simp
  qed
  with old assms(1,2) show "window_start (rate_state t) = window_start (rate_state s) \<and>
      unat (rate_count (rate_state t)) =
        (if fst (rate_admit now s) then Suc (unat (rate_count (rate_state s)))
         else unat (rate_count (rate_state s)))"
    by (simp add: t_def rate_admit_def Let_def not_le)
qed

lemma push_fst_admit: "fst (push now f s) \<Longrightarrow> fst (rate_admit now s)"
  by (simp add: push_accepts)

text \<open>Within one window no more than the limit is accepted.\<close>

lemma accepted_one_window:
  assumes "0 < rate_limit s" and "sub_ok s"
    and "\<forall>p \<in> set ps. fst p - window_start (rate_state s) < one_second"
  shows "accepted (fst (push_all ps s)) + unat (rate_count (rate_state s)) \<le> unat (rate_limit s)"
  using assms
proof (induction ps arbitrary: s)
  case Nil
  then show ?case by (simp add: sub_ok_def word_le_nat_alt)
next
  case (Cons p ps)
  obtain now f where p: "p = (now, f)" by (cases p)
  let ?s1 = "snd (push now f s)"
  have cnt: "rate_count (rate_state s) \<le> rate_limit s"
    using Cons.prems(2) by (simp add: sub_ok_def)
  have step: "window_start (rate_state ?s1) = window_start (rate_state s)"
    "unat (rate_count (rate_state ?s1)) =
       (if fst (rate_admit now s) then Suc (unat (rate_count (rate_state s)))
        else unat (rate_count (rate_state s)))"
    using rate_admit_cases(3) [OF Cons.prems(1) cnt, of now] Cons.prems(3)
    by (simp_all add: p push_rate_state)
  have "accepted (fst (push_all ps ?s1)) + unat (rate_count (rate_state ?s1)) \<le> unat (rate_limit s)"
    using Cons.IH [of ?s1] Cons.prems step(1) by (simp add: push_sub_ok)
  then show ?case
    using push_fst_admit [of now f s] step(2) by (auto simp: p split: if_splits)
qed

lemma accepted_one_second:
  assumes "0 < rate_limit s" and "sub_ok s"
    and "sorted (map fst ps)" and "\<forall>p \<in> set ps. a \<le> fst p \<and> fst p < a + one_second"
  shows "accepted (fst (push_all ps s)) + unat (rate_count (rate_state s)) \<le>
    2 * unat (rate_limit s)"
  using assms
proof (induction ps arbitrary: s)
  case Nil
  then show ?case by (auto simp: sub_ok_def word_le_nat_alt)
next
  case (Cons p ps)
  obtain now f where p: "p = (now, f)" by (cases p)
  let ?s1 = "snd (push now f s)"
  have cnt: "rate_count (rate_state s) \<le> rate_limit s"
    using Cons.prems(2) by (simp add: sub_ok_def)
  have ok1: "sub_ok ?s1" using Cons.prems(2) by (rule push_sub_ok)
  show ?case
  proof (cases "one_second \<le> now - window_start (rate_state s)")
    case True
    note reset = rate_admit_cases(2) [OF Cons.prems(1) cnt True]
    have "\<forall>q \<in> set ps. fst q - window_start (rate_state ?s1) < one_second"
      using Cons.prems(4) reset by (auto simp: p push_rate_state)
    from accepted_one_window [OF _ ok1 this] Cons.prems(1)
    have "accepted (fst (push_all ps ?s1)) + 1 \<le> unat (rate_limit s)"
      using reset by (simp add: push_rate_state)
    then show ?thesis using cnt by (auto simp: p word_le_nat_alt)
  next
    case False
    note step = rate_admit_cases(3) [OF Cons.prems(1) cnt, of now]
    have "accepted (fst (push_all ps ?s1)) + unat (rate_count (rate_state ?s1)) \<le>
        2 * unat (rate_limit s)"
      using Cons.IH [of ?s1] Cons.prems ok1 by (simp add: p)
    then show ?thesis
      using False step push_fst_admit [of now f s]
      by (auto simp: p push_rate_state split: if_splits)
  qed
qed

section \<open>The heap of shared cells\<close>

definition heap_push ::
    "instant \<Rightarrow> lin_frame \<Rightarrow> nat \<Rightarrow> sub_inner list \<Rightarrow> bool \<times> sub_inner list" where
  "heap_push now f r h = (case push now f (h ! r) of (ok, s) \<Rightarrow> (ok, h[r := s]))"

lemma heap_push_simps [simp]:
  "fst (heap_push now f r h) = fst (push now f (h ! r))"
  "snd (heap_push now f r h) = h[r := snd (push now f (h ! r))]"
  by (simp_all add: heap_push_def split: prod.split)

section \<open>Checking the identifiers of a schedule table\<close>

text \<open>The validation loop shared by \<open>VirtualBus::set_schedule\<close> and \<open>MasterNode::set_schedule\<close>.\<close>

fun check_entries :: "schedule_entry list \<Rightarrow> error + unit" where
  "check_entries [] = Inr ()"
| "check_entries (e # es) =
     (if se_id e > LIN_MAX_ID then
        Inl (InvalidFrame (''schedule entry ID 0x'' @ hex02 (se_id e) @ '' exceeds maximum 0x''
              @ hex02 LIN_MAX_ID))
      else check_entries es)"

lemma hex02_max_id: "hex02 LIN_MAX_ID = ''3F''"
  by (simp add: hex02_def LIN_MAX_ID_def digit_char_def char_of_def bit_iff_odd)

lemma check_entries_ok: "check_entries es = Inr () \<longleftrightarrow> (\<forall>e \<in> set es. se_id e \<le> LIN_MAX_ID)"
  by (induction es) (auto simp: not_less)

lemma check_entries_cases:
  "check_entries es = Inr () \<or> (\<exists>m. check_entries es = Inl (InvalidFrame m))"
  by (induction es) auto

section \<open>The \<open>Bus\<close> and \<open>MasterBus\<close> traits\<close>

text \<open>
  The contract of the traits.  \<open>responses s i\<close> is the payload registered for
  identifier \<open>i\<close>; \<open>bus_closed\<close> is the closed flag; \<open>bus_inv\<close> the implementation's
  invariant.  A publication succeeds exactly on an open bus with a payload of at most
  eight bytes, and then replaces the registration; nothing else touches it.
\<close>

locale lin_bus =
  fixes publish :: "u8 \<Rightarrow> bytes option \<Rightarrow> 's \<Rightarrow> (error + unit) \<times> 's"
    and close_bus :: "'s \<Rightarrow> (error + unit) \<times> 's"
    and responses :: "'s \<Rightarrow> u8 \<rightharpoonup> bytes"
    and bus_closed :: "'s \<Rightarrow> bool"
    and bus_inv :: "'s \<Rightarrow> bool"
  assumes publish_inv: "bus_inv s \<Longrightarrow> bus_inv (snd (publish i d s))"
    and publish_closed: "bus_closed (snd (publish i d s)) = bus_closed s"
    and publish_result: "bus_inv s \<Longrightarrow> i \<le> LIN_MAX_ID \<Longrightarrow>
          fst (publish i d s) =
            (if bus_closed s then Inl Closed
             else if \<exists>b. d = Some b \<and> length b > LIN_MAX_DATA_LEN then Inl PayloadTooLarge
             else Inr ())"
    and publish_responses: "responses (snd (publish i d s)) =
          (if fst (publish i d s) = Inr () then (responses s)(i := d) else responses s)"
    and close_inv: "bus_inv s \<Longrightarrow> bus_inv (snd (close_bus s))"
    and close_result: "fst (close_bus s) = Inr ()"
    and close_closed: "bus_closed (snd (close_bus s))"

locale lin_master_bus = lin_bus +
  fixes send_header :: "(nat \<Rightarrow> instant) \<Rightarrow> context_t \<Rightarrow> u8 \<Rightarrow> 's \<Rightarrow> (error + lin_frame) \<times> 's"
    and set_schedule :: "schedule_entry list \<Rightarrow> 's \<Rightarrow> (error + unit) \<times> 's"
  assumes send_inv: "bus_inv s \<Longrightarrow> bus_inv (snd (send_header clk ctx i s))"
    and send_responses: "responses (snd (send_header clk ctx i s)) = responses s"
    and send_closed: "bus_closed (snd (send_header clk ctx i s)) = bus_closed s"
    and send_on_closed: "bus_closed s \<Longrightarrow> fst (send_header clk ctx i s) = Inl Closed"
    and send_no_response: "\<not> bus_closed s \<Longrightarrow> i \<le> LIN_MAX_ID \<Longrightarrow> responses s i = None \<Longrightarrow>
          fst (send_header clk ctx i s) = Inl NoResponse"
    and send_frame: "fst (send_header clk ctx i s) = Inr f \<Longrightarrow>
          i \<le> LIN_MAX_ID \<and> responses s i = Some (fr_data f) \<and> fr_id f = i \<and>
          fr_checksum f = calc_checksum (protect_id i) (fr_data f) (fr_checksum_type f)"
    and schedule_inv: "bus_inv s \<Longrightarrow> bus_inv (snd (set_schedule es s))"
    and schedule_responses: "responses (snd (set_schedule es s)) = responses s"
    and schedule_closed: "bus_closed (snd (set_schedule es s)) = bus_closed s"

section \<open>One cell under any interleaving of its two sides\<close>

text \<open>
  Pushes by the bus, turns of \<open>recv\<close> by the receiver and closing, in any order.  The
  result lists the frames \<open>push\<close> accepted and those \<open>recv\<close> returned.
\<close>

datatype cell_op = PushFrame instant lin_frame | PollFrame | CloseCell

fun run_cell :: "cell_op list \<Rightarrow> sub_inner \<Rightarrow> lin_frame list \<times> lin_frame list \<times> sub_inner" where
  "run_cell [] s = ([], [], s)"
| "run_cell (PushFrame now f # ops) s =
     (case push now f s of (ok, s1) \<Rightarrow>
        (case run_cell ops s1 of (a, r, s2) \<Rightarrow> (if ok then f # a else a, r, s2)))"
| "run_cell (PollFrame # ops) s =
     (case recv_poll s of (p, s1) \<Rightarrow>
        (case run_cell ops s1 of (a, r, s2) \<Rightarrow>
           (a, (case p of Ready (Some f) \<Rightarrow> f # r | _ \<Rightarrow> r), s2)))"
| "run_cell (CloseCell # ops) s = run_cell ops (sub_close s)"

lemma sub_close_frame [simp]:
  "queue (sub_close s) = queue s" "policy (sub_close s) = policy s"
  "capacity (sub_close s) = capacity s" "rate_limit (sub_close s) = rate_limit s"
  "rate_state (sub_close s) = rate_state s" "sub_closed (sub_close s)"
  by (simp_all add: sub_close_def)

lemma subseq_admitted: "subseq (admitted_queue f s @ xs) (queue s @ f # xs)"
proof -
  have "subseq (tl q) q" for q :: "lin_frame list" by (cases q) auto
  then have "subseq (tl q @ f # xs) (q @ f # xs)" for q
    by (intro list_emb_append_mono) auto
  then show ?thesis by (auto simp: admitted_queue_def)
qed

lemma run_cell_subseq:
  "run_cell ops s = (a, r, t) \<Longrightarrow> subseq (r @ queue t) (queue s @ a)"
proof (induction ops s arbitrary: a r t rule: run_cell.induct)
  case (2 now f ops s)
  obtain ok s1 a' r' where step: "push now f s = (ok, s1)" "run_cell ops s1 = (a', r', t)"
    "a = (if ok then f # a' else a')" "r = r'"
    using "2.prems" by (auto split: prod.splits)
  from "2.IH" [OF step(1) [symmetric] step(2)]
  have IH: "subseq (r @ queue t) (queue s1 @ a')" by (simp add: step(4))
  have "queue s1 = (if ok then admitted_queue f s else queue s)"
    using push_queue [of now f s] step(1) by simp
  with IH step(3) subseq_admitted [of f s a'] show ?case
    by (auto intro: subseq_order.trans split: if_splits)
next
  case (3 ops s)
  obtain p s1 a' r' where step: "recv_poll s = (p, s1)" "run_cell ops s1 = (a', r', t)"
    "a = a'" "r = (case p of Ready (Some f) \<Rightarrow> f # r' | _ \<Rightarrow> r')"
    using "3.prems" by (auto split: prod.splits)
  from "3.IH" [OF step(1) [symmetric] step(2)] step
  show ?case by (auto simp: recv_poll_eq split: list.splits if_splits)
qed auto

lemma run_cell_fifo:
  "run_cell ops s = (a, r, t) \<Longrightarrow> policy s \<noteq> DropOldest \<Longrightarrow> r @ queue t = queue s @ a"
proof (induction ops s arbitrary: a r t rule: run_cell.induct)
  case (2 now f ops s)
  obtain ok s1 a' r' where step: "push now f s = (ok, s1)" "run_cell ops s1 = (a', r', t)"
    "a = (if ok then f # a' else a')" "r = r'"
    using "2.prems" by (auto split: prod.splits)
  have s1: "queue s1 = (if ok then queue s @ [f] else queue s)" "policy s1 = policy s"
    using push_queue [of now f s] push_frame(2) [of now f s] step(1) "2.prems"(2)
    by (simp_all add: admitted_queue_def)
  from "2.IH" [OF step(1) [symmetric] step(2)] step s1 "2.prems"(2)
  show ?case by simp
next
  case (3 ops s)
  obtain p s1 a' r' where step: "recv_poll s = (p, s1)" "run_cell ops s1 = (a', r', t)"
    "a = a'" "r = (case p of Ready (Some f) \<Rightarrow> f # r' | _ \<Rightarrow> r')"
    using "3.prems" by (auto split: prod.splits)
  have s1: "queue s = (case p of Ready (Some f) \<Rightarrow> f # queue s1 | _ \<Rightarrow> queue s1)"
    "policy s1 = policy s"
    using step(1) by (auto simp: recv_poll_eq split: list.splits if_splits)
  have "r' @ queue t = queue s1 @ a'"
    using "3.IH" [OF step(1) [symmetric] step(2)] s1(2) "3.prems"(2) by simp
  with s1(1) step(3,4) show ?case by (simp split: poll.split option.split)
qed auto

section \<open>A burst across a window boundary\<close>

lemma push_all_append:
  "fst (push_all (ps @ qs) s) = fst (push_all ps s) @ fst (push_all qs (snd (push_all ps s)))"
  by (induction ps arbitrary: s) auto

lemma accepted_append: "accepted (xs @ ys) = accepted xs + accepted ys"
  by (simp add: accepted_def)

text \<open>With the \<open>Block\<close> policy only the rate limiter refuses frames.\<close>

lemma push_all_admitted:
  assumes "policy s = Block" and "0 < rate_limit s"
    and "rate_count (rate_state s) \<le> rate_limit s"
    and "now - window_start (rate_state s) < one_second"
    and "unat (rate_count (rate_state s)) + n \<le> unat (rate_limit s)"
  shows "accepted (fst (push_all (replicate n (now, f)) s)) = n \<and>
    policy (snd (push_all (replicate n (now, f)) s)) = Block \<and>
    rate_limit (snd (push_all (replicate n (now, f)) s)) = rate_limit s \<and>
    rate_count (rate_state (snd (push_all (replicate n (now, f)) s))) \<le> rate_limit s \<and>
    window_start (rate_state (snd (push_all (replicate n (now, f)) s))) =
      window_start (rate_state s)"
  using assms
proof (induction n arbitrary: s)
  case (Suc n)
  let ?s1 = "snd (push now f s)"
  have "rate_count (rate_state s) < rate_limit s"
    using Suc.prems(5) by (simp add: word_less_nat_alt)
  with Suc.prems(4) have adm: "fst (rate_admit now s)"
    by (auto simp: rate_admit_def Let_def window_open)
  have ok: "fst (push now f s)" using adm Suc.prems(1) by (simp add: push_accepts)
  note step = rate_admit_cases(3) [OF Suc.prems(2,3,4)]
  have "rate_count (rate_state ?s1) \<le> rate_limit ?s1"
    using rate_admit_count [OF Suc.prems(3)] by (simp add: push_rate_state)
  with Suc.IH [of ?s1] Suc.prems step adm ok show ?case by (simp add: push_rate_state)
qed simp

section \<open>Properties\<close>

text \<open>
  C25: Order and losses at one subscriber, under any interleaving of pushes, polls and
  closing: the frames received so far followed by those still queued are, in order, the
  initial queue followed by the accepted frames, without duplication or reordering; none
  of them is missing unless the policy is \<open>DropOldest\<close>.
\<close>

theorem receiver_fifo:
  assumes "run_cell ops s = (accepted_frames, received, t)"
  shows "subseq (received @ queue t) (queue s @ accepted_frames) \<and>
    (policy s \<noteq> DropOldest \<longrightarrow> received @ queue t = queue s @ accepted_frames)"
  using run_cell_subseq [OF assms] run_cell_fifo [OF assms] by blast

definition demo_frame :: "u8 \<Rightarrow> lin_frame" where
  "demo_frame b = \<lparr>fr_id = 0x10, fr_data = [b], fr_checksum = 0, fr_checksum_type = Enhanced\<rparr>"

lemmas cell_eval = push_def rate_admit_def enqueue_def recv_poll_def sub_pop_def sub_close_def
  sub_inner_new_def as_secs_def Let_def accepted_def

theorem receiver_fifo_witness:
  "\<exists>t. run_cell [PushFrame 0 (demo_frame 1), PushFrame 5 (demo_frame 2), PollFrame,
      PushFrame 7 (demo_frame 3), CloseCell, PollFrame] (sub_inner_new 2 DropNewest 0 0) =
      ([demo_frame 1, demo_frame 2, demo_frame 3], [demo_frame 1, demo_frame 2], t) \<and>
    [demo_frame 1, demo_frame 2] @ queue t =
      [] @ [demo_frame 1, demo_frame 2, demo_frame 3]"
proof -
  let ?t = "snd (snd (run_cell [PushFrame 0 (demo_frame 1), PushFrame 5 (demo_frame 2), PollFrame,
      PushFrame 7 (demo_frame 3), CloseCell, PollFrame] (sub_inner_new 2 DropNewest 0 0)))"
  have run: "run_cell [PushFrame 0 (demo_frame 1), PushFrame 5 (demo_frame 2), PollFrame,
      PushFrame 7 (demo_frame 3), CloseCell, PollFrame] (sub_inner_new 2 DropNewest 0 0) =
      ([demo_frame 1, demo_frame 2, demo_frame 3], [demo_frame 1, demo_frame 2], ?t)"
    by (simp add: cell_eval)
  from receiver_fifo [OF this] run show ?thesis by (auto simp: sub_inner_new_def)
qed

text \<open>
  C26: What the rate limiter enforces, for any queue state and any arrivals in clock
  order: at most \<open>rate_limit\<close> frames are accepted in the current window, and at most
  twice the limit in any interval shorter than a second.
\<close>

theorem rate_limit_bound:
  assumes "sub_ok s" and "0 < rate_limit s"
    and "sorted (map fst ps)" and "\<forall>p \<in> set ps. a \<le> fst p \<and> fst p < a + one_second"
  shows "accepted (fst (push_all ps s)) \<le> 2 * unat (rate_limit s) \<and>
    ((\<forall>p \<in> set ps. fst p < window_start (rate_state s) + one_second) \<longrightarrow>
      accepted (fst (push_all ps s)) \<le> unat (rate_limit s))"
proof -
  have "\<forall>p \<in> set ps. fst p - window_start (rate_state s) < one_second"
    if "\<forall>p \<in> set ps. fst p < window_start (rate_state s) + one_second"
    using that by fastforce
  from accepted_one_window [OF assms(2,1) this] accepted_one_second [OF assms(2,1,3,4)]
  show ?thesis by linarith
qed

theorem rate_limit_bound_witness:
  "accepted (fst (push_all [(5, demo_frame 1), (6, demo_frame 2), (7, demo_frame 3)]
     (sub_inner_new 4 DropNewest 1 0))) \<le> 2 * 1"
proof -
  have ok: "sub_ok (sub_inner_new 4 DropNewest 1 0)" by (rule sub_ok_new) simp
  show ?thesis
    using rate_limit_bound [OF ok, of "[(5, demo_frame 1), (6, demo_frame 2), (7, demo_frame 3)]" 5]
    by (simp add: sub_inner_new_def)
qed

text \<open>
  The factor of two is reached: a subscriber limited to \<open>n\<close> frames per second
  accepts \<open>n\<close> frames at the end of one window and \<open>n\<close> more one nanosecond later.
\<close>

theorem rate_limit_burst:
  assumes "0 < n" and "n < 2 ^ 32"
  shows "accepted (fst (push_all
      (replicate n (t0 + 999999999, f) @ replicate n (t0 + 1000000000, f))
      (sub_inner_new cap Block (of_nat n) t0))) = 2 * n"
proof -
  let ?s = "sub_inner_new cap Block (of_nat n) t0"
  let ?t = "snd (push_all (replicate n (t0 + 999999999, f)) ?s)"
  let ?u = "snd (push (t0 + 1000000000) f ?t)"
  have lim: "unat (of_nat n :: u32) = n"
    using assms(2) by (simp add: unat_of_nat take_bit_nat_eq_self_iff)
  then have pos: "(0 :: u32) < of_nat n" using assms(1) by (simp add: word_less_nat_alt)
  have first: "accepted (fst (push_all (replicate n (t0 + 999999999, f)) ?s)) = n \<and>
      policy ?t = Block \<and> rate_limit ?t = of_nat n \<and> rate_count (rate_state ?t) \<le> of_nat n \<and>
      window_start (rate_state ?t) = t0"
    using push_all_admitted [of ?s "t0 + 999999999" n f] pos lim
    by (simp add: sub_inner_new_def)
  have lt: "0 < rate_limit ?t" "rate_count (rate_state ?t) \<le> rate_limit ?t"
    "one_second \<le> (t0 + 1000000000) - window_start (rate_state ?t)"
    using first pos by simp_all
  note reset = rate_admit_cases(2) [OF lt]
  obtain m where m: "n = Suc m" using assms(1) by (cases n) auto
  have u: "fst (push (t0 + 1000000000) f ?t)" "policy ?u = Block" "rate_limit ?u = of_nat n"
    "window_start (rate_state ?u) = t0 + 1000000000" "unat (rate_count (rate_state ?u)) = 1"
    using reset first by (simp_all add: push_accepts push_rate_state)
  then have "accepted (fst (push_all (replicate m (t0 + 1000000000, f)) ?u)) = m"
    using push_all_admitted [of ?u "t0 + 1000000000" m f] pos lim m
    by (simp add: word_le_nat_alt del: of_nat_Suc)
  then have "accepted (fst (push_all (replicate n (t0 + 1000000000, f)) ?t)) = n"
    using u(1) m by simp
  with first show ?thesis by (simp add: push_all_append accepted_append)
qed

theorem rate_limit_burst_witness:
  "accepted (fst (push_all (replicate 3 (0 + 999999999, demo_frame 1) @
     replicate 3 (0 + 1000000000, demo_frame 1)) (sub_inner_new 1 Block (of_nat 3) 0))) = 2 * 3"
  by (rule rate_limit_burst) simp_all

end
