(* ===== verification/Virtual_Bus.thy ===== *)
theory Virtual_Bus
  imports Lin_Bus
begin

text \<open>
  \<open>src/virtual_bus/mod.rs\<close>: the in-process bus.  The record \<open>virtual_bus\<close> holds the
  fields of \<open>VirtualBus\<close>, the \<open>BusInner\<close> behind its mutex, and the heap of subscriber
  cells shared with the receivers.  Each method is one function on this state that
  returns its result with the new state, errors included; the methods hold the mutex
  for the part that touches \<open>BusInner\<close>, and here run without interruption.
\<close>

section \<open>State\<close>

record slave_response =
  sr_data :: bytes
  sr_checksum_type :: checksum_type

record virtual_sub =
  vs_filters :: "lin_filter list"
  vs_cell :: nat

definition vs_matches :: "virtual_sub \<Rightarrow> lin_frame \<Rightarrow> bool" where
  "vs_matches sub f =
     (if vs_filters sub = [] then True
      else list_ex (\<lambda>flt. filter_matches flt f) (vs_filters sub))"

record bus_inner =
  bi_responses :: "u8 \<rightharpoonup> slave_response"
  bi_subs :: "virtual_sub list"
  bi_schedule :: "schedule_entry list"

definition bus_inner_new :: bus_inner where
  "bus_inner_new = \<lparr>bi_responses = Map.empty, bi_subs = [], bi_schedule = []\<rparr>"

record virtual_bus =
  vb_inner :: bus_inner
  vb_closed :: bool
  vb_write_count :: u64
  vb_deliver_count :: u64
  vb_drop_count :: u64
  vb_bytes_written :: u64
  vb_bytes_delivered :: u64
  vb_error_count :: u64
  vb_heap :: "sub_inner list"

definition virtual_bus_new :: virtual_bus where
  "virtual_bus_new =
     \<lparr>vb_inner = bus_inner_new, vb_closed = False, vb_write_count = 0, vb_deliver_count = 0,
      vb_drop_count = 0, vb_bytes_written = 0, vb_bytes_delivered = 0, vb_error_count = 0,
      vb_heap = []\<rparr>"

abbreviation vb_responses :: "virtual_bus \<Rightarrow> u8 \<rightharpoonup> slave_response" where
  "vb_responses s \<equiv> bi_responses (vb_inner s)"

abbreviation vb_subs :: "virtual_bus \<Rightarrow> virtual_sub list" where
  "vb_subs s \<equiv> bi_subs (vb_inner s)"

section \<open>Operations\<close>

text \<open>
  The broadcast loop.  \<open>clk k\<close> is the clock reading made while serving the
  \<open>k\<close>-th subscriber; the accumulators count deliveries and drops.
\<close>

fun broadcast_from :: "(nat \<Rightarrow> instant) \<Rightarrow> nat \<Rightarrow> lin_frame \<Rightarrow> virtual_sub list \<Rightarrow>
    u64 \<times> u64 \<Rightarrow> sub_inner list \<Rightarrow> (u64 \<times> u64) \<times> sub_inner list" where
  "broadcast_from clk k f [] counts h = (counts, h)"
| "broadcast_from clk k f (sub # subs) (delivered, dropped) h =
     (if vs_matches sub f then
        (case heap_push (clk k) f (vs_cell sub) h of (ok, h1) \<Rightarrow>
           if ok then broadcast_from clk (Suc k) f subs (delivered + 1, dropped) h1
           else broadcast_from clk (Suc k) f subs (delivered, dropped + 1) h1)
      else broadcast_from clk (Suc k) f subs (delivered, dropped) h)"

definition broadcast :: "(nat \<Rightarrow> instant) \<Rightarrow> lin_frame \<Rightarrow> bus_inner \<Rightarrow> sub_inner list \<Rightarrow>
    (u64 \<times> u64) \<times> sub_inner list" where
  "broadcast clk f b h = broadcast_from clk 0 f (bi_subs b) (0, 0) h"

definition gc :: "sub_inner list \<Rightarrow> bus_inner \<Rightarrow> bus_inner" where
  "gc h b = b\<lparr>bi_subs := filter (\<lambda>sub. \<not> sub_closed (h ! vs_cell sub)) (bi_subs b)\<rparr>"

definition count_error :: "virtual_bus \<Rightarrow> virtual_bus" where
  "count_error s = s\<lparr>vb_error_count := vb_error_count s + 1\<rparr>"

definition id_error :: "u8 \<Rightarrow> error" where
  "id_error i = InvalidFrame (''frame ID 0x'' @ hex02 i @ '' exceeds maximum 0x''
     @ hex02 LIN_MAX_ID)"

definition publish_with_type ::
    "u8 \<Rightarrow> bytes option \<Rightarrow> checksum_type \<Rightarrow> virtual_bus \<Rightarrow> (error + unit) \<times> virtual_bus" where
  "publish_with_type i data ct s =
     (let ct = (if i = LIN_DIAG_REQUEST_ID \<or> i = LIN_DIAG_RESPONSE_ID then Classic else ct)
      in if vb_closed s then (Inl Closed, count_error s)
         else if i > LIN_MAX_ID then (Inl (id_error i), count_error s)
         else if (case data of Some d \<Rightarrow> length d > LIN_MAX_DATA_LEN | None \<Rightarrow> False)
         then (Inl PayloadTooLarge, count_error s)
         else (let b = vb_inner s;
                   b = (case data of
                          Some d \<Rightarrow> b\<lparr>bi_responses := (bi_responses b)
                            (i \<mapsto> \<lparr>sr_data = d, sr_checksum_type = ct\<rparr>)\<rparr>
                        | None \<Rightarrow> b\<lparr>bi_responses := (bi_responses b)(i := None)\<rparr>)
               in (Inr (), s\<lparr>vb_inner := b\<rparr>)))"

definition vb_publish_classic ::
    "u8 \<Rightarrow> bytes \<Rightarrow> virtual_bus \<Rightarrow> (error + unit) \<times> virtual_bus" where
  "vb_publish_classic i data s = publish_with_type i (Some data) Classic s"

definition vb_publish ::
    "u8 \<Rightarrow> bytes option \<Rightarrow> virtual_bus \<Rightarrow> (error + unit) \<times> virtual_bus" where
  "vb_publish i data s = publish_with_type i data Enhanced s"

text \<open>The result names the receiver's cell; \<open>now\<close> is the clock when the cell is created.\<close>

definition vb_subscribe :: "lin_filter list \<Rightarrow> subscriber_options \<Rightarrow> instant \<Rightarrow>
    virtual_bus \<Rightarrow> (error + nat) \<times> virtual_bus" where
  "vb_subscribe filters opts now s =
     (if vb_closed s then (Inl Closed, s)
      else (let depth = chan_depth opts 64;
                cell = sub_inner_new depth (back_pressure opts) (rate_limit_per_sec opts) now;
                r = length (vb_heap s);
                b = vb_inner s
            in (Inr r,
                s\<lparr>vb_heap := vb_heap s @ [cell],
                  vb_inner := b\<lparr>bi_subs := bi_subs b @ [\<lparr>vs_filters = filters, vs_cell = r\<rparr>]\<rparr>\<rparr>)))"

fun close_cells :: "virtual_sub list \<Rightarrow> sub_inner list \<Rightarrow> sub_inner list" where
  "close_cells [] h = h"
| "close_cells (sub # subs) h =
     close_cells subs (h[vs_cell sub := sub_close (h ! vs_cell sub)])"

definition vb_close :: "virtual_bus \<Rightarrow> (error + unit) \<times> virtual_bus" where
  "vb_close s =
     (if vb_closed s then (Inr (), s)
      else (let b = vb_inner s
            in (Inr (), s\<lparr>vb_closed := True, vb_heap := close_cells (bi_subs b) (vb_heap s),
                          vb_inner := b\<lparr>bi_subs := []\<rparr>\<rparr>)))"

definition vb_send_header :: "(nat \<Rightarrow> instant) \<Rightarrow> context_t \<Rightarrow> u8 \<Rightarrow> virtual_bus \<Rightarrow>
    (error + lin_frame) \<times> virtual_bus" where
  "vb_send_header clk ctx i s =
     (if vb_closed s then (Inl Closed, count_error s)
      else if i > LIN_MAX_ID then (Inl (id_error i), count_error s)
      else (let s = s\<lparr>vb_inner := gc (vb_heap s) (vb_inner s)\<rparr>
            in case vb_responses s i of
                 None \<Rightarrow> (Inl NoResponse, count_error s)
               | Some resp \<Rightarrow>
                   (let pid = protect_id i;
                        checksum = calc_checksum pid (sr_data resp) (sr_checksum_type resp);
                        f = \<lparr>fr_id = i, fr_data = sr_data resp, fr_checksum = checksum,
                             fr_checksum_type = sr_checksum_type resp\<rparr>
                    in case validate_frame f of
                         Inl e \<Rightarrow> (Inl e, s)
                       | Inr _ \<Rightarrow>
                           (let payload_len = of_nat (length (fr_data f));
                                s = s\<lparr>vb_bytes_written := vb_bytes_written s + payload_len,
                                      vb_write_count := vb_write_count s + 1\<rparr>
                            in case broadcast clk f (vb_inner s) (vb_heap s) of
                                 ((delivered, dropped), h) \<Rightarrow>
                                   (Inr f,
                                    s\<lparr>vb_heap := h,
                                      vb_deliver_count := vb_deliver_count s + delivered,
                                      vb_drop_count := vb_drop_count s + dropped,
                                      vb_bytes_delivered :=
                                        vb_bytes_delivered s + payload_len * delivered\<rparr>)))))"

definition vb_set_schedule ::
    "schedule_entry list \<Rightarrow> virtual_bus \<Rightarrow> (error + unit) \<times> virtual_bus" where
  "vb_set_schedule entries s =
     (if vb_closed s then (Inl Closed, s)
      else case check_entries entries of
             Inl e \<Rightarrow> (Inl e, s)
           | Inr _ \<Rightarrow> (Inr (), s\<lparr>vb_inner := (vb_inner s)\<lparr>bi_schedule := entries\<rparr>\<rparr>))"

definition vb_health :: "virtual_bus \<Rightarrow> health" where
  "vb_health s = (if vb_closed s then health_down ''bus is closed'' else health_ok)"

definition vb_metrics :: "virtual_bus \<Rightarrow> metrics" where
  "vb_metrics s =
     \<lparr>m_write_count = vb_write_count s, m_deliver_count = vb_deliver_count s,
      m_drop_count = vb_drop_count s, m_bytes_written = vb_bytes_written s,
      m_bytes_delivered = vb_bytes_delivered s, m_error_count = vb_error_count s\<rparr>"

text \<open>The receiver's side: one turn of \<open>recv\<close>, and \<open>close\<close>, on the shared cell.\<close>

definition rx_recv :: "nat \<Rightarrow> virtual_bus \<Rightarrow> lin_frame option poll \<times> virtual_bus" where
  "rx_recv r s =
     (case recv_poll (vb_heap s ! r) of (p, c) \<Rightarrow> (p, s\<lparr>vb_heap := (vb_heap s)[r := c]\<rparr>))"

definition rx_close :: "nat \<Rightarrow> virtual_bus \<Rightarrow> virtual_bus" where
  "rx_close r s = s\<lparr>vb_heap := (vb_heap s)[r := sub_close (vb_heap s ! r)]\<rparr>"

section \<open>Publishing\<close>

lemmas publish_defs = publish_with_type_def vb_publish_def vb_publish_classic_def count_error_def

definition stored_type :: "u8 \<Rightarrow> checksum_type \<Rightarrow> checksum_type" where
  "stored_type i ct = (if is_diagnostic i then Classic else ct)"

lemma publish_with_type_result:
  "fst (publish_with_type i d ct s) =
     (if vb_closed s then Inl Closed
      else if i > LIN_MAX_ID then Inl (id_error i)
      else if \<exists>b. d = Some b \<and> length b > LIN_MAX_DATA_LEN then Inl PayloadTooLarge
      else Inr ())"
  by (auto simp: publish_with_type_def Let_def split: option.split)

lemma publish_with_type_state:
  "snd (publish_with_type i d ct s) =
     (if fst (publish_with_type i d ct s) = Inr () then
        s\<lparr>vb_inner := (vb_inner s)\<lparr>bi_responses := (vb_responses s)
          (i := map_option (\<lambda>b. \<lparr>sr_data = b, sr_checksum_type = stored_type i ct\<rparr>) d)\<rparr>\<rparr>
      else count_error s)"
  by (auto simp: publish_with_type_def Let_def stored_type_def is_diagnostic_def id_error_def
      split: option.split)

section \<open>The heap under broadcast and close\<close>

lemma broadcast_from_Cons:
  "broadcast_from clk k f (sub # subs) cnt h =
     (if vs_matches sub f then
        broadcast_from clk (Suc k) f subs
          (if fst (push (clk k) f (h ! vs_cell sub)) then (fst cnt + 1, snd cnt)
           else (fst cnt, snd cnt + 1))
          (h[vs_cell sub := snd (push (clk k) f (h ! vs_cell sub))])
      else broadcast_from clk (Suc k) f subs cnt h)"
  by (cases cnt) (simp add: heap_push_def split: prod.split)

declare broadcast_from.simps(2) [simp del]
declare broadcast_from_Cons [simp]

lemma broadcast_from_length [simp]:
  "length (snd (broadcast_from clk k f subs cnt h)) = length h"
  by (induction subs arbitrary: k cnt h) auto

lemma broadcast_from_forall:
  assumes "\<And>now c. P c \<Longrightarrow> P (snd (push now f c))" and "\<forall>c \<in> set h. P c"
    and "\<forall>sub \<in> set subs. vs_cell sub < length h"
  shows "\<forall>c \<in> set (snd (broadcast_from clk k f subs cnt h)). P c"
  using assms(2,3)
proof (induction subs arbitrary: k cnt h)
  case (Cons sub subs)
  have upd: "\<forall>c \<in> set (h[vs_cell sub := snd (push (clk k) f (h ! vs_cell sub))]). P c"
    using Cons.prems assms(1) set_update_subset_insert by fastforce
  show ?case
    using Cons.prems Cons.IH [OF upd] Cons.IH [of h] by simp
qed simp

lemma broadcast_from_other:
  assumes "r \<notin> vs_cell ` set (filter (\<lambda>sub. vs_matches sub f) subs)"
  shows "snd (broadcast_from clk k f subs cnt h) ! r = h ! r"
  using assms by (induction subs arbitrary: k cnt h) auto

text \<open>The cell of the \<open>j\<close>-th subscriber after a broadcast: one push if its filters match.\<close>

lemma broadcast_from_cell:
  assumes "distinct (map vs_cell subs)" and "\<forall>sub \<in> set subs. vs_cell sub < length h"
    and "j < length subs"
  shows "snd (broadcast_from clk k f subs cnt h) ! vs_cell (subs ! j) =
    (if vs_matches (subs ! j) f then snd (push (clk (k + j)) f (h ! vs_cell (subs ! j)))
     else h ! vs_cell (subs ! j))"
  using assms
proof (induction subs arbitrary: k cnt h j)
  case (Cons sub subs)
  show ?case
  proof (cases j)
    case 0
    have "snd (broadcast_from clk k' f subs cnt' h') ! vs_cell sub = h' ! vs_cell sub"
      for k' cnt' h'
      using Cons.prems(1) by (intro broadcast_from_other) auto
    with 0 Cons.prems show ?thesis by simp
  next
    case (Suc i)
    with Cons.prems have i: "i < length subs" by simp
    have "vs_cell sub \<notin> vs_cell ` set subs" using Cons.prems(1) by simp
    with i have "vs_cell (subs ! i) \<noteq> vs_cell sub" by (metis imageI nth_mem)
    with i Suc Cons.prems Cons.IH [where j = i] show ?thesis by simp
  qed
qed simp

text \<open>Every matching subscriber is counted once, as a delivery or as a drop.\<close>

lemma broadcast_from_counts:
  "\<exists>a b. a + b = length (filter (\<lambda>sub. vs_matches sub f) subs) \<and>
     fst (broadcast_from clk k f subs cnt h) = (fst cnt + of_nat a, snd cnt + of_nat b)"
proof (induction subs arbitrary: k cnt h)
  case (Cons sub subs)
  show ?case
  proof (cases "vs_matches sub f")
    case True
    let ?ok = "fst (push (clk k) f (h ! vs_cell sub))"
    let ?h1 = "h[vs_cell sub := snd (push (clk k) f (h ! vs_cell sub))]"
    let ?cnt = "if ?ok then (fst cnt + 1, snd cnt) else (fst cnt, snd cnt + 1)"
    obtain a b where ab: "a + b = length (filter (\<lambda>sub. vs_matches sub f) subs)"
      "fst (broadcast_from clk (Suc k) f subs ?cnt ?h1) = (fst ?cnt + of_nat a, snd ?cnt + of_nat b)"
      using Cons.IH by blast
    show ?thesis
    proof (cases ?ok)
      case True
      with ab \<open>vs_matches sub f\<close> show ?thesis
        by (intro exI [of _ "Suc a"] exI [of _ b]) (simp add: add.assoc)
    next
      case False
      with ab \<open>vs_matches sub f\<close> show ?thesis
        by (intro exI [of _ a] exI [of _ "Suc b"]) (simp add: add.assoc)
    qed
  qed (use Cons.IH in simp)
qed simp

lemma close_cells_length [simp]: "length (close_cells subs h) = length h"
  by (induction subs arbitrary: h) auto

lemma close_cells_nth:
  assumes "distinct (map vs_cell subs)" and "\<forall>sub \<in> set subs. vs_cell sub < length h"
    and "r < length h"
  shows "close_cells subs h ! r =
    (if r \<in> vs_cell ` set subs then sub_close (h ! r) else h ! r)"
  using assms
proof (induction subs arbitrary: h)
  case (Cons sub subs)
  then show ?case by (cases "r = vs_cell sub") auto
qed simp

section \<open>Sending a header\<close>

definition response_frame :: "u8 \<Rightarrow> slave_response \<Rightarrow> lin_frame" where
  "response_frame i r =
     \<lparr>fr_id = i, fr_data = sr_data r,
      fr_checksum = calc_checksum (protect_id i) (sr_data r) (sr_checksum_type r),
      fr_checksum_type = sr_checksum_type r\<rparr>"

lemma response_frame_sel [simp]:
  "fr_id (response_frame i r) = i" "fr_data (response_frame i r) = sr_data r"
  "fr_checksum_type (response_frame i r) = sr_checksum_type r"
  "fr_checksum (response_frame i r) =
     calc_checksum (protect_id i) (sr_data r) (sr_checksum_type r)"
  by (simp_all add: response_frame_def)

definition live_subs :: "virtual_bus \<Rightarrow> virtual_sub list" where
  "live_subs s = filter (\<lambda>sub. \<not> sub_closed (vb_heap s ! vs_cell sub)) (vb_subs s)"

text \<open>The state after a successful exchange.\<close>

definition exchanged :: "(nat \<Rightarrow> instant) \<Rightarrow> lin_frame \<Rightarrow> virtual_bus \<Rightarrow> virtual_bus" where
  "exchanged clk f s =
     (let n = of_nat (length (fr_data f));
          res = broadcast_from clk 0 f (live_subs s) (0, 0) (vb_heap s)
      in s\<lparr>vb_inner := (vb_inner s)\<lparr>bi_subs := live_subs s\<rparr>,
           vb_bytes_written := vb_bytes_written s + n,
           vb_write_count := vb_write_count s + 1,
           vb_heap := snd res,
           vb_deliver_count := vb_deliver_count s + fst (fst res),
           vb_drop_count := vb_drop_count s + snd (fst res),
           vb_bytes_delivered := vb_bytes_delivered s + n * fst (fst res)\<rparr>)"

definition collected :: "virtual_bus \<Rightarrow> virtual_bus" where
  "collected s = s\<lparr>vb_inner := (vb_inner s)\<lparr>bi_subs := live_subs s\<rparr>\<rparr>"

lemma vb_send_header_eq:
  "vb_send_header clk ctx i s =
     (if vb_closed s then (Inl Closed, count_error s)
      else if i > LIN_MAX_ID then (Inl (id_error i), count_error s)
      else case vb_responses s i of
             None \<Rightarrow> (Inl NoResponse, count_error (collected s))
           | Some r \<Rightarrow>
               (case validate_frame (response_frame i r) of
                  Inl e \<Rightarrow> (Inl e, collected s)
                | Inr _ \<Rightarrow> (Inr (response_frame i r), exchanged clk (response_frame i r) s)))"
  by (simp add: vb_send_header_def gc_def live_subs_def collected_def exchanged_def Let_def
      response_frame_def broadcast_def count_error_def split: option.split sum.split prod.split)

section \<open>Invariant and reachable states\<close>

definition response_ok :: "u8 \<Rightarrow> slave_response \<Rightarrow> bool" where
  "response_ok i r \<longleftrightarrow> i \<le> LIN_MAX_ID \<and> length (sr_data r) \<le> LIN_MAX_DATA_LEN \<and>
     (is_diagnostic i \<longrightarrow> sr_checksum_type r = Classic)"

definition vbus_inv :: "virtual_bus \<Rightarrow> bool" where
  "vbus_inv s \<longleftrightarrow>
     (\<forall>i r. vb_responses s i = Some r \<longrightarrow> response_ok i r) \<and>
     (\<forall>sub \<in> set (vb_subs s). vs_cell sub < length (vb_heap s)) \<and>
     distinct (map vs_cell (vb_subs s)) \<and>
     (\<forall>c \<in> set (vb_heap s). sub_ok c) \<and>
     (\<forall>e \<in> set (bi_schedule (vb_inner s)). se_id e \<le> LIN_MAX_ID) \<and>
     (vb_closed s \<longrightarrow> vb_subs s = [])"

lemma vbus_inv_new [lin_inv]: "vbus_inv virtual_bus_new"
  by (simp add: vbus_inv_def virtual_bus_new_def bus_inner_new_def)

lemma count_error_inv [lin_inv]: "vbus_inv s \<Longrightarrow> vbus_inv (count_error s)"
  by (simp add: vbus_inv_def count_error_def)

lemma distinct_map_filter_cells:
  "distinct (map vs_cell subs) \<Longrightarrow> distinct (map vs_cell (filter P subs))"
  by (rule distinct_map_filter)

lemma collected_inv [lin_inv]: "vbus_inv s \<Longrightarrow> vbus_inv (collected s)"
  by (auto simp: vbus_inv_def collected_def live_subs_def intro: distinct_map_filter_cells)

lemma publish_inv [lin_inv]:
  assumes "vbus_inv s"
  shows "vbus_inv (snd (publish_with_type i d ct s))"
proof (cases "fst (publish_with_type i d ct s) = Inr ()")
  case True
  then have "i \<le> LIN_MAX_ID" "\<And>b. d = Some b \<Longrightarrow> length b \<le> LIN_MAX_DATA_LEN"
    by (auto simp: publish_with_type_result not_less split: if_splits)
  with assms True show ?thesis
    by (auto simp: publish_with_type_state vbus_inv_def response_ok_def stored_type_def)
next
  case False
  with assms show ?thesis by (simp add: publish_with_type_state count_error_inv)
qed

lemma subscribe_inv [lin_inv]:
  assumes "vbus_inv s"
  shows "vbus_inv (snd (vb_subscribe filters opts now s))"
proof -
  have "sub_ok (sub_inner_new (chan_depth opts 64) (back_pressure opts)
      (rate_limit_per_sec opts) now)"
    by (intro sub_ok_new chan_depth_pos) simp
  with assms show ?thesis
    by (auto simp: vb_subscribe_def vbus_inv_def Let_def less_SucI)
qed

lemma close_cells_forall:
  assumes "\<forall>c \<in> set h. sub_ok c" and "\<forall>sub \<in> set subs. vs_cell sub < length h"
  shows "\<forall>c \<in> set (close_cells subs h). sub_ok c"
  using assms
proof (induction subs arbitrary: h)
  case (Cons sub subs)
  have "\<forall>c \<in> set (h[vs_cell sub := sub_close (h ! vs_cell sub)]). sub_ok c"
    using Cons.prems close_sub_ok set_update_subset_insert by fastforce
  with Cons show ?case by simp
qed simp

lemma close_inv [lin_inv]: "vbus_inv s \<Longrightarrow> vbus_inv (snd (vb_close s))"
  using close_cells_forall [of "vb_heap s" "vb_subs s"]
  by (auto simp: vb_close_def vbus_inv_def Let_def)

lemma exchanged_inv:
  assumes "vbus_inv s"
  shows "vbus_inv (exchanged clk f s)"
proof -
  have "\<forall>c \<in> set (snd (broadcast_from clk 0 f (live_subs s) (0, 0) (vb_heap s))). sub_ok c"
    using assms
    by (intro broadcast_from_forall) (auto simp: vbus_inv_def live_subs_def intro: push_sub_ok)
  with assms show ?thesis
    by (auto simp: vbus_inv_def exchanged_def Let_def live_subs_def intro: distinct_map_filter_cells)
qed

lemma send_header_inv [lin_inv]: "vbus_inv s \<Longrightarrow> vbus_inv (snd (vb_send_header clk ctx i s))"
  by (auto simp: vb_send_header_eq count_error_inv collected_inv exchanged_inv
      split: option.split sum.split)

lemma set_schedule_inv [lin_inv]: "vbus_inv s \<Longrightarrow> vbus_inv (snd (vb_set_schedule es s))"
  using check_entries_ok [of es]
  by (auto simp: vb_set_schedule_def vbus_inv_def split: sum.split)

lemma heap_update_inv:
  assumes "vbus_inv s" and "sub_ok c"
  shows "vbus_inv (s\<lparr>vb_heap := (vb_heap s)[r := c]\<rparr>)"
  using assms set_update_subset_insert [of "vb_heap s" r c] by (auto simp: vbus_inv_def)

lemma rx_recv_inv [lin_inv]:
  "vbus_inv s \<Longrightarrow> r < length (vb_heap s) \<Longrightarrow> vbus_inv (snd (rx_recv r s))"
  using recv_poll_sub_ok [of "vb_heap s ! r"] heap_update_inv [of s "snd (recv_poll (vb_heap s ! r))" r]
  by (auto simp: rx_recv_def vbus_inv_def split: prod.split)

lemma rx_close_inv [lin_inv]:
  "vbus_inv s \<Longrightarrow> r < length (vb_heap s) \<Longrightarrow> vbus_inv (rx_close r s)"
  unfolding rx_close_def
  by (rule heap_update_inv) (auto simp: vbus_inv_def close_sub_ok)

text \<open>One step: a complete method call, by any client, on any receiver handed out so far.\<close>

inductive vbus_step :: "virtual_bus \<Rightarrow> virtual_bus \<Rightarrow> bool" where
  step_publish: "vbus_step s (snd (publish_with_type i d ct s))"
| step_subscribe: "vbus_step s (snd (vb_subscribe filters opts now s))"
| step_close: "vbus_step s (snd (vb_close s))"
| step_send: "vbus_step s (snd (vb_send_header clk ctx i s))"
| step_schedule: "vbus_step s (snd (vb_set_schedule es s))"
| step_recv: "r < length (vb_heap s) \<Longrightarrow> vbus_step s (snd (rx_recv r s))"
| step_rx_close: "r < length (vb_heap s) \<Longrightarrow> vbus_step s (rx_close r s)"

inductive vbus_steps :: "virtual_bus \<Rightarrow> virtual_bus \<Rightarrow> bool" where
  steps_refl: "vbus_steps s s"
| steps_step: "vbus_steps s t \<Longrightarrow> vbus_step t u \<Longrightarrow> vbus_steps s u"

abbreviation vbus_reachable :: "virtual_bus \<Rightarrow> bool" where
  "vbus_reachable s \<equiv> vbus_steps virtual_bus_new s"

lemma vbus_step_inv: "vbus_step s t \<Longrightarrow> vbus_inv s \<Longrightarrow> vbus_inv t"
  by (induction rule: vbus_step.induct) (auto intro: lin_inv)

lemma vbus_steps_inv: "vbus_steps s t \<Longrightarrow> vbus_inv s \<Longrightarrow> vbus_inv t"
  by (induction rule: vbus_steps.induct) (auto intro: vbus_step_inv)

lemma vbus_reachable_inv: "vbus_reachable s \<Longrightarrow> vbus_inv s"
  using vbus_steps_inv vbus_inv_new by blast

section \<open>What an exchange does to the subscribers\<close>

lemma live_subs_inv:
  assumes "vbus_inv s"
  shows "distinct (map vs_cell (live_subs s))"
    and "\<forall>sub \<in> set (live_subs s). vs_cell sub < length (vb_heap s)"
  using assms by (auto simp: vbus_inv_def live_subs_def intro: distinct_map_filter_cells)

lemma exchanged_sel [simp]:
  "vb_closed (exchanged clk f s) = vb_closed s"
  "vb_responses (exchanged clk f s) = vb_responses s"
  "vb_subs (exchanged clk f s) = live_subs s"
  "length (vb_heap (exchanged clk f s)) = length (vb_heap s)"
  "vb_error_count (exchanged clk f s) = vb_error_count s"
  "vb_write_count (exchanged clk f s) = vb_write_count s + 1"
  "vb_bytes_written (exchanged clk f s) = vb_bytes_written s + of_nat (length (fr_data f))"
  by (simp_all add: exchanged_def Let_def)

lemma collected_sel [simp]:
  "vb_closed (collected s) = vb_closed s" "vb_responses (collected s) = vb_responses s"
  "vb_subs (collected s) = live_subs s" "vb_heap (collected s) = vb_heap s"
  "vb_error_count (collected s) = vb_error_count s"
  by (simp_all add: collected_def)

lemma count_error_sel [simp]:
  "vb_closed (count_error s) = vb_closed s" "vb_inner (count_error s) = vb_inner s"
  "vb_heap (count_error s) = vb_heap s"
  "vb_error_count (count_error s) = vb_error_count s + 1"
  by (simp_all add: count_error_def)

lemma exchanged_cell:
  assumes "vbus_inv s" and "j < length (live_subs s)"
  defines "sub \<equiv> live_subs s ! j"
  shows "vb_heap (exchanged clk f s) ! vs_cell sub =
    (if vs_matches sub f then snd (push (clk j) f (vb_heap s ! vs_cell sub))
     else vb_heap s ! vs_cell sub)"
  using broadcast_from_cell [OF live_subs_inv [OF assms(1)] assms(2), of clk 0 f "(0, 0)"]
  by (simp add: exchanged_def Let_def sub_def)

lemma exchanged_other:
  assumes "r \<notin> vs_cell ` set (live_subs s)"
  shows "vb_heap (exchanged clk f s) ! r = vb_heap s ! r"
  using assms by (auto simp: exchanged_def Let_def intro!: broadcast_from_other)

lemma exchanged_counts:
  "\<exists>a b. a + b = length (filter (\<lambda>sub. vs_matches sub f) (live_subs s)) \<and>
     vb_deliver_count (exchanged clk f s) = vb_deliver_count s + of_nat a \<and>
     vb_drop_count (exchanged clk f s) = vb_drop_count s + of_nat b \<and>
     vb_bytes_delivered (exchanged clk f s) =
       vb_bytes_delivered s + of_nat (length (fr_data f)) * of_nat a"
proof -
  obtain a b where "a + b = length (filter (\<lambda>sub. vs_matches sub f) (live_subs s))"
    "fst (broadcast_from clk 0 f (live_subs s) (0, 0) (vb_heap s)) = (of_nat a, of_nat b)"
    using broadcast_from_counts [of f "live_subs s" clk 0 "(0, 0)" "vb_heap s"] by auto
  then show ?thesis
    by (intro exI [of _ a] exI [of _ b]) (simp add: exchanged_def Let_def)
qed

lemma send_header_ok_iff:
  "fst (vb_send_header clk ctx i s) = Inr f \<longleftrightarrow>
     \<not> vb_closed s \<and> i \<le> LIN_MAX_ID \<and>
     (\<exists>r. vb_responses s i = Some r \<and> f = response_frame i r \<and> validate_frame f = Inr ())"
  by (auto simp: vb_send_header_eq not_less split: option.splits sum.splits)

lemma send_header_ok_state:
  "fst (vb_send_header clk ctx i s) = Inr f \<Longrightarrow> snd (vb_send_header clk ctx i s) = exchanged clk f s"
  by (auto simp: vb_send_header_eq split: option.splits sum.splits if_splits)

lemma validate_response_frame:
  assumes "response_ok i r"
  shows "validate_frame (response_frame i r) =
    (if sr_data r = [] then Inl (InvalidFrame ''frame data must not be empty'') else Inr ())"
  using assms by (auto simp: validate_frame_def response_ok_def not_le)

section \<open>Runs of exchanges\<close>

fun send_all :: "((nat \<Rightarrow> instant) \<times> u8) list \<Rightarrow> virtual_bus \<Rightarrow>
    (error + lin_frame) list \<times> virtual_bus" where
  "send_all [] s = ([], s)"
| "send_all ((clk, i) # hs) s =
     (case vb_send_header clk context_background i s of (r, s1) \<Rightarrow>
        (case send_all hs s1 of (rs, s2) \<Rightarrow> (r # rs, s2)))"

lemma send_all_Cons:
  "fst (send_all ((clk, i) # hs) s) =
     fst (vb_send_header clk context_background i s) #
     fst (send_all hs (snd (vb_send_header clk context_background i s)))"
  "snd (send_all ((clk, i) # hs) s) =
     snd (send_all hs (snd (vb_send_header clk context_background i s)))"
  by (simp_all split: prod.split)

declare send_all.simps(2) [simp del]
declare send_all_Cons [simp]

definition sent_frames :: "(error + lin_frame) list \<Rightarrow> lin_frame list" where
  "sent_frames rs = map projr (filter is_ok rs)"

lemma sent_frames_simps [simp]:
  "sent_frames [] = []" "sent_frames (Inl e # rs) = sent_frames rs"
  "sent_frames (Inr f # rs) = f # sent_frames rs"
  by (simp_all add: sent_frames_def)

text \<open>Frames on a bus are valid, and carry the checksum of their payload.\<close>

definition sendable :: "lin_frame \<Rightarrow> bool" where
  "sendable f \<longleftrightarrow> validate_frame f = Inr () \<and>
     fr_checksum f = calc_checksum (protect_id (fr_id f)) (fr_data f) (fr_checksum_type f)"

lemma sent_sendable: "\<forall>f \<in> set (sent_frames (fst (send_all hs s))). sendable f"
proof (induction hs arbitrary: s)
  case (Cons h hs)
  obtain clk i where h: "h = (clk, i)" by (cases h)
  show ?case
  proof (cases "fst (vb_send_header clk context_background i s)")
    case (Inl e)
    with Cons show ?thesis by (simp add: h)
  next
    case (Inr f)
    then have "sendable f" by (auto simp: send_header_ok_iff sendable_def)
    with Inr Cons show ?thesis by (simp add: h)
  qed
qed simp

text \<open>A live subscriber keeps its place, its options and, on a match, gets one push.\<close>

lemma send_header_subscriber:
  fixes clk :: "nat \<Rightarrow> instant" and ctx :: context_t and i :: u8
  assumes "vbus_inv s" and "sub \<in> set (live_subs s)"
  defines "t \<equiv> snd (vb_send_header clk ctx i s)"
  shows "sub \<in> set (live_subs t)"
    and "\<exists>now. vb_heap t ! vs_cell sub =
      (case fst (vb_send_header clk ctx i s) of
         Inl _ \<Rightarrow> vb_heap s ! vs_cell sub
       | Inr f \<Rightarrow> if vs_matches sub f then snd (push now f (vb_heap s ! vs_cell sub))
                  else vb_heap s ! vs_cell sub)"
proof -
  obtain j where j: "j < length (live_subs s)" "live_subs s ! j = sub"
    using assms(2) by (auto simp: in_set_conv_nth)
  have live: "sub \<in> set (vb_subs s)" "\<not> sub_closed (vb_heap s ! vs_cell sub)"
    using assms(2) by (auto simp: live_subs_def)
  show cell: "\<exists>now. vb_heap t ! vs_cell sub =
      (case fst (vb_send_header clk ctx i s) of
         Inl _ \<Rightarrow> vb_heap s ! vs_cell sub
       | Inr f \<Rightarrow> if vs_matches sub f then snd (push now f (vb_heap s ! vs_cell sub))
                  else vb_heap s ! vs_cell sub)"
    using exchanged_cell [OF assms(1) j(1)] j(2)
    by (auto simp: t_def vb_send_header_eq split: option.split sum.split intro: exI [of _ "clk j"])
  have "sub \<in> set (vb_subs t)"
    using live assms(2) by (auto simp: t_def vb_send_header_eq split: option.split sum.split)
  moreover have "\<not> sub_closed (vb_heap t ! vs_cell sub)"
    using cell live(2) by (cases "fst (vb_send_header clk ctx i s)") (auto split: if_splits)
  ultimately show "sub \<in> set (live_subs t)" by (simp add: live_subs_def)
qed

lemma keep_nil: "sub_ok c \<Longrightarrow> keep (policy c) (unat (capacity c)) (queue c) [] = queue c"
  by (cases "policy c") (auto simp: sub_ok_def)

lemma send_all_keep:
  assumes "vbus_inv s" and "sub \<in> set (live_subs s)"
    and "rate_limit (vb_heap s ! vs_cell sub) = 0"
  shows "queue (vb_heap (snd (send_all hs s)) ! vs_cell sub) =
    keep (policy (vb_heap s ! vs_cell sub)) (unat (capacity (vb_heap s ! vs_cell sub)))
      (queue (vb_heap s ! vs_cell sub))
      (filter (vs_matches sub) (sent_frames (fst (send_all hs s))))"
  using assms
proof (induction hs arbitrary: s)
  case Nil
  then have "sub_ok (vb_heap s ! vs_cell sub)"
    using live_subs_inv(2) [of s] by (auto simp: vbus_inv_def)
  then show ?case by (simp add: keep_nil)
next
  case (Cons h hs)
  obtain clk i where h: "h = (clk, i)" by (cases h)
  let ?c = "vb_heap s ! vs_cell sub"
  let ?r = "fst (vb_send_header clk context_background i s)"
  let ?t = "snd (vb_send_header clk context_background i s)"
  have ok: "sub_ok ?c"
    using Cons.prems(1,2) live_subs_inv(2) [of s] by (auto simp: vbus_inv_def)
  have inv: "vbus_inv ?t" using Cons.prems(1) by (rule send_header_inv)
  have live: "sub \<in> set (live_subs ?t)"
    using send_header_subscriber(1) [OF Cons.prems(1,2)] .
  obtain now where cell: "vb_heap ?t ! vs_cell sub =
      (case ?r of Inl _ \<Rightarrow> ?c | Inr f \<Rightarrow> if vs_matches sub f then snd (push now f ?c) else ?c)"
    using send_header_subscriber(2) [OF Cons.prems(1,2)] by blast
  have same: "rate_limit (vb_heap ?t ! vs_cell sub) = 0"
    "policy (vb_heap ?t ! vs_cell sub) = policy ?c"
    "capacity (vb_heap ?t ! vs_cell sub) = capacity ?c"
    using cell Cons.prems(3) by (auto split: sum.splits)
  note IH = Cons.IH [OF inv live same(1), unfolded same]
  have pos: "0 < unat (capacity ?c)" "policy ?c \<noteq> Block \<Longrightarrow> length (queue ?c) \<le> unat (capacity ?c)"
    using ok by (auto simp: sub_ok_def)
  show ?case
  proof (cases "\<exists>f. ?r = Inr f \<and> vs_matches sub f")
    case True
    then obtain f where f: "?r = Inr f" "vs_matches sub f" by blast
    then have "queue (vb_heap ?t ! vs_cell sub) =
        keep (policy ?c) (unat (capacity ?c)) (queue ?c) [f]"
      using cell Cons.prems(3) ok by (simp add: push_unlimited enqueue_keep)
    with IH f keep_step [OF pos] show ?thesis by (simp add: h)
  next
    case False
    then have "vb_heap ?t ! vs_cell sub = ?c"
      "filter (vs_matches sub) (sent_frames (?r # rs)) = filter (vs_matches sub) (sent_frames rs)" for rs
      using cell by (auto split: sum.splits)
    with IH show ?thesis by (simp add: h)
  qed
qed

section \<open>Closing\<close>

lemma vbus_step_closed: "vbus_step s t \<Longrightarrow> vb_closed s \<Longrightarrow> vb_closed t"
  by (induction rule: vbus_step.induct)
    (auto simp: publish_with_type_state vb_subscribe_def vb_close_def vb_send_header_eq
      vb_set_schedule_def rx_recv_def rx_close_def split: sum.split prod.split)

lemma vbus_steps_closed: "vbus_steps s t \<Longrightarrow> vb_closed s \<Longrightarrow> vb_closed t"
  by (induction rule: vbus_steps.induct) (auto intro: vbus_step_closed)

text \<open>Polling a cell a number of times in a row.\<close>

fun poll_times :: "nat \<Rightarrow> sub_inner \<Rightarrow> lin_frame option poll list \<times> sub_inner" where
  "poll_times 0 c = ([], c)"
| "poll_times (Suc n) c =
     (case recv_poll c of (p, c1) \<Rightarrow> (case poll_times n c1 of (ps, c2) \<Rightarrow> (p # ps, c2)))"

lemma fst_poll_times_Suc [simp]:
  "fst (poll_times (Suc n) c) = fst (recv_poll c) # fst (poll_times n (snd (recv_poll c)))"
  by (simp split: prod.split)

declare poll_times.simps(2) [simp del]

lemma poll_times_closed:
  assumes "sub_closed c"
  shows "fst (poll_times (length (queue c) + n) c) =
    map (\<lambda>f. Ready (Some f)) (queue c) @ replicate n (Ready None)"
  using assms
proof (induction "queue c" arbitrary: c)
  case Nil
  then have "fst (poll_times n c) = replicate n (Ready None)"
    by (induction n) (auto simp: recv_poll_eq)
  with Nil show ?case by simp
next
  case (Cons f q)
  have "recv_poll c = (Ready (Some f), c\<lparr>queue := q\<rparr>)"
    using Cons.hyps(2) [symmetric] by (simp add: recv_poll_eq)
  with Cons.hyps(1) [of "c\<lparr>queue := q\<rparr>"] Cons.hyps(2) [symmetric] Cons.prems show ?case
    by simp
qed

lemma vb_close_cell:
  assumes "vbus_inv s" and "\<not> vb_closed s" and "sub \<in> set (vb_subs s)"
  shows "vb_heap (snd (vb_close s)) ! vs_cell sub = sub_close (vb_heap s ! vs_cell sub)"
  using assms by (auto simp: vb_close_def Let_def vbus_inv_def close_cells_nth)

section \<open>The virtual bus implements the traits\<close>

definition vb_payloads :: "virtual_bus \<Rightarrow> u8 \<rightharpoonup> bytes" where
  "vb_payloads s i = map_option sr_data (vb_responses s i)"

lemma id_error_neq [simp]: "id_error i \<noteq> Closed" by (simp add: id_error_def)

lemma vb_payloads_publish:
  "vb_payloads (snd (publish_with_type i d ct s)) =
     (if fst (publish_with_type i d ct s) = Inr () then (vb_payloads s)(i := d)
      else vb_payloads s)"
  by (auto simp: vb_payloads_def publish_with_type_state fun_eq_iff option.map_comp o_def
      option.map_ident)

interpretation vbus: lin_master_bus vb_publish vb_close vb_payloads vb_closed vbus_inv
  vb_send_header vb_set_schedule
proof (unfold_locales, goal_cases)
  case (1 s i d)
  then show ?case by (simp add: vb_publish_def publish_inv)
next
  case (2 i d s)
  show ?case by (simp add: vb_publish_def publish_with_type_state)
next
  case (3 s i d)
  then show ?case by (auto simp: vb_publish_def publish_with_type_result)
next
  case (4 i d s)
  show ?case by (simp only: vb_publish_def vb_payloads_publish)
next
  case (5 s)
  then show ?case by (rule close_inv)
next
  case (6 s)
  show ?case by (simp add: vb_close_def Let_def)
next
  case (7 s)
  show ?case by (simp add: vb_close_def Let_def)
next
  case (8 s clk ctx i)
  then show ?case by (rule send_header_inv)
next
  case (9 clk ctx i s)
  show ?case by (auto simp: vb_payloads_def vb_send_header_eq split: option.split sum.split)
next
  case (10 clk ctx i s)
  show ?case by (auto simp: vb_send_header_eq split: option.split sum.split)
next
  case (11 s clk ctx i)
  then show ?case by (simp add: vb_send_header_eq)
next
  case (12 s i clk ctx)
  then show ?case by (auto simp: vb_payloads_def vb_send_header_eq)
next
  case (13 clk ctx i s f)
  then show ?case by (auto simp: send_header_ok_iff vb_payloads_def)
next
  case (14 s es)
  then show ?case by (rule set_schedule_inv)
next
  case (15 es s)
  show ?case by (auto simp: vb_set_schedule_def vb_payloads_def split: sum.split)
next
  case (16 es s)
  show ?case by (auto simp: vb_set_schedule_def split: sum.split)
qed

end
