(* ===== verification/Virtual_Bus_Spec.thy ===== *)
theory Virtual_Bus_Spec
  imports Virtual_Bus
begin

text \<open>
  An abstract specification of the virtual bus and the proof that the code's model
  refines it.  The specification has a table of registrations, a flag, an error counter
  and one list of receivers; it has no references into a heap, no list of registered
  subscribers beside the receivers, no collection of closed subscribers, and no wake-up
  calls.  Every client-visible reply of the model is the reply of the specification.
\<close>

section \<open>Calls and replies\<close>

datatype bus_call =
    CallPublish u8 "bytes option" checksum_type
  | CallSubscribe "lin_filter list" subscriber_options instant
  | CallClose
  | CallSend "nat \<Rightarrow> instant" context_t u8
  | CallSchedule "schedule_entry list"
  | CallHealth
  | CallErrorCount
  | CallRecv nat
  | CallRxClose nat

datatype bus_reply =
    ReplyUnit "error + unit" | ReplyCell "error + nat" | ReplyFrame "error + lin_frame"
  | ReplyHealth health | ReplyCount u64 | ReplyPoll "lin_frame option poll" | ReplyNone

text \<open>A receiver exists only once \<open>subscribe\<close> has handed it out.\<close>

fun vb_call :: "bus_call \<Rightarrow> virtual_bus \<Rightarrow> bus_reply \<times> virtual_bus" where
  "vb_call (CallPublish i d ct) s = map_prod ReplyUnit id (publish_with_type i d ct s)"
| "vb_call (CallSubscribe flts opts now) s = map_prod ReplyCell id (vb_subscribe flts opts now s)"
| "vb_call CallClose s = map_prod ReplyUnit id (vb_close s)"
| "vb_call (CallSend clk ctx i) s = map_prod ReplyFrame id (vb_send_header clk ctx i s)"
| "vb_call (CallSchedule es) s = map_prod ReplyUnit id (vb_set_schedule es s)"
| "vb_call CallHealth s = (ReplyHealth (vb_health s), s)"
| "vb_call CallErrorCount s = (ReplyCount (m_error_count (vb_metrics s)), s)"
| "vb_call (CallRecv r) s =
     (if r < length (vb_heap s) then map_prod ReplyPoll id (rx_recv r s) else (ReplyNone, s))"
| "vb_call (CallRxClose r) s =
     (ReplyNone, if r < length (vb_heap s) then rx_close r s else s)"

primrec vb_calls :: "bus_call list \<Rightarrow> virtual_bus \<Rightarrow> bus_reply list \<times> virtual_bus" where
  "vb_calls [] s = ([], s)"
| "vb_calls (c # cs) s =
     (case vb_call c s of (r, s1) \<Rightarrow> (case vb_calls cs s1 of (rs, s2) \<Rightarrow> (r # rs, s2)))"

section \<open>The specification\<close>

record spec_rx =
  rx_filters :: "lin_filter list"
  rx_cell :: sub_inner

record spec_bus =
  sp_table :: "u8 \<rightharpoonup> bytes \<times> checksum_type"
  sp_open :: bool
  sp_errors :: u64
  sp_rxs :: "spec_rx list"

definition spec_new :: spec_bus where
  "spec_new = \<lparr>sp_table = Map.empty, sp_open = True, sp_errors = 0, sp_rxs = []\<rparr>"

definition spec_fail :: "spec_bus \<Rightarrow> spec_bus" where
  "spec_fail a = a\<lparr>sp_errors := sp_errors a + 1\<rparr>"

definition spec_publish :: "u8 \<Rightarrow> bytes option \<Rightarrow> checksum_type \<Rightarrow> spec_bus \<Rightarrow>
    (error + unit) \<times> spec_bus" where
  "spec_publish i d ct a =
     (if \<not> sp_open a then (Inl Closed, spec_fail a)
      else if i > LIN_MAX_ID then (Inl (id_error i), spec_fail a)
      else if \<exists>b. d = Some b \<and> length b > LIN_MAX_DATA_LEN then (Inl PayloadTooLarge, spec_fail a)
      else (Inr (), a\<lparr>sp_table := (sp_table a)(i := map_option (\<lambda>b. (b, stored_type i ct)) d)\<rparr>))"

text \<open>A frame goes to every open receiver that wants it.\<close>

definition spec_wants :: "spec_rx \<Rightarrow> lin_frame \<Rightarrow> bool" where
  "spec_wants rx f \<longleftrightarrow>
     rx_filters rx = [] \<or> (\<exists>flt \<in> set (rx_filters rx). flt_all flt \<or> flt_id flt = fr_id f)"

fun spec_deliver :: "(nat \<Rightarrow> instant) \<Rightarrow> nat \<Rightarrow> lin_frame \<Rightarrow> spec_rx list \<Rightarrow> spec_rx list" where
  "spec_deliver clk k f [] = []"
| "spec_deliver clk k f (rx # rxs) =
     (if sub_closed (rx_cell rx) then rx # spec_deliver clk k f rxs
      else (if spec_wants rx f then rx\<lparr>rx_cell := snd (push (clk k) f (rx_cell rx))\<rparr> else rx)
        # spec_deliver clk (Suc k) f rxs)"

definition spec_send :: "(nat \<Rightarrow> instant) \<Rightarrow> u8 \<Rightarrow> spec_bus \<Rightarrow> (error + lin_frame) \<times> spec_bus" where
  "spec_send clk i a =
     (if \<not> sp_open a then (Inl Closed, spec_fail a)
      else if i > LIN_MAX_ID then (Inl (id_error i), spec_fail a)
      else case sp_table a i of
             None \<Rightarrow> (Inl NoResponse, spec_fail a)
           | Some (d, ct) \<Rightarrow>
               if d = [] then (Inl (InvalidFrame ''frame data must not be empty''), a)
               else (let f = \<lparr>fr_id = i, fr_data = d,
                              fr_checksum = calc_checksum (protect_id i) d ct,
                              fr_checksum_type = ct\<rparr>
                     in (Inr f, a\<lparr>sp_rxs := spec_deliver clk 0 f (sp_rxs a)\<rparr>)))"

definition spec_subscribe :: "lin_filter list \<Rightarrow> subscriber_options \<Rightarrow> instant \<Rightarrow> spec_bus \<Rightarrow>
    (error + nat) \<times> spec_bus" where
  "spec_subscribe flts opts now a =
     (if \<not> sp_open a then (Inl Closed, a)
      else (Inr (length (sp_rxs a)),
            a\<lparr>sp_rxs := sp_rxs a @ [\<lparr>rx_filters = flts, rx_cell =
              sub_inner_new (chan_depth opts 64) (back_pressure opts) (rate_limit_per_sec opts) now\<rparr>]\<rparr>))"

definition spec_rx_close :: "nat \<Rightarrow> spec_bus \<Rightarrow> spec_bus" where
  "spec_rx_close r a = a\<lparr>sp_rxs := (sp_rxs a)[r := (sp_rxs a ! r)
     \<lparr>rx_cell := sub_close (rx_cell (sp_rxs a ! r))\<rparr>]\<rparr>"

definition spec_recv :: "nat \<Rightarrow> spec_bus \<Rightarrow> lin_frame option poll \<times> spec_bus" where
  "spec_recv r a =
     (case recv_poll (rx_cell (sp_rxs a ! r)) of
        (p, c) \<Rightarrow> (p, a\<lparr>sp_rxs := (sp_rxs a)[r := (sp_rxs a ! r)\<lparr>rx_cell := c\<rparr>]\<rparr>))"

definition spec_close :: "spec_bus \<Rightarrow> spec_bus" where
  "spec_close a = a\<lparr>sp_open := False,
     sp_rxs := map (\<lambda>rx. rx\<lparr>rx_cell := sub_close (rx_cell rx)\<rparr>) (sp_rxs a)\<rparr>"

fun spec_call :: "bus_call \<Rightarrow> spec_bus \<Rightarrow> bus_reply \<times> spec_bus" where
  "spec_call (CallPublish i d ct) a = map_prod ReplyUnit id (spec_publish i d ct a)"
| "spec_call (CallSubscribe flts opts now) a =
     map_prod ReplyCell id (spec_subscribe flts opts now a)"
| "spec_call CallClose a = (ReplyUnit (Inr ()), spec_close a)"
| "spec_call (CallSend clk ctx i) a = map_prod ReplyFrame id (spec_send clk i a)"
| "spec_call (CallSchedule es) a =
     (ReplyUnit (if sp_open a then check_entries es else Inl Closed), a)"
| "spec_call CallHealth a =
     (ReplyHealth (if sp_open a then health_ok else health_down ''bus is closed''), a)"
| "spec_call CallErrorCount a = (ReplyCount (sp_errors a), a)"
| "spec_call (CallRecv r) a =
     (if r < length (sp_rxs a) then map_prod ReplyPoll id (spec_recv r a) else (ReplyNone, a))"
| "spec_call (CallRxClose r) a =
     (ReplyNone, if r < length (sp_rxs a) then spec_rx_close r a else a)"

primrec spec_calls :: "bus_call list \<Rightarrow> spec_bus \<Rightarrow> bus_reply list \<times> spec_bus" where
  "spec_calls [] a = ([], a)"
| "spec_calls (c # cs) a =
     (case spec_call c a of (r, a1) \<Rightarrow> (case spec_calls cs a1 of (rs, a2) \<Rightarrow> (r # rs, a2)))"

section \<open>Cells up to their wake-up calls\<close>

definition erase :: "sub_inner \<Rightarrow> sub_inner" where
  "erase c = c\<lparr>notify := []\<rparr>"

lemma erase_sel [simp]:
  "queue (erase c) = queue c" "capacity (erase c) = capacity c" "policy (erase c) = policy c"
  "sub_closed (erase c) = sub_closed c" "rate_limit (erase c) = rate_limit c"
  "rate_state (erase c) = rate_state c"
  by (simp_all add: erase_def)

lemma erase_eq_iff:
  "erase c = erase d \<longleftrightarrow>
     queue c = queue d \<and> capacity c = capacity d \<and> policy c = policy d \<and>
     sub_closed c = sub_closed d \<and> rate_limit c = rate_limit d \<and> rate_state c = rate_state d"
  by (cases c; cases d) (auto simp: erase_def)

lemma rate_admit_erase:
  "erase c = erase d \<Longrightarrow> fst (rate_admit now c) = fst (rate_admit now d) \<and>
     rate_state (snd (rate_admit now c)) = rate_state (snd (rate_admit now d))"
  by (simp add: rate_admit_def erase_eq_iff Let_def)

lemma push_erase:
  assumes "erase c = erase d"
  shows "erase (snd (push now f c)) = erase (snd (push now f d))"
proof -
  have "fst (push now f c) = fst (push now f d)"
    using assms rate_admit_erase [OF assms, of now]
    by (auto simp: push_accepts erase_eq_iff)
  then show ?thesis
    using assms rate_admit_erase [OF assms, of now]
    by (simp add: erase_eq_iff push_rate_state push_queue admitted_queue_def)
qed

lemma recv_poll_erase:
  "erase c = erase d \<Longrightarrow> fst (recv_poll c) = fst (recv_poll d) \<and>
     erase (snd (recv_poll c)) = erase (snd (recv_poll d))"
  by (auto simp: recv_poll_eq erase_eq_iff split: list.split)

lemma sub_close_erase: "erase c = erase d \<Longrightarrow> erase (sub_close c) = erase (sub_close d)"
  by (simp add: erase_eq_iff)

section \<open>The simulation relation\<close>

text \<open>The subscriber list the open receivers stand for, from reference \<open>n\<close> on.\<close>

fun live_of :: "nat \<Rightarrow> spec_rx list \<Rightarrow> virtual_sub list" where
  "live_of n [] = []"
| "live_of n (rx # rxs) =
     (if sub_closed (rx_cell rx) then live_of (Suc n) rxs
      else \<lparr>vs_filters = rx_filters rx, vs_cell = n\<rparr> # live_of (Suc n) rxs)"

definition same_cells :: "sub_inner list \<Rightarrow> spec_rx list \<Rightarrow> bool" where
  "same_cells h rxs \<longleftrightarrow> map erase h = map (\<lambda>rx. erase (rx_cell rx)) rxs"

definition refines :: "virtual_bus \<Rightarrow> spec_bus \<Rightarrow> bool" where
  "refines s a \<longleftrightarrow> vbus_inv s \<and> sp_open a = (\<not> vb_closed s) \<and>
     sp_table a = (\<lambda>i. map_option (\<lambda>r. (sr_data r, sr_checksum_type r)) (vb_responses s i)) \<and>
     sp_errors a = vb_error_count s \<and> same_cells (vb_heap s) (sp_rxs a) \<and>
     live_subs s = live_of 0 (sp_rxs a) \<and>
     (vb_closed s \<longrightarrow> (\<forall>rx \<in> set (sp_rxs a). sub_closed (rx_cell rx)))"

lemma same_cells_length: "same_cells h rxs \<Longrightarrow> length h = length rxs"
  by (auto simp: same_cells_def dest: map_eq_imp_length_eq)

lemma same_cells_nth:
  "same_cells h rxs \<Longrightarrow> r < length rxs \<Longrightarrow> erase (h ! r) = erase (rx_cell (rxs ! r))"
  using same_cells_length [of h rxs] unfolding same_cells_def by (metis nth_map)

lemma same_cells_update:
  "same_cells h rxs \<Longrightarrow> erase c = erase (rx_cell rx) \<Longrightarrow> same_cells (h[r := c]) (rxs[r := rx])"
  by (simp add: same_cells_def map_update)

lemma same_cells_Cons:
  "same_cells h (rx # rxs) \<longleftrightarrow>
     (\<exists>c h1. h = c # h1 \<and> erase c = erase (rx_cell rx) \<and> same_cells h1 rxs)"
  by (auto simp: same_cells_def map_eq_Cons_conv)

lemma vs_matches_wants:
  "vs_matches \<lparr>vs_filters = rx_filters rx, vs_cell = n\<rparr> f = spec_wants rx f"
proof -
  have "filter_matches flt f \<longleftrightarrow> flt_all flt \<or> flt_id flt = fr_id f" for flt
    by (auto simp: filter_matches_def)
  then show ?thesis by (simp add: vs_matches_def spec_wants_def list_ex_iff)
qed

lemma broadcast_delivers:
  "same_cells h rxs \<Longrightarrow> \<exists>h1. length h1 = length h \<and>
     snd (broadcast_from clk k f (live_of (length pre) rxs) cnt (pre @ h)) = pre @ h1 \<and>
     same_cells h1 (spec_deliver clk k f rxs)"
proof (induction rxs arbitrary: k cnt pre h)
  case (Cons rx rxs)
  then obtain c h0 where h: "h = c # h0" "erase c = erase (rx_cell rx)" "same_cells h0 rxs"
    by (auto simp: same_cells_Cons)
  let ?wants = "spec_wants rx f"
  define c1 where "c1 = (if sub_closed (rx_cell rx) \<or> \<not> ?wants then c else snd (push (clk k) f c))"
  define k1 where "k1 = (if sub_closed (rx_cell rx) then k else Suc k)"
  define rx1 where "rx1 = (if sub_closed (rx_cell rx) \<or> \<not> ?wants then rx
    else rx\<lparr>rx_cell := snd (push (clk k) f (rx_cell rx))\<rparr>)"
  define cnt1 where "cnt1 = (if sub_closed (rx_cell rx) \<or> \<not> ?wants then cnt
    else if fst (push (clk k) f c) then (fst cnt + 1, snd cnt) else (fst cnt, snd cnt + 1))"
  have step:
    "snd (broadcast_from clk k f (live_of (length pre) (rx # rxs)) cnt (pre @ h)) =
     snd (broadcast_from clk k1 f (live_of (length (pre @ [c1])) rxs) cnt1 ((pre @ [c1]) @ h0))"
    by (simp add: h c1_def k1_def cnt1_def vs_matches_wants nth_append)
  obtain h1 where h1: "length h1 = length h0"
    "snd (broadcast_from clk k1 f (live_of (length (pre @ [c1])) rxs) cnt1 ((pre @ [c1]) @ h0)) =
       (pre @ [c1]) @ h1" "same_cells h1 (spec_deliver clk k1 f rxs)"
    using Cons.IH [OF h(3)] by blast
  have "spec_deliver clk k f (rx # rxs) = rx1 # spec_deliver clk k1 f rxs"
    by (simp add: rx1_def k1_def)
  moreover have "erase c1 = erase (rx_cell rx1)"
    using push_erase [OF h(2)] h(2) by (simp add: c1_def rx1_def)
  ultimately have "same_cells (c1 # h1) (spec_deliver clk k f (rx # rxs))"
    using h1(3) by (simp add: same_cells_Cons)
  with step h1 h(1) show ?case by (intro exI [of _ "c1 # h1"]) simp
qed (simp add: same_cells_def)

lemma live_of_deliver: "live_of n (spec_deliver clk k f rxs) = live_of n rxs"
  by (induction rxs arbitrary: n k) auto

lemma live_of_append:
  "live_of n (rxs @ [rx]) = live_of n rxs @
     (if sub_closed (rx_cell rx) then []
      else [\<lparr>vs_filters = rx_filters rx, vs_cell = n + length rxs\<rparr>])"
  by (induction rxs arbitrary: n) auto

lemma live_of_cells: "sub \<in> set (live_of n rxs) \<Longrightarrow> n \<le> vs_cell sub \<and> vs_cell sub < n + length rxs"
  by (induction rxs arbitrary: n) (fastforce split: if_splits)+

lemma live_of_update:
  "r < length rxs \<Longrightarrow> rx_filters rx = rx_filters (rxs ! r) \<Longrightarrow>
     sub_closed (rx_cell rx) = sub_closed (rx_cell (rxs ! r)) \<Longrightarrow>
     live_of n (rxs[r := rx]) = live_of n rxs"
  by (induction rxs arbitrary: n r) (auto split: nat.split)

lemma live_of_close:
  "r < length rxs \<Longrightarrow> sub_closed (rx_cell rx) \<Longrightarrow>
     live_of n (rxs[r := rx]) = filter (\<lambda>sub. vs_cell sub \<noteq> n + r) (live_of n rxs)"
proof (induction rxs arbitrary: n r)
  case (Cons rx0 rxs)
  show ?case
  proof (cases r)
    case 0
    have "filter (\<lambda>sub. vs_cell sub \<noteq> n) (live_of (Suc n) rxs) = live_of (Suc n) rxs"
      by (rule filter_True) (auto dest: live_of_cells)
    with 0 Cons.prems show ?thesis by simp
  next
    case (Suc r1)
    with Cons show ?thesis by simp
  qed
qed simp

lemma live_of_all_closed: "\<forall>rx \<in> set rxs. sub_closed (rx_cell rx) \<Longrightarrow> live_of n rxs = []"
  by (induction rxs arbitrary: n) auto

text \<open>A cell is closed unless an open receiver refers to it.\<close>

lemma live_of_open:
  "r < length rxs \<Longrightarrow> \<not> sub_closed (rx_cell (rxs ! r)) \<Longrightarrow>
     n + r \<in> vs_cell ` set (live_of n rxs)"
proof (induction rxs arbitrary: n r)
  case (Cons rx rxs)
  show ?case
  proof (cases r)
    case (Suc q)
    with Cons.prems Cons.IH [of q "Suc n"] show ?thesis by auto
  qed (use Cons.prems in auto)
qed simp

lemma closed_unless_live:
  assumes "refines s a" and "r < length (vb_heap s)"
  shows "sub_closed (vb_heap s ! r) \<or> r \<in> vs_cell ` set (live_subs s)"
proof -
  have cells: "same_cells (vb_heap s) (sp_rxs a)" and live: "live_subs s = live_of 0 (sp_rxs a)"
    using assms(1) by (simp_all add: refines_def)
  have r: "r < length (sp_rxs a)" using assms(2) same_cells_length [OF cells] by simp
  have "sub_closed (vb_heap s ! r) = sub_closed (rx_cell (sp_rxs a ! r))"
    using same_cells_nth [OF cells r] by (simp add: erase_eq_iff)
  with live_of_open [OF r, of 0] live show ?thesis by auto
qed

section \<open>Every call is simulated\<close>

lemma refines_new: "refines virtual_bus_new spec_new"
  using vbus_inv_new
  by (simp add: refines_def spec_new_def virtual_bus_new_def bus_inner_new_def same_cells_def
      live_subs_def)

lemma refines_fail: "refines s a \<Longrightarrow> refines (count_error s) (spec_fail a)"
  by (simp add: refines_def spec_fail_def count_error_inv live_subs_def)

lemma live_subs_collected: "live_subs (collected s) = live_subs s"
  by (simp add: live_subs_def collected_def)

lemma refines_collected: "refines s a \<Longrightarrow> refines (collected s) a"
  by (simp add: refines_def collected_inv live_subs_collected)

lemma sim_publish:
  assumes "refines s a"
  shows "fst (publish_with_type i d ct s) = fst (spec_publish i d ct a) \<and>
    refines (snd (publish_with_type i d ct s)) (snd (spec_publish i d ct a))"
proof -
  have "vb_closed s = (\<not> sp_open a)" using assms by (simp add: refines_def)
  then have same: "fst (publish_with_type i d ct s) = fst (spec_publish i d ct a)"
    by (auto simp: publish_with_type_result spec_publish_def)
  have "refines (snd (publish_with_type i d ct s)) (snd (spec_publish i d ct a))"
  proof (cases "fst (publish_with_type i d ct s) = Inr ()")
    case True
    moreover from this same have "snd (spec_publish i d ct a) =
        a\<lparr>sp_table := (sp_table a)(i := map_option (\<lambda>b. (b, stored_type i ct)) d)\<rparr>"
      by (auto simp: spec_publish_def split: if_splits)
    ultimately show ?thesis
      using assms publish_inv [of s i d ct]
      by (auto simp: refines_def publish_with_type_state live_subs_def option.map_comp o_def)
  next
    case False
    with same have "snd (spec_publish i d ct a) = spec_fail a"
      by (auto simp: spec_publish_def split: if_splits)
    with False show ?thesis by (simp add: publish_with_type_state refines_fail assms)
  qed
  with same show ?thesis by simp
qed

lemma sim_send:
  assumes "refines s a"
  shows "fst (vb_send_header clk ctx i s) = fst (spec_send clk i a) \<and>
    refines (snd (vb_send_header clk ctx i s)) (snd (spec_send clk i a))"
proof (cases "vb_responses s i")
  case None
  with assms refines_fail [OF assms] refines_fail [OF refines_collected [OF assms]] show ?thesis
    by (simp add: vb_send_header_eq spec_send_def refines_def)
next
  case (Some r)
  have rel: "sp_open a = (\<not> vb_closed s)" "sp_table a i = Some (sr_data r, sr_checksum_type r)"
    "vbus_inv s" "same_cells (vb_heap s) (sp_rxs a)" "live_subs s = live_of 0 (sp_rxs a)"
    using assms Some by (simp_all add: refines_def)
  have "response_ok i r" using rel(3) Some by (simp add: vbus_inv_def)
  note valid = validate_response_frame [OF this]
  let ?f = "response_frame i r"
  obtain h1 where h1: "snd (broadcast_from clk 0 ?f (live_subs s) (0, 0) (vb_heap s)) = h1"
    "length h1 = length (vb_heap s)" "same_cells h1 (spec_deliver clk 0 ?f (sp_rxs a))"
    using broadcast_delivers [OF rel(4), of clk 0 ?f "[]" "(0, 0)"] rel(5) by auto
  have heap: "vb_heap (exchanged clk ?f s) = h1"
    using h1(1) by (simp add: exchanged_def Let_def)
  have "\<not> sub_closed (h1 ! vs_cell sub)" if sub: "sub \<in> set (live_subs s)" for sub
  proof -
    obtain j where "j < length (live_subs s)" "live_subs s ! j = sub"
      using sub by (auto simp: in_set_conv_nth)
    with exchanged_cell [OF rel(3), of j clk ?f] heap sub show ?thesis
      by (auto simp: live_subs_def split: if_splits)
  qed
  then have live: "live_subs (exchanged clk ?f s) = live_subs s"
    by (simp add: live_subs_def [of "exchanged clk ?f s"] heap)
  have "refines (exchanged clk ?f s) (a\<lparr>sp_rxs := spec_deliver clk 0 ?f (sp_rxs a)\<rparr>)"
    if "\<not> vb_closed s"
    using assms exchanged_inv [OF rel(3), of clk ?f] h1(3) live that
    by (simp add: refines_def heap live_of_deliver)
  with assms Some rel valid refines_fail [OF assms] refines_collected [OF assms] show ?thesis
    by (simp add: vb_send_header_eq spec_send_def Let_def response_frame_def)
qed

lemma sim_subscribe:
  assumes "refines s a"
  shows "fst (vb_subscribe flts opts now s) = fst (spec_subscribe flts opts now a) \<and>
    refines (snd (vb_subscribe flts opts now s)) (snd (spec_subscribe flts opts now a))"
proof -
  have len: "length (sp_rxs a) = length (vb_heap s)"
    using assms by (auto simp: refines_def dest: same_cells_length)
  have "filter (\<lambda>sub. \<not> sub_closed ((vb_heap s @ [c]) ! vs_cell sub)) (vb_subs s) = live_subs s" for c
    unfolding live_subs_def using assms
    by (intro filter_cong) (auto simp: refines_def vbus_inv_def nth_append)
  with assms len subscribe_inv [of s flts opts now] show ?thesis
    by (auto simp: vb_subscribe_def spec_subscribe_def Let_def refines_def same_cells_def
        live_subs_def [of "virtual_bus.vb_inner_update _ _"] live_of_append sub_inner_new_def)
qed

text \<open>Replacing a receiver's cell on both sides, open or closed as before.\<close>

lemma refines_cell:
  assumes "refines s a" and r: "r < length (sp_rxs a)" and c: "erase c = erase d" "sub_ok c"
    and d: "sub_closed d = sub_closed (rx_cell (sp_rxs a ! r))"
  shows "refines (s\<lparr>vb_heap := (vb_heap s)[r := c]\<rparr>)
    (a\<lparr>sp_rxs := (sp_rxs a)[r := (sp_rxs a ! r)\<lparr>rx_cell := d\<rparr>]\<rparr>)"
proof -
  have cells: "same_cells (vb_heap s) (sp_rxs a)" using assms(1) by (simp add: refines_def)
  have "sub_closed c = sub_closed (vb_heap s ! r)"
    using same_cells_nth [OF cells r] c(1) d by (simp add: erase_eq_iff)
  then have "live_subs (s\<lparr>vb_heap := (vb_heap s)[r := c]\<rparr>) = live_subs s"
    unfolding live_subs_def using r same_cells_length [OF cells]
    by (intro filter_cong) (auto simp: nth_list_update)
  moreover have "live_of 0 ((sp_rxs a)[r := (sp_rxs a ! r)\<lparr>rx_cell := d\<rparr>]) = live_of 0 (sp_rxs a)"
    using r d by (intro live_of_update) simp_all
  moreover have "\<forall>rx \<in> set ((sp_rxs a)[r := (sp_rxs a ! r)\<lparr>rx_cell := d\<rparr>]). sub_closed (rx_cell rx)"
    if "\<forall>rx \<in> set (sp_rxs a). sub_closed (rx_cell rx)"
    using that r d set_update_subset_insert [of "sp_rxs a" r] by fastforce
  ultimately show ?thesis
    using assms(1) heap_update_inv [of s c r] same_cells_update [OF cells, of c] c
    by (simp add: refines_def)
qed

lemma sim_recv:
  assumes "refines s a" and "r < length (vb_heap s)"
  shows "fst (rx_recv r s) = fst (spec_recv r a) \<and>
    refines (snd (rx_recv r s)) (snd (spec_recv r a))"
proof -
  have cells: "same_cells (vb_heap s) (sp_rxs a)" using assms(1) by (simp add: refines_def)
  then have r: "r < length (sp_rxs a)" using assms(2) by (simp add: same_cells_length)
  note same = recv_poll_erase [OF same_cells_nth [OF cells r]]
  have closed: "sub_closed (snd (recv_poll c)) = sub_closed c" for c
    by (simp add: recv_poll_eq split: list.split)
  have "sub_ok (snd (recv_poll (vb_heap s ! r)))"
    using assms by (intro recv_poll_sub_ok) (simp add: refines_def vbus_inv_def)
  from refines_cell [OF assms(1) r _ this closed] same show ?thesis
    by (simp add: rx_recv_def spec_recv_def split_beta)
qed

lemma sim_rx_close:
  assumes "refines s a" and "r < length (vb_heap s)"
  shows "refines (rx_close r s) (spec_rx_close r a)"
proof -
  let ?c = "sub_close (vb_heap s ! r)"
  let ?rx = "(sp_rxs a ! r)\<lparr>rx_cell := sub_close (rx_cell (sp_rxs a ! r))\<rparr>"
  have cells: "same_cells (vb_heap s) (sp_rxs a)" using assms(1) by (simp add: refines_def)
  then have r: "r < length (sp_rxs a)" using assms(2) by (simp add: same_cells_length)
  have "live_subs (s\<lparr>vb_heap := (vb_heap s)[r := ?c]\<rparr>) =
      filter (\<lambda>sub. vs_cell sub \<noteq> r) (live_subs s)"
    unfolding live_subs_def filter_filter using assms(2)
    by (intro filter_cong) (auto simp: nth_list_update)
  moreover have "live_of 0 ((sp_rxs a)[r := ?rx]) = filter (\<lambda>sub. vs_cell sub \<noteq> r) (live_of 0 (sp_rxs a))"
    using live_of_close [OF r, of ?rx 0] by simp
  moreover have "\<forall>rx \<in> set ((sp_rxs a)[r := ?rx]). sub_closed (rx_cell rx)"
    if "\<forall>rx \<in> set (sp_rxs a). sub_closed (rx_cell rx)"
    using that set_update_subset_insert [of "sp_rxs a" r ?rx] by fastforce
  ultimately show ?thesis
    using assms rx_close_inv [of s r] sub_close_erase [OF same_cells_nth [OF cells r]]
      same_cells_update [OF cells, of ?c ?rx r]
    by (simp add: refines_def rx_close_def spec_rx_close_def)
qed

lemma sim_close:
  assumes "refines s a"
  shows "fst (vb_close s) = Inr () \<and> refines (snd (vb_close s)) (spec_close a)"
proof -
  have cells: "same_cells (vb_heap s) (sp_rxs a)" and inv: "vbus_inv s"
    using assms by (simp_all add: refines_def)
  have all: "\<forall>rx \<in> set (sp_rxs (spec_close a)). sub_closed (rx_cell rx)"
    by (auto simp: spec_close_def)
  have closing: "same_cells h (sp_rxs (spec_close a))"
    if "length h = length (vb_heap s)"
      "\<And>r. r < length h \<Longrightarrow> erase (h ! r) = erase (sub_close (vb_heap s ! r))" for h
    using that cells same_cells_length [OF cells] same_cells_nth [OF cells]
    by (auto simp: same_cells_def spec_close_def list_eq_iff_nth_eq intro: sub_close_erase)
  show ?thesis
  proof (cases "vb_closed s")
    case True
    have "erase (vb_heap s ! r) = erase (sub_close (vb_heap s ! r))" if "r < length (vb_heap s)" for r
      using True assms that same_cells_nth [OF cells, of r] same_cells_length [OF cells]
      by (simp add: refines_def erase_eq_iff)
    with closing have "same_cells (vb_heap s) (sp_rxs (spec_close a))" by blast
    moreover have "live_subs s = []" using True inv by (simp add: vbus_inv_def live_subs_def)
    ultimately show ?thesis
      using True assms live_of_all_closed [OF all]
      by (simp add: vb_close_def refines_def) (simp add: spec_close_def)
  next
    case False
    let ?h = "close_cells (vb_subs s) (vb_heap s)"
    have "erase (?h ! r) = erase (sub_close (vb_heap s ! r))" if "r < length (vb_heap s)" for r
    proof (cases "r \<in> vs_cell ` set (vb_subs s)")
      case True
      with that inv show ?thesis by (simp add: close_cells_nth vbus_inv_def)
    next
      case other: False
      have "sub_closed (vb_heap s ! r)"
        using closed_unless_live [OF assms that] other by (auto simp: live_subs_def)
      with other that inv show ?thesis by (simp add: close_cells_nth vbus_inv_def erase_eq_iff)
    qed
    with closing have "same_cells ?h (sp_rxs (spec_close a))" by simp
    with False assms close_inv [OF inv] live_of_all_closed [OF all] all show ?thesis
      by (simp add: vb_close_def Let_def refines_def live_subs_def) (simp add: spec_close_def)
  qed
qed

lemma sim_call:
  assumes "refines s a"
  shows "fst (vb_call c s) = fst (spec_call c a) \<and>
    refines (snd (vb_call c s)) (snd (spec_call c a))"
proof -
  have rel: "sp_open a = (\<not> vb_closed s)" "length (sp_rxs a) = length (vb_heap s)"
    "sp_errors a = vb_error_count s"
    using assms by (auto simp: refines_def dest: same_cells_length)
  show ?thesis
  proof (cases c)
    case (CallSchedule es)
    have "live_subs (snd (vb_set_schedule es s)) = live_subs s"
      by (simp add: vb_set_schedule_def live_subs_def split: sum.split)
    with assms CallSchedule rel set_schedule_inv [of s es] show ?thesis
      by (auto simp: vb_set_schedule_def refines_def split: sum.splits)
  next
    case (CallRecv r)
    with assms sim_recv [OF assms] rel show ?thesis by simp
  next
    case (CallRxClose r)
    with assms sim_rx_close [OF assms] rel show ?thesis by simp
  qed (use assms rel sim_publish [OF assms] sim_subscribe [OF assms] sim_send [OF assms]
      sim_close [OF assms] in \<open>simp_all add: vb_health_def vb_metrics_def\<close>)
qed

lemma sim_calls:
  "refines s a \<Longrightarrow> fst (vb_calls cs s) = fst (spec_calls cs a) \<and>
     refines (snd (vb_calls cs s)) (snd (spec_calls cs a))"
  using sim_call by (induction cs arbitrary: s a) (fastforce simp: split_beta)+

lemma vbus_step_refines: "vbus_step s t \<Longrightarrow> refines s a \<Longrightarrow> \<exists>b. refines t b"
proof (induction rule: vbus_step.induct)
  case (step_publish s i d ct)
  with sim_publish show ?case by blast
next
  case (step_subscribe s filters opts now)
  with sim_subscribe show ?case by blast
next
  case (step_close s)
  with sim_close show ?case by blast
next
  case (step_send s clk ctx i)
  with sim_send show ?case by blast
next
  case (step_schedule s es)
  with sim_call [of s a "CallSchedule es"] show ?case by auto
next
  case (step_recv r s)
  with sim_recv show ?case by blast
next
  case (step_rx_close r s)
  with sim_rx_close show ?case by blast
qed

lemma reachable_refines:
  assumes "vbus_reachable s"
  shows "\<exists>a. refines s a"
proof -
  have "vbus_steps s0 s \<Longrightarrow> refines s0 a \<Longrightarrow> \<exists>b. refines s b" for s0 a
    by (induction rule: vbus_steps.induct) (use vbus_step_refines in blast)+
  with assms refines_new show ?thesis by blast
qed

lemma vb_call_inv: "vbus_inv s \<Longrightarrow> vbus_inv (snd (vb_call c s))"
  by (cases c) (auto intro: lin_inv)

lemma vb_calls_inv: "vbus_inv s \<Longrightarrow> vbus_inv (snd (vb_calls cs s))"
  by (induction cs arbitrary: s) (auto simp: split_beta vb_call_inv)

section \<open>Calls that leave a registration alone\<close>

definition leaves :: "u8 \<Rightarrow> bus_call \<Rightarrow> bool" where
  "leaves i c \<longleftrightarrow> c \<noteq> CallClose \<and> (\<forall>d ct. c \<noteq> CallPublish i d ct)"

lemma vb_call_leaves:
  assumes "leaves i c"
  shows "vb_responses (snd (vb_call c s)) i = vb_responses s i \<and>
    vb_closed (snd (vb_call c s)) = vb_closed s"
  using assms
  by (cases c) (auto simp: leaves_def publish_with_type_state vb_subscribe_def Let_def
      vb_send_header_eq vb_set_schedule_def rx_recv_def rx_close_def
      split: option.split sum.split prod.split)

lemma vb_calls_leave:
  "\<forall>c \<in> set cs. leaves i c \<Longrightarrow> vb_responses (snd (vb_calls cs s)) i = vb_responses s i \<and>
     vb_closed (snd (vb_calls cs s)) = vb_closed s"
proof (induction cs arbitrary: s)
  case (Cons c cs)
  with vb_call_leaves [of i c s] Cons.IH [of "snd (vb_call c s)"] show ?case
    by (simp add: split_beta)
qed simp

lemma send_all_reachable: "vbus_reachable s \<Longrightarrow> vbus_reachable (snd (send_all hs s))"
proof (induction hs arbitrary: s)
  case (Cons h hs)
  then show ?case by (cases h) (simp add: steps_step step_send)
qed simp

lemma send_all_heap: "length (vb_heap (snd (send_all hs s))) = length (vb_heap s)"
proof (induction hs arbitrary: s)
  case (Cons h hs)
  then show ?case
    by (cases h) (simp add: vb_send_header_eq split: option.split sum.split)
qed simp

section \<open>A subscription from its creation to the close of the bus\<close>

lemma subscription_queue:
  assumes "vbus_reachable s" and "vb_subscribe flts opts now s = (Inr r, t)"
    and "rate_limit_per_sec opts = 0"
  shows "queue (vb_heap (snd (send_all hs t)) ! r) =
    keep (back_pressure opts)
      (unat (if channel_depth opts = 0 then 64 else channel_depth opts)) []
      (filter (\<lambda>f. flts = [] \<or> (\<exists>flt \<in> set flts. filter_matches flt f))
        (sent_frames (fst (send_all hs t))))"
proof -
  let ?sub = "\<lparr>vs_filters = flts, vs_cell = r\<rparr>"
  let ?c = "sub_inner_new (chan_depth opts 64) (back_pressure opts) (rate_limit_per_sec opts) now"
  have "vbus_inv t"
    using subscribe_inv [OF vbus_reachable_inv [OF assms(1)], of flts opts now] assms(2) by simp
  moreover have cell: "vb_heap t ! r = ?c" and "?sub \<in> set (vb_subs t)"
    using assms(2) by (auto simp: vb_subscribe_def Let_def split: if_splits)
  then have "?sub \<in> set (live_subs t)" by (simp add: live_subs_def sub_inner_new_def)
  ultimately have "queue (vb_heap (snd (send_all hs t)) ! r) =
      keep (policy ?c) (unat (capacity ?c)) (queue ?c)
        (filter (vs_matches ?sub) (sent_frames (fst (send_all hs t))))"
    using send_all_keep [of t ?sub hs] cell assms(3) by (simp add: sub_inner_new_def)
  moreover have "vs_matches ?sub = (\<lambda>f. flts = [] \<or> (\<exists>flt \<in> set flts. filter_matches flt f))"
    by (auto simp: vs_matches_def list_ex_iff fun_eq_iff)
  ultimately show ?thesis
    by (simp add: sub_inner_new_def chan_depth_def word_neq_0_conv [symmetric])
qed

lemma close_polls:
  assumes "vbus_reachable s" and "r < length (vb_heap s)"
  shows "fst (poll_times (length (queue (vb_heap s ! r)) + n) (vb_heap (snd (vb_close s)) ! r)) =
    map (\<lambda>f. Ready (Some f)) (queue (vb_heap s ! r)) @ replicate n (Ready None)"
proof -
  obtain a where a: "refines s a" using reachable_refines [OF assms(1)] by blast
  have inv: "vbus_inv s" by (rule vbus_reachable_inv [OF assms(1)])
  have "sub_closed (vb_heap (snd (vb_close s)) ! r) \<and>
      queue (vb_heap (snd (vb_close s)) ! r) = queue (vb_heap s ! r)"
  proof (cases "vb_closed s")
    case True
    with closed_unless_live [OF a assms(2)] inv show ?thesis
      by (simp add: vb_close_def vbus_inv_def live_subs_def)
  next
    case False
    with closed_unless_live [OF a assms(2)] inv assms(2) show ?thesis
      by (auto simp: vb_close_def Let_def vbus_inv_def close_cells_nth live_subs_def)
  qed
  with poll_times_closed [of "vb_heap (snd (vb_close s)) ! r" n] show ?thesis by simp
qed

section \<open>Properties\<close>

text \<open>
  C1: The virtual bus refines its specification.  For any sequence of publications,
  subscriptions, headers, schedule changes, closings, receiver polls and status queries on
  a new bus, every reply (each result and error, each frame a receiver gets) is the one
  the specification gives, in which a header broadcasts to all receivers that are open
  and want the frame.  Sharing cells through references, collecting closed subscribers
  lazily and the wake-up calls are not observable.
\<close>

theorem virtual_bus_refines_spec:
  "fst (vb_calls cs virtual_bus_new) = fst (spec_calls cs spec_new)"
  using sim_calls [OF refines_new] by simp

text \<open>
  In every reachable state each registration belongs to an identifier up to
  \<open>0x3F\<close>, holds at most eight bytes and is classic for the diagnostic identifiers; the
  subscribers refer to distinct existing cells; no bounded queue exceeds its capacity;
  the installed schedule holds valid identifiers; a closed bus has no subscribers.
\<close>

theorem virtual_bus_invariant:
  assumes "vbus_reachable s"
  shows "(\<forall>i r. vb_responses s i = Some r \<longrightarrow> i \<le> LIN_MAX_ID \<and>
      length (sr_data r) \<le> LIN_MAX_DATA_LEN \<and> (is_diagnostic i \<longrightarrow> sr_checksum_type r = Classic)) \<and>
    distinct (map vs_cell (vb_subs s)) \<and>
    (\<forall>sub \<in> set (vb_subs s). vs_cell sub < length (vb_heap s)) \<and>
    (\<forall>c \<in> set (vb_heap s). policy c \<noteq> Block \<longrightarrow> length (queue c) \<le> unat (capacity c)) \<and>
    (\<forall>e \<in> set (bi_schedule (vb_inner s)). se_id e \<le> LIN_MAX_ID) \<and>
    (vb_closed s \<longrightarrow> vb_subs s = [])"
  using vbus_reachable_inv [OF assms] by (simp add: vbus_inv_def response_ok_def sub_ok_def)

definition demo_bus :: virtual_bus where
  "demo_bus = snd (vb_publish 0x10 (Some [1, 2]) virtual_bus_new)"

lemma demo_bus_reachable: "vbus_reachable demo_bus"
  unfolding demo_bus_def vb_publish_def
  by (rule steps_step [OF steps_refl step_publish])

lemma demo_bus_sel [simp]:
  "vb_responses demo_bus = [0x10 \<mapsto> \<lparr>sr_data = [1, 2], sr_checksum_type = Enhanced\<rparr>]"
  "\<not> vb_closed demo_bus" "vb_subs demo_bus = []" "vb_heap demo_bus = []"
  "vb_error_count demo_bus = 0"
  by (simp_all add: demo_bus_def vb_publish_def publish_with_type_def Let_def virtual_bus_new_def
      bus_inner_new_def lin_defs word_less_nat_alt)

theorem virtual_bus_invariant_witness:
  "0x10 \<le> LIN_MAX_ID \<and> length [1 :: u8, 2] \<le> LIN_MAX_DATA_LEN"
proof -
  have "\<forall>i r. vb_responses demo_bus i = Some r \<longrightarrow> i \<le> LIN_MAX_ID \<and>
      length (sr_data r) \<le> LIN_MAX_DATA_LEN"
    using virtual_bus_invariant [OF demo_bus_reachable] by blast
  from this [rule_format, of "0x10" "\<lparr>sr_data = [1, 2], sr_checksum_type = Enhanced\<rparr>"]
  show ?thesis by simp
qed

text \<open>
  C3: The result of a header on any reachable bus.  It is an error for a closed bus, an
  identifier above \<open>0x3F\<close>, an identifier without a registration, and a registration with
  an empty payload (which \<open>publish\<close> accepts), checked in this order, and in no other case;
  otherwise it is the registered payload in a valid frame whose checksum passes the
  receiver's check and whose PID verifies.
\<close>

theorem send_header_result:
  assumes "vbus_reachable s"
  shows "case fst (vb_send_header clk ctx i s) of
      Inl e \<Rightarrow> vb_closed s \<and> e = Closed \<or>
        \<not> vb_closed s \<and> i > LIN_MAX_ID \<and> e = id_error i \<or>
        \<not> vb_closed s \<and> i \<le> LIN_MAX_ID \<and> vb_responses s i = None \<and> e = NoResponse \<or>
        \<not> vb_closed s \<and> i \<le> LIN_MAX_ID \<and> map_option sr_data (vb_responses s i) = Some [] \<and>
          e = InvalidFrame ''frame data must not be empty''
    | Inr f \<Rightarrow> \<not> vb_closed s \<and> i \<le> LIN_MAX_ID \<and> fr_id f = i \<and> fr_data f \<noteq> [] \<and>
        vb_responses s i = Some \<lparr>sr_data = fr_data f, sr_checksum_type = fr_checksum_type f\<rparr> \<and>
        validate_frame f = Inr () \<and> verify_pid (protect_id (fr_id f)) = Inr i \<and>
        checksum_sum (if fr_checksum_type f = Enhanced then ucast (protect_id i) else 0)
          (fr_data f @ [fr_checksum f]) = 0xFF"
proof (cases "vb_responses s i")
  case None
  then show ?thesis by (simp add: vb_send_header_eq not_less)
next
  case (Some r)
  then have "response_ok i r" using vbus_reachable_inv [OF assms] by (simp add: vbus_inv_def)
  note valid = validate_response_frame [OF this]
  have "checksum_sum (if sr_checksum_type r = Enhanced then ucast (protect_id i) else 0)
      (sr_data r @ [calc_checksum (protect_id i) (sr_data r) (sr_checksum_type r)]) = 0xFF"
    by (rule checksum_sum_own)
  then show ?thesis
    using Some valid
    by (auto simp: vb_send_header_eq verify_pid_Inr)
qed

theorem send_header_result_witness:
  "\<exists>f. fst (vb_send_header (\<lambda>k. 0) context_background 0x10 demo_bus) = Inr f \<and>
     fr_data f = [1, 2] \<and> checksum_sum (ucast (protect_id 0x10)) (fr_data f @ [fr_checksum f]) = 0xFF"
proof -
  let ?f = "response_frame 0x10 \<lparr>sr_data = [1, 2], sr_checksum_type = Enhanced\<rparr>"
  have "fst (vb_send_header (\<lambda>k. 0) context_background 0x10 demo_bus) = Inr ?f"
    by (simp add: vb_send_header_eq validate_frame_def lin_defs word_less_nat_alt)
  with send_header_result [OF demo_bus_reachable, where clk = "\<lambda>k. 0" and ctx = context_background
      and i = "0x10"]
  show ?thesis by auto
qed

text \<open>The result on an open bus, in closed form.\<close>

lemma send_header_open:
  assumes "vbus_inv s" and "\<not> vb_closed s" and "i \<le> LIN_MAX_ID"
  shows "fst (vb_send_header clk ctx i s) = (case vb_responses s i of
      None \<Rightarrow> Inl NoResponse
    | Some r \<Rightarrow> if sr_data r = [] then Inl (InvalidFrame ''frame data must not be empty'')
        else Inr (response_frame i r))"
proof (cases "vb_responses s i")
  case (Some r)
  then have "response_ok i r" using assms(1) by (simp add: vbus_inv_def)
  from validate_response_frame [OF this] Some assms(2) assms(3) [THEN leD] show ?thesis
    by (simp add: vb_send_header_eq)
qed (use assms(2) assms(3) [THEN leD] in \<open>simp add: vb_send_header_eq\<close>)

lemma published_frame:
  assumes "\<not> vb_closed s" and "i \<le> LIN_MAX_ID" and "d \<noteq> []" and "length d \<le> LIN_MAX_DATA_LEN"
    and "\<forall>c \<in> set cs. leaves i c"
  shows "fst (vb_send_header clk ctx i
      (snd (vb_calls cs (snd (publish_with_type i (Some d) ct s))))) =
    Inr \<lparr>fr_id = i, fr_data = d,
         fr_checksum = calc_checksum (protect_id i) d (if is_diagnostic i then Classic else ct),
         fr_checksum_type = (if is_diagnostic i then Classic else ct)\<rparr>"
proof -
  let ?t = "snd (publish_with_type i (Some d) ct s)"
  let ?r = "\<lparr>sr_data = d, sr_checksum_type = stored_type i ct\<rparr>"
  have "vb_responses ?t i = Some ?r" "\<not> vb_closed ?t"
    using assms(1-4) by (auto simp: publish_with_type_state publish_with_type_result)
  then have "vb_responses (snd (vb_calls cs ?t)) i = Some ?r" "\<not> vb_closed (snd (vb_calls cs ?t))"
    using vb_calls_leave [OF assms(5)] by simp_all
  moreover have "response_ok i ?r"
    using assms(2,4) by (simp add: response_ok_def stored_type_def)
  ultimately show ?thesis
    using assms(2,3) validate_response_frame [of i ?r]
    by (simp add: vb_send_header_eq stored_type_def response_frame_def not_less)
qed

text \<open>
  C7: The last publication wins and persists: after a payload of one to eight bytes has
  been registered, any calls that neither close the bus nor publish the same identifier
  leave it in place, and the next header returns exactly it, with the checksum of the
  stored model (always the classic one for diagnostic identifiers).
\<close>

theorem published_is_sent:
  assumes "\<not> vb_closed s" and "i \<le> LIN_MAX_ID" and "d \<noteq> []" and "length d \<le> LIN_MAX_DATA_LEN"
    and "\<forall>c \<in> set cs. leaves i c"
  shows "fst (vb_send_header clk ctx i
      (snd (vb_calls cs (snd (publish_with_type i (Some d) ct s))))) =
    Inr \<lparr>fr_id = i, fr_data = d,
         fr_checksum = calc_checksum (protect_id i) d (if is_diagnostic i then Classic else ct),
         fr_checksum_type = (if is_diagnostic i then Classic else ct)\<rparr>"
  using assms by (rule published_frame)

theorem published_is_sent_witness:
  "fst (vb_send_header (\<lambda>k. 0) context_background 0x3C
      (snd (vb_calls [CallPublish 0x10 None Classic, CallSend (\<lambda>k. 0) context_background 0x3C]
        (snd (publish_with_type 0x3C (Some [7]) Enhanced virtual_bus_new))))) =
    Inr \<lparr>fr_id = 0x3C, fr_data = [7],
         fr_checksum = calc_checksum (protect_id 0x3C) [7] Classic, fr_checksum_type = Classic\<rparr>"
  using published_is_sent [where s = virtual_bus_new and i = "0x3C" and d = "[7]" and ct = Enhanced
      and clk = "\<lambda>k. 0" and ctx = context_background and cs =
      "[CallPublish 0x10 None Classic, CallSend (\<lambda>k. 0) context_background 0x3C]"]
  by (simp add: virtual_bus_new_def LIN_MAX_ID_def LIN_MAX_DATA_LEN_def leaves_def
      is_diagnostic_def LIN_DIAG_REQUEST_ID_def)

text \<open>
  C10: What a subscriber's queue holds.  A receiver obtained from \<open>subscribe\<close> without a
  rate limit and with a dropping policy holds, of the frames successfully sent afterwards
  that pass its filters, in order: the first ones up to the channel depth (\<open>DropNewest\<close>), or
  the last ones up to the channel depth (\<open>DropOldest\<close>); the depth is 64 when the options
  leave it 0.  Headers that fail contribute nothing, and it never holds more than the depth.
\<close>

theorem subscriber_receives:
  assumes "vbus_reachable s" and "vb_subscribe flts opts now s = (Inr r, t)"
    and "rate_limit_per_sec opts = 0" and "back_pressure opts \<noteq> Block"
    and "depth = unat (if channel_depth opts = 0 then 64 else channel_depth opts)"
    and "passing = filter (\<lambda>f. flts = [] \<or> (\<exists>flt \<in> set flts. filter_matches flt f))
        (sent_frames (fst (send_all hs t)))"
  shows "queue (vb_heap (snd (send_all hs t)) ! r) =
      (if back_pressure opts = DropNewest then take depth passing
       else drop (length passing - depth) passing) \<and>
    length (queue (vb_heap (snd (send_all hs t)) ! r)) \<le> depth"
  using subscription_queue [OF assms(1-3), of hs] assms(4) unfolding assms(5,6)
  by (cases "back_pressure opts") simp_all

definition demo_options :: subscriber_options where
  "demo_options = \<lparr>channel_depth = 1, back_pressure = DropOldest, rate_limit_per_sec = 0\<rparr>"

lemma demo_subscribe:
  "vb_subscribe [] demo_options 0 demo_bus = (Inr 0, snd (vb_subscribe [] demo_options 0 demo_bus))"
  by (simp add: vb_subscribe_def Let_def)

theorem subscriber_receives_witness:
  "queue (vb_heap (snd (send_all [(\<lambda>k. 0, 0x10), (\<lambda>k. 5, 0x11), (\<lambda>k. 9, 0x10)]
      (snd (vb_subscribe [] demo_options 0 demo_bus)))) ! 0) =
    (let sent = sent_frames (fst (send_all [(\<lambda>k. 0, 0x10), (\<lambda>k. 5, 0x11), (\<lambda>k. 9, 0x10)]
      (snd (vb_subscribe [] demo_options 0 demo_bus)))) in drop (length sent - 1) sent)"
  using subscriber_receives [OF demo_bus_reachable demo_subscribe _ _ refl refl,
      where hs = "[(\<lambda>k. 0, 0x10), (\<lambda>k. 5, 0x11), (\<lambda>k. 9, 0x10)]"]
  by (simp add: demo_options_def Let_def)

text \<open>
  Accounting of one successful exchange.  Each open subscriber whose filters match is
  served exactly once, the others not at all; deliveries and drops together count the
  matching subscribers, and the byte counters grow by the payload length, once for the
  write and once for each delivery.
\<close>

theorem exchange_accounting:
  assumes "vbus_reachable s" and "vb_send_header clk ctx i s = (Inr f, t)"
  shows "\<exists>a b. a + b = length (filter (\<lambda>sub. vs_matches sub f) (live_subs s)) \<and>
    vb_deliver_count t = vb_deliver_count s + of_nat a \<and>
    vb_drop_count t = vb_drop_count s + of_nat b \<and>
    vb_bytes_delivered t = vb_bytes_delivered s + of_nat (length (fr_data f)) * of_nat a \<and>
    vb_write_count t = vb_write_count s + 1 \<and>
    vb_bytes_written t = vb_bytes_written s + of_nat (length (fr_data f)) \<and>
    vb_error_count t = vb_error_count s \<and>
    (\<forall>j < length (live_subs s).
       vb_heap t ! vs_cell (live_subs s ! j) =
         (if vs_matches (live_subs s ! j) f
          then snd (push (clk j) f (vb_heap s ! vs_cell (live_subs s ! j)))
          else vb_heap s ! vs_cell (live_subs s ! j))) \<and>
    (\<forall>r. r \<notin> vs_cell ` set (live_subs s) \<longrightarrow> vb_heap t ! r = vb_heap s ! r)"
proof -
  have inv: "vbus_inv s" by (rule vbus_reachable_inv [OF assms(1)])
  have t: "t = exchanged clk f s"
    using send_header_ok_state [of clk ctx i s f] assms(2) by simp
  obtain a b where "a + b = length (filter (\<lambda>sub. vs_matches sub f) (live_subs s))"
    "vb_deliver_count t = vb_deliver_count s + of_nat a"
    "vb_drop_count t = vb_drop_count s + of_nat b"
    "vb_bytes_delivered t = vb_bytes_delivered s + of_nat (length (fr_data f)) * of_nat a"
    using exchanged_counts [of f s clk] unfolding t by blast
  moreover have "\<forall>j < length (live_subs s). vb_heap t ! vs_cell (live_subs s ! j) =
      (if vs_matches (live_subs s ! j) f
       then snd (push (clk j) f (vb_heap s ! vs_cell (live_subs s ! j)))
       else vb_heap s ! vs_cell (live_subs s ! j))"
    using exchanged_cell [OF inv] unfolding t by blast
  moreover have "\<forall>r. r \<notin> vs_cell ` set (live_subs s) \<longrightarrow> vb_heap t ! r = vb_heap s ! r"
    using exchanged_other unfolding t by blast
  ultimately show ?thesis by (intro exI [of _ a] exI [of _ b]) (simp add: t)
qed

theorem exchange_accounting_witness:
  "vb_write_count (snd (vb_send_header (\<lambda>k. 0) context_background 0x10 demo_bus)) =
     vb_write_count demo_bus + 1"
proof -
  have "vb_send_header (\<lambda>k. 0) context_background 0x10 demo_bus =
      (Inr (response_frame 0x10 \<lparr>sr_data = [1, 2], sr_checksum_type = Enhanced\<rparr>),
       snd (vb_send_header (\<lambda>k. 0) context_background 0x10 demo_bus))"
    by (simp add: vb_send_header_eq validate_frame_def lin_defs word_less_nat_alt)
  from exchange_accounting [OF demo_bus_reachable this] show ?thesis by blast
qed

text \<open>
  Closing is final.  Whatever calls are made on a closed bus, in whatever order, it
  stays closed and without subscribers, and publishing, subscribing, sending headers and
  installing schedules all report \<open>Closed\<close>; closing again succeeds and changes nothing.
\<close>

theorem closed_is_final:
  assumes "vbus_reachable s" and "vb_closed s" and "vbus_steps s t"
  shows "vb_closed t \<and> vb_subs t = [] \<and>
    fst (publish_with_type i d ct t) = Inl Closed \<and>
    fst (vb_subscribe flts opts now t) = Inl Closed \<and>
    fst (vb_send_header clk ctx i t) = Inl Closed \<and>
    fst (vb_set_schedule es t) = Inl Closed \<and>
    vb_close t = (Inr (), t) \<and>
    vb_health t = health_down ''bus is closed''"
proof -
  have closed: "vb_closed t" by (rule vbus_steps_closed [OF assms(3,2)])
  moreover have "vb_subs t = []"
    using vbus_steps_inv [OF assms(3) vbus_reachable_inv [OF assms(1)]] closed
    by (simp add: vbus_inv_def)
  ultimately show ?thesis
    by (simp add: publish_with_type_result vb_subscribe_def vb_send_header_eq vb_set_schedule_def
        vb_close_def vb_health_def)
qed

lemma demo_closed_reachable:
  "vbus_reachable (snd (vb_close demo_bus))" "vb_closed (snd (vb_close demo_bus))"
  by (rule steps_step [OF demo_bus_reachable step_close]) (simp add: vb_close_def Let_def)

theorem closed_is_final_witness:
  "fst (vb_publish 0x10 (Some [9])
     (snd (vb_send_header (\<lambda>k. 0) context_background 0x10 (snd (vb_close demo_bus))))) = Inl Closed"
  using closed_is_final [OF demo_closed_reachable steps_step [OF steps_refl
      step_send [of _ "\<lambda>k. 0" context_background "0x10"]],
      where i = "0x10" and d = "Some [9]" and ct = Enhanced]
  by (simp add: vb_publish_def)

text \<open>
  Closing the bus never loses a queued frame and leaves no receiver waiting: after
  \<open>close\<close>, every receiver ever handed out, whether or not it had been closed or collected
  before, returns its queued frames in order and then the end of the stream on every
  further poll.
\<close>

theorem close_drains_receivers:
  assumes "vbus_reachable s" and "r < length (vb_heap s)"
  shows "fst (poll_times (length (queue (vb_heap s ! r)) + n) (vb_heap (snd (vb_close s)) ! r)) =
    map (\<lambda>f. Ready (Some f)) (queue (vb_heap s ! r)) @ replicate n (Ready None)"
  using assms by (rule close_polls)

definition demo_run :: virtual_bus where
  "demo_run = snd (vb_send_header (\<lambda>k. 0) context_background 0x10
     (snd (vb_subscribe [] demo_options 0 demo_bus)))"

lemma demo_run_reachable: "vbus_reachable demo_run"
  unfolding demo_run_def
  by (rule steps_step [OF steps_step [OF demo_bus_reachable step_subscribe] step_send])

lemma demo_run_heap:
  "length (vb_heap demo_run) = 1"
  "queue (vb_heap demo_run ! 0) =
     [response_frame 0x10 \<lparr>sr_data = [1, 2], sr_checksum_type = Enhanced\<rparr>]"
  by (simp_all add: demo_run_def vb_subscribe_def Let_def vb_send_header_eq validate_frame_def
      lin_defs word_less_nat_alt exchanged_def live_subs_def sub_inner_new_def
      demo_options_def vs_matches_def push_unlimited enqueue_def chan_depth_def)

theorem close_drains_receivers_witness:
  "fst (poll_times (1 + 2) (vb_heap (snd (vb_close demo_run)) ! 0)) =
    [Ready (Some (response_frame 0x10 \<lparr>sr_data = [1, 2], sr_checksum_type = Enhanced\<rparr>)),
     Ready None, Ready None]"
  using close_drains_receivers [OF demo_run_reachable, of 0 2] demo_run_heap
  by (simp add: numeral_2_eq_2 del: poll_times.simps)

text \<open>
  A call that fails changes nothing but the error counter: \<open>publish\<close> counts exactly
  one error, \<open>send_header\<close> one error too (besides dropping subscribers already closed),
  except that the rejection of an empty payload is not counted.
\<close>

theorem failed_calls_accounting:
  assumes "vbus_reachable s"
  shows "(fst (publish_with_type i d ct s) = Inl e \<longrightarrow>
      snd (publish_with_type i d ct s) = s\<lparr>vb_error_count := vb_error_count s + 1\<rparr>) \<and>
    (fst (vb_send_header clk ctx i s) = Inl e \<longrightarrow>
      snd (vb_send_header clk ctx i s) =
        (let s1 = (if vb_closed s \<or> i > LIN_MAX_ID then s
                   else s\<lparr>vb_inner := (vb_inner s)\<lparr>bi_subs := live_subs s\<rparr>\<rparr>)
         in if e = InvalidFrame ''frame data must not be empty'' then s1
            else s1\<lparr>vb_error_count := vb_error_count s1 + 1\<rparr>))"
proof (intro conjI impI)
  assume "fst (publish_with_type i d ct s) = Inl e"
  then show "snd (publish_with_type i d ct s) = s\<lparr>vb_error_count := vb_error_count s + 1\<rparr>"
    by (simp add: publish_with_type_state count_error_def)
next
  assume err: "fst (vb_send_header clk ctx i s) = Inl e"
  have valid: "validate_frame (response_frame i r) =
      (if sr_data r = [] then Inl (InvalidFrame ''frame data must not be empty'') else Inr ())"
    if "vb_responses s i = Some r" for r
    using vbus_reachable_inv [OF assms] that
    by (intro validate_response_frame) (simp add: vbus_inv_def)
  have id: "id_error i \<noteq> InvalidFrame ''frame data must not be empty''"
    by (simp add: id_error_def)
  show "snd (vb_send_header clk ctx i s) =
        (let s1 = (if vb_closed s \<or> i > LIN_MAX_ID then s
                   else s\<lparr>vb_inner := (vb_inner s)\<lparr>bi_subs := live_subs s\<rparr>\<rparr>)
         in if e = InvalidFrame ''frame data must not be empty'' then s1
            else s1\<lparr>vb_error_count := vb_error_count s1 + 1\<rparr>)"
  proof (cases "vb_closed s \<or> i > LIN_MAX_ID")
    case True
    with err id show ?thesis
      by (auto simp: vb_send_header_eq count_error_def split: if_splits)
  next
    case False
    with err valid show ?thesis
      by (cases "vb_responses s i")
        (auto simp: vb_send_header_eq count_error_def collected_def split: if_splits)
  qed
qed

theorem failed_calls_accounting_witness:
  "vb_error_count (snd (vb_send_header (\<lambda>k. 0) context_background 0x11 demo_bus)) = 1"
proof -
  have "fst (vb_send_header (\<lambda>k. 0) context_background 0x11 demo_bus) = Inl NoResponse"
    by (simp add: vb_send_header_eq LIN_MAX_ID_def word_less_nat_alt)
  with failed_calls_accounting [OF demo_bus_reachable, where clk = "\<lambda>k. 0"
      and ctx = context_background and i = "0x11" and e = NoResponse]
  show ?thesis by (simp add: Let_def split: if_splits)
qed

end
