(* ===== verification/Bus_Concurrency.thy ===== *)
theory Bus_Concurrency
  imports Virtual_Bus_Spec
begin

text \<open>
  The methods of \<open>src/virtual_bus/mod.rs\<close> as interleaved tasks.  \<open>Virtual_Bus\<close> runs each
  method without interruption; here a task stops between the check of the closed flag, the
  locking of the mutex, the service of each subscriber and the counters, so that other tasks
  and the receivers run in between.  A section under the mutex that touches nothing outside
  the guarded data is one step; reading the flags of the subscribers (\<open>gc\<close>) and adding to
  several counters are one step each.
\<close>

section \<open>Tasks\<close>

datatype task_call =
    TPublish u8 "bytes option" checksum_type
  | TSubscribe "lin_filter list" subscriber_options
  | TClose
  | TSend u8
  | TSchedule "schedule_entry list"

text \<open>
  Where a task stands: at the start of a method, before the mutex (with what it computed so
  far), closing or serving the remaining subscribers while it holds the mutex, before the
  counters of \<open>send_header\<close>, or done with a reply.
\<close>

datatype pc =
    Begin task_call
  | Inserting u8 "bytes option" checksum_type
  | Joining "lin_filter list" sub_inner
  | Shutting
  | Closing "virtual_sub list"
  | Looking u8
  | Broadcasting lin_frame "virtual_sub list" u64 u64
  | Counting lin_frame u64 u64
  | Installing "schedule_entry list"
  | Returned bus_reply

text \<open>
  The shared state: the bus and the holder of its mutex, and as a record of the past the
  frames exchanged so far in the order of the critical sections, and what each receiver got.
\<close>

record conc_bus =
  cb_bus :: virtual_bus
  cb_holder :: "nat option"
  cb_sent :: "lin_frame list"
  cb_received :: "nat \<Rightarrow> lin_frame list"

definition conc_bus_new :: conc_bus where
  "conc_bus_new = \<lparr>cb_bus = virtual_bus_new, cb_holder = None, cb_sent = [], cb_received = (\<lambda>_. [])\<rparr>"

abbreviation set_bus :: "virtual_bus \<Rightarrow> conc_bus \<Rightarrow> conc_bus" where
  "set_bus b s \<equiv> s\<lparr>cb_bus := b\<rparr>"

definition put_response :: "u8 \<Rightarrow> bytes option \<Rightarrow> checksum_type \<Rightarrow> virtual_bus \<Rightarrow> virtual_bus" where
  "put_response i d ct b = b\<lparr>vb_inner := (vb_inner b)\<lparr>bi_responses := (vb_responses b)
     (i := map_option (\<lambda>x. \<lparr>sr_data = x, sr_checksum_type = ct\<rparr>) d)\<rparr>\<rparr>"

definition add_subscriber :: "lin_filter list \<Rightarrow> sub_inner \<Rightarrow> virtual_bus \<Rightarrow> virtual_bus" where
  "add_subscriber flts c b = b\<lparr>vb_heap := vb_heap b @ [c],
     vb_inner := (vb_inner b)\<lparr>bi_subs := vb_subs b @ [\<lparr>vs_filters = flts, vs_cell = length (vb_heap b)\<rparr>]\<rparr>\<rparr>"

definition count_written :: "lin_frame \<Rightarrow> virtual_bus \<Rightarrow> virtual_bus" where
  "count_written f b = b\<lparr>vb_bytes_written := vb_bytes_written b + of_nat (length (fr_data f)),
     vb_write_count := vb_write_count b + 1\<rparr>"

definition count_delivered :: "lin_frame \<Rightarrow> u64 \<Rightarrow> u64 \<Rightarrow> virtual_bus \<Rightarrow> virtual_bus" where
  "count_delivered f delivered dropped b = b\<lparr>vb_deliver_count := vb_deliver_count b + delivered,
     vb_drop_count := vb_drop_count b + dropped,
     vb_bytes_delivered := vb_bytes_delivered b + of_nat (length (fr_data f)) * delivered\<rparr>"

section \<open>One step of a task\<close>

text \<open>\<open>None\<close>: the task waits for the mutex or has returned.  \<open>now\<close> is the clock.\<close>

fun begin_call :: "instant \<Rightarrow> task_call \<Rightarrow> conc_bus \<Rightarrow> pc \<times> conc_bus" where
  "begin_call now (TPublish i d ct) s =
     (let b = cb_bus s
      in if vb_closed b then (Returned (ReplyUnit (Inl Closed)), set_bus (count_error b) s)
         else if i > LIN_MAX_ID then (Returned (ReplyUnit (Inl (id_error i))), set_bus (count_error b) s)
         else if (case d of Some x \<Rightarrow> length x > LIN_MAX_DATA_LEN | None \<Rightarrow> False) then
           (Returned (ReplyUnit (Inl PayloadTooLarge)), set_bus (count_error b) s)
         else (Inserting i d (stored_type i ct), s))"
| "begin_call now (TSubscribe flts opts) s =
     (if vb_closed (cb_bus s) then (Returned (ReplyCell (Inl Closed)), s)
      else (Joining flts (sub_inner_new (chan_depth opts 64) (back_pressure opts)
              (rate_limit_per_sec opts) now), s))"
| "begin_call now TClose s =
     (if vb_closed (cb_bus s) then (Returned (ReplyUnit (Inr ())), s)
      else (Shutting, set_bus ((cb_bus s)\<lparr>vb_closed := True\<rparr>) s))"
| "begin_call now (TSend i) s =
     (let b = cb_bus s
      in if vb_closed b then (Returned (ReplyFrame (Inl Closed)), set_bus (count_error b) s)
         else if i > LIN_MAX_ID then (Returned (ReplyFrame (Inl (id_error i))), set_bus (count_error b) s)
         else (Looking i, s))"
| "begin_call now (TSchedule es) s =
     (if vb_closed (cb_bus s) then (Returned (ReplyUnit (Inl Closed)), s)
      else (case check_entries es of
              Inl e \<Rightarrow> (Returned (ReplyUnit (Inl e)), s)
            | Inr _ \<Rightarrow> (Installing es, s)))"

text \<open>The critical section of \<open>send_header\<close> up to the broadcast; the task \<open>t\<close> keeps the mutex.\<close>

definition look_up :: "nat \<Rightarrow> u8 \<Rightarrow> conc_bus \<Rightarrow> pc \<times> conc_bus" where
  "look_up t i s =
     (let b = collected (cb_bus s)
      in case vb_responses b i of
           None \<Rightarrow> (Returned (ReplyFrame (Inl NoResponse)), set_bus (count_error b) s)
         | Some r \<Rightarrow>
             (case validate_frame (response_frame i r) of
                Inl e \<Rightarrow> (Returned (ReplyFrame (Inl e)), set_bus b s)
              | Inr _ \<Rightarrow>
                  (Broadcasting (response_frame i r) (vb_subs b) 0 0,
                   s\<lparr>cb_bus := count_written (response_frame i r) b, cb_holder := Some t,
                     cb_sent := cb_sent s @ [response_frame i r]\<rparr>)))"

text \<open>Serving one subscriber of the broadcast.\<close>

definition serve :: "instant \<Rightarrow> lin_frame \<Rightarrow> virtual_sub \<Rightarrow> virtual_bus \<Rightarrow> bool option \<times> virtual_bus" where
  "serve now f sub b =
     (if vs_matches sub f then
        (case heap_push now f (vs_cell sub) (vb_heap b) of (ok, h) \<Rightarrow> (Some ok, b\<lparr>vb_heap := h\<rparr>))
      else (None, b))"

fun micro :: "nat \<Rightarrow> instant \<Rightarrow> pc \<Rightarrow> conc_bus \<Rightarrow> (pc \<times> conc_bus) option" where
  "micro t now (Begin c) s = Some (begin_call now c s)"
| "micro t now (Inserting i d ct) s =
     (if cb_holder s \<noteq> None then None
      else Some (Returned (ReplyUnit (Inr ())), set_bus (put_response i d ct (cb_bus s)) s))"
| "micro t now (Joining flts c) s =
     (if cb_holder s \<noteq> None then None
      else Some (Returned (ReplyCell (Inr (length (vb_heap (cb_bus s))))),
                 set_bus (add_subscriber flts c (cb_bus s)) s))"
| "micro t now Shutting s =
     (if cb_holder s \<noteq> None then None
      else Some (Closing (vb_subs (cb_bus s)), s\<lparr>cb_holder := Some t\<rparr>))"
| "micro t now (Closing (sub # subs)) s =
     Some (Closing subs, set_bus (rx_close (vs_cell sub) (cb_bus s)) s)"
| "micro t now (Closing []) s =
     Some (Returned (ReplyUnit (Inr ())),
           s\<lparr>cb_bus := (cb_bus s)\<lparr>vb_inner := (vb_inner (cb_bus s))\<lparr>bi_subs := []\<rparr>\<rparr>, cb_holder := None\<rparr>)"
| "micro t now (Looking i) s =
     (if cb_holder s \<noteq> None then None else Some (look_up t i s))"
| "micro t now (Broadcasting f (sub # subs) delivered dropped) s =
     (case serve now f sub (cb_bus s) of
        (None, b) \<Rightarrow> Some (Broadcasting f subs delivered dropped, set_bus b s)
      | (Some True, b) \<Rightarrow> Some (Broadcasting f subs (delivered + 1) dropped, set_bus b s)
      | (Some False, b) \<Rightarrow> Some (Broadcasting f subs delivered (dropped + 1), set_bus b s))"
| "micro t now (Broadcasting f [] delivered dropped) s =
     Some (Counting f delivered dropped, s\<lparr>cb_holder := None\<rparr>)"
| "micro t now (Counting f delivered dropped) s =
     Some (Returned (ReplyFrame (Inr f)), set_bus (count_delivered f delivered dropped (cb_bus s)) s)"
| "micro t now (Installing es) s =
     (if cb_holder s \<noteq> None then None
      else Some (Returned (ReplyUnit (Inr ())),
        set_bus ((cb_bus s)\<lparr>vb_inner := (vb_inner (cb_bus s))\<lparr>bi_schedule := es\<rparr>\<rparr>) s))"
| "micro t now (Returned r) s = None"

section \<open>The system\<close>

text \<open>
  Any number of tasks call any methods, one after the other; receivers are polled and closed
  at any time.
\<close>

datatype label = TaskStep nat | NewCall nat task_call | Poll nat | CloseReceiver nat

type_synonym system = "(nat \<Rightarrow> pc) \<times> conc_bus"

definition note_received :: "nat \<Rightarrow> lin_frame option poll \<Rightarrow> conc_bus \<Rightarrow> conc_bus" where
  "note_received r p s =
     (case p of
        Ready (Some f) \<Rightarrow> s\<lparr>cb_received := (cb_received s)(r := cb_received s r @ [f])\<rparr>
      | _ \<Rightarrow> s)"

inductive conc_step :: "label \<Rightarrow> system \<Rightarrow> system \<Rightarrow> bool" where
  conc_task: "micro t now (ts t) s = Some (p, s1) \<Longrightarrow> conc_step (TaskStep t) (ts, s) (ts(t := p), s1)"
| conc_call: "ts t = Returned r \<Longrightarrow> conc_step (NewCall t c) (ts, s) (ts(t := Begin c), s)"
| conc_poll: "r < length (vb_heap (cb_bus s)) \<Longrightarrow> rx_recv r (cb_bus s) = (p, b) \<Longrightarrow>
    conc_step (Poll r) (ts, s) (ts, note_received r p (set_bus b s))"
| conc_rx_close: "r < length (vb_heap (cb_bus s)) \<Longrightarrow>
    conc_step (CloseReceiver r) (ts, s) (ts, set_bus (rx_close r (cb_bus s)) s)"

inductive conc_run :: "label list \<Rightarrow> system \<Rightarrow> system \<Rightarrow> bool" where
  run_refl: "conc_run [] x x"
| run_step: "conc_run ls x y \<Longrightarrow> conc_step l y z \<Longrightarrow> conc_run (ls @ [l]) x z"

definition conc_start :: system where
  "conc_start = (\<lambda>t. Returned ReplyNone, conc_bus_new)"

inductive_cases conc_stepE: "conc_step l x y"

section \<open>Mutual exclusion\<close>

fun holds :: "pc \<Rightarrow> bool" where
  "holds (Closing _) \<longleftrightarrow> True"
| "holds (Broadcasting _ _ _ _) \<longleftrightarrow> True"
| "holds _ \<longleftrightarrow> False"

definition mutex_ok :: "system \<Rightarrow> bool" where
  "mutex_ok x \<longleftrightarrow> (\<forall>t. holds (fst x t) \<longleftrightarrow> cb_holder (snd x) = Some t)"

lemma begin_call_frame [simp]:
  "cb_holder (snd (begin_call now c s)) = cb_holder s"
  "cb_sent (snd (begin_call now c s)) = cb_sent s"
  "cb_received (snd (begin_call now c s)) = cb_received s"
  "vb_heap (cb_bus (snd (begin_call now c s))) = vb_heap (cb_bus s)"
  "vb_inner (cb_bus (snd (begin_call now c s))) = vb_inner (cb_bus s)"
  "\<not> holds (fst (begin_call now c s))"
  by (cases c; simp add: Let_def count_error_def split: option.split sum.split)+

lemma look_up_cases:
  "(\<exists>r b. look_up t i s = (Returned (ReplyFrame (Inl r)), set_bus b s) \<and>
      (b = collected (cb_bus s) \<or> b = count_error (collected (cb_bus s)))) \<or>
   (\<exists>r. vb_responses (cb_bus s) i = Some r \<and> validate_frame (response_frame i r) = Inr () \<and>
      look_up t i s = (Broadcasting (response_frame i r) (live_subs (cb_bus s)) 0 0,
        s\<lparr>cb_bus := count_written (response_frame i r) (collected (cb_bus s)), cb_holder := Some t,
          cb_sent := cb_sent s @ [response_frame i r]\<rparr>))"
  by (auto simp: look_up_def Let_def collected_def split: option.split sum.split)

lemma holder_broadcasts:
  assumes "mutex_ok (ts, s)" and "cb_holder s = Some t" and "u \<noteq> t"
  shows "\<not> holds (ts u)"
  using assms by (auto simp: mutex_ok_def)

lemma mutex_update:
  assumes "mutex_ok (ts, s)"
    and "(cb_holder s1 = cb_holder s \<and> holds p = holds (ts t)) \<or>
      (cb_holder s = None \<and> cb_holder s1 = Some t \<and> holds p) \<or>
      (holds (ts t) \<and> cb_holder s1 = None \<and> \<not> holds p)"
  shows "mutex_ok (ts(t := p), s1)"
proof -
  have m: "holds (ts u) \<longleftrightarrow> cb_holder s = Some u" for u
    using assms(1) by (simp add: mutex_ok_def)
  have "holds ((ts(t := p)) u) \<longleftrightarrow> cb_holder s1 = Some u" for u
    using assms(2) m [of u] m [of t] by (cases "u = t") auto
  then show ?thesis by (simp add: mutex_ok_def)
qed

lemma micro_mutex:
  assumes "micro t now (ts t) s = Some (p, s1)" and "mutex_ok (ts, s)"
  shows "mutex_ok (ts(t := p), s1)"
proof -
  have "(cb_holder s1 = cb_holder s \<and> holds p = holds (ts t)) \<or>
      (cb_holder s = None \<and> cb_holder s1 = Some t \<and> holds p) \<or>
      (holds (ts t) \<and> cb_holder s1 = None \<and> \<not> holds p)"
  proof (cases "(t, now, ts t, s)" rule: micro.cases)
    case (1 t' now' c s')
    then show ?thesis
      using assms(1) begin_call_frame [of now c s] by (auto simp: prod_eq_iff)
  next
    case (7 t' now' i s')
    then show ?thesis
      using assms(1) look_up_cases [of t i s] by (auto split: if_splits)
  qed (use assms(1) in \<open>auto split: if_splits prod.splits option.splits bool.splits\<close>)
  with assms(2) show ?thesis by (rule mutex_update)
qed

section \<open>Well-formedness\<close>

definition bus_ok :: "virtual_bus \<Rightarrow> bool" where
  "bus_ok b \<longleftrightarrow>
     (\<forall>i r. vb_responses b i = Some r \<longrightarrow> response_ok i r) \<and>
     (\<forall>sub \<in> set (vb_subs b). vs_cell sub < length (vb_heap b)) \<and>
     distinct (map vs_cell (vb_subs b)) \<and>
     (\<forall>c \<in> set (vb_heap b). sub_ok c) \<and>
     (\<forall>e \<in> set (bi_schedule (vb_inner b)). se_id e \<le> LIN_MAX_ID)"

fun pc_ok :: "nat \<Rightarrow> pc \<Rightarrow> bool" where
  "pc_ok n (Inserting i d ct) \<longleftrightarrow> i \<le> LIN_MAX_ID \<and>
     (\<forall>x. d = Some x \<longrightarrow> length x \<le> LIN_MAX_DATA_LEN) \<and> (is_diagnostic i \<longrightarrow> ct = Classic)"
| "pc_ok n (Joining flts c) \<longleftrightarrow> sub_ok c \<and> queue c = [] \<and> \<not> sub_closed c"
| "pc_ok n (Closing subs) \<longleftrightarrow> (\<forall>sub \<in> set subs. vs_cell sub < n)"
| "pc_ok n (Broadcasting f subs _ _) \<longleftrightarrow> validate_frame f = Inr () \<and>
     (\<forall>sub \<in> set subs. vs_cell sub < n) \<and> distinct (map vs_cell subs)"
| "pc_ok n (Counting f _ _) \<longleftrightarrow> validate_frame f = Inr ()"
| "pc_ok n (Installing es) \<longleftrightarrow> (\<forall>e \<in> set es. se_id e \<le> LIN_MAX_ID)"
| "pc_ok n (Returned (ReplyFrame (Inr f))) \<longleftrightarrow> validate_frame f = Inr ()"
| "pc_ok n _ \<longleftrightarrow> True"

lemma pc_ok_mono: "pc_ok m p \<Longrightarrow> m \<le> n \<Longrightarrow> pc_ok n p"
  by (cases "(n, p)" rule: pc_ok.cases) auto

definition heap_size :: "conc_bus \<Rightarrow> nat" where
  "heap_size s = length (vb_heap (cb_bus s))"

definition tasks_ok :: "system \<Rightarrow> bool" where
  "tasks_ok x \<longleftrightarrow> bus_ok (cb_bus (snd x)) \<and> (\<forall>t. pc_ok (heap_size (snd x)) (fst x t))"

lemma bus_ok_frame:
  "vb_heap b = vb_heap c \<Longrightarrow> vb_inner b = vb_inner c \<Longrightarrow> bus_ok b = bus_ok c"
  by (simp add: bus_ok_def)

lemma bus_ok_counters [simp]:
  "bus_ok (count_error b) = bus_ok b" "bus_ok (count_written f b) = bus_ok b"
  "bus_ok (count_delivered f d e b) = bus_ok b" "bus_ok (b\<lparr>vb_closed := v\<rparr>) = bus_ok b"
  by (simp_all add: bus_ok_def count_error_def count_written_def count_delivered_def)

lemma bus_ok_collected: "bus_ok b \<Longrightarrow> bus_ok (collected b)"
  by (auto simp: bus_ok_def collected_def live_subs_def intro: distinct_map_filter_cells)

lemma bus_ok_cell: "bus_ok b \<Longrightarrow> sub_ok c \<Longrightarrow> bus_ok (b\<lparr>vb_heap := (vb_heap b)[r := c]\<rparr>)"
  using set_update_subset_insert [of "vb_heap b" r c] by (auto simp: bus_ok_def)

lemma bus_ok_put:
  "bus_ok b \<Longrightarrow> i \<le> LIN_MAX_ID \<Longrightarrow> (\<forall>x. d = Some x \<longrightarrow> length x \<le> LIN_MAX_DATA_LEN) \<Longrightarrow>
     (is_diagnostic i \<longrightarrow> ct = Classic) \<Longrightarrow> bus_ok (put_response i d ct b)"
  by (auto simp: bus_ok_def put_response_def response_ok_def)

lemma bus_ok_add: "bus_ok b \<Longrightarrow> sub_ok c \<Longrightarrow> bus_ok (add_subscriber flts c b)"
  by (auto simp: bus_ok_def add_subscriber_def less_SucI)

lemma bus_ok_close: "bus_ok b \<Longrightarrow> r < length (vb_heap b) \<Longrightarrow> bus_ok (rx_close r b)"
  unfolding rx_close_def by (rule bus_ok_cell) (auto simp: bus_ok_def close_sub_ok)

lemma bus_ok_recv: "bus_ok b \<Longrightarrow> r < length (vb_heap b) \<Longrightarrow> bus_ok (snd (rx_recv r b))"
  using bus_ok_cell [of b "snd (recv_poll (vb_heap b ! r))" r]
  by (auto simp: rx_recv_def bus_ok_def recv_poll_sub_ok split: prod.split)

lemma serve_eq:
  "serve now f sub b =
     (if vs_matches sub f then
        (Some (fst (push now f (vb_heap b ! vs_cell sub))),
         b\<lparr>vb_heap := (vb_heap b)[vs_cell sub := snd (push now f (vb_heap b ! vs_cell sub))]\<rparr>)
      else (None, b))"
  by (simp add: serve_def heap_push_def split: prod.split)

lemma bus_ok_serve:
  "bus_ok b \<Longrightarrow> vs_cell sub < length (vb_heap b) \<Longrightarrow> bus_ok (snd (serve now f sub b))"
  using bus_ok_cell [of b "snd (push now f (vb_heap b ! vs_cell sub))" "vs_cell sub"]
  by (simp add: serve_eq push_sub_ok bus_ok_def)

lemma pc_ok_begin: "pc_ok n (fst (begin_call now c s))"
proof (cases c)
  case (TSubscribe flts opts)
  have "sub_ok (sub_inner_new (chan_depth opts 64) (back_pressure opts) (rate_limit_per_sec opts) now)"
    by (intro sub_ok_new chan_depth_pos) simp
  with TSubscribe show ?thesis by (simp add: sub_inner_new_def)
next
  case (TSchedule es)
  then show ?thesis using check_entries_ok [of es] by (auto split: sum.split)
qed (auto simp: Let_def stored_type_def not_less split: option.split)

lemma live_subs_ok:
  assumes "bus_ok b"
  shows "\<forall>sub \<in> set (live_subs b). vs_cell sub < length (vb_heap b)"
    and "distinct (map vs_cell (live_subs b))"
  using assms by (auto simp: bus_ok_def live_subs_def intro: distinct_map_filter_cells)

lemma counters_sel [simp]:
  "vb_heap (count_written f b) = vb_heap b" "vb_heap (count_delivered f d e b) = vb_heap b"
  "vb_inner (count_written f b) = vb_inner b" "vb_inner (count_delivered f d e b) = vb_inner b"
  "vb_closed (count_written f b) = vb_closed b" "vb_closed (count_delivered f d e b) = vb_closed b"
  "vb_heap (put_response i x ct b) = vb_heap b" "vb_closed (put_response i x ct b) = vb_closed b"
  "vb_subs (put_response i x ct b) = vb_subs b"
  "vb_heap (add_subscriber flts c b) = vb_heap b @ [c]" "vb_closed (add_subscriber flts c b) = vb_closed b"
  "vb_heap (rx_close r b) = (vb_heap b)[r := sub_close (vb_heap b ! r)]"
  "vb_inner (rx_close r b) = vb_inner b" "vb_closed (rx_close r b) = vb_closed b"
  by (simp_all add: count_written_def count_delivered_def put_response_def add_subscriber_def rx_close_def)

lemma serve_sel:
  "length (vb_heap (snd (serve now f sub b))) = length (vb_heap b)"
  "vb_inner (snd (serve now f sub b)) = vb_inner b" "vb_closed (snd (serve now f sub b)) = vb_closed b"
  by (simp_all add: serve_eq)

text \<open>What one step of a task keeps: the bus, the size of the heap and its own data.\<close>

lemma micro_tasks_ok:
  assumes "micro t now p s = Some (q, s1)" and "bus_ok (cb_bus s)" and "pc_ok (heap_size s) p"
  shows "bus_ok (cb_bus s1) \<and> heap_size s \<le> heap_size s1 \<and> pc_ok (heap_size s1) q"
proof (cases "(t, now, p, s)" rule: micro.cases)
  case (1 t' now' c s')
  then have q: "q = fst (begin_call now c s)" "s1 = snd (begin_call now c s)"
    using assms(1) by (simp_all add: prod_eq_iff)
  have "bus_ok (cb_bus s1)"
    using assms(2) bus_ok_frame [of "cb_bus s1" "cb_bus s"] q by simp
  with q show ?thesis by (simp add: pc_ok_begin heap_size_def)
next
  case (2 t' now' i d ct s')
  then show ?thesis using assms by (auto simp: bus_ok_put heap_size_def split: if_splits)
next
  case (3 t' now' flts c s')
  then show ?thesis using assms by (auto simp: bus_ok_add heap_size_def split: if_splits)
next
  case (4 t' now' s')
  then show ?thesis using assms by (auto simp: bus_ok_def heap_size_def split: if_splits)
next
  case (5 t' now' sub subs s')
  then show ?thesis using assms by (auto simp: bus_ok_close heap_size_def)
next
  case (6 t' now' s')
  then show ?thesis using assms by (auto simp: bus_ok_def heap_size_def)
next
  case (7 t' now' i s')
  then show ?thesis
    using assms look_up_cases [of t i s] live_subs_ok [OF assms(2)]
    by (auto simp: bus_ok_collected heap_size_def split: if_splits)
next
  case (8 t' now' f sub subs delivered dropped s')
  then have sub: "vs_cell sub < length (vb_heap (cb_bus s))"
    using assms(3) by (simp add: heap_size_def)
  obtain v b where serve: "serve now f sub (cb_bus s) = (v, b)" by (cases "serve now f sub (cb_bus s)")
  then have "bus_ok b" "length (vb_heap b) = length (vb_heap (cb_bus s))"
    using bus_ok_serve [OF assms(2) sub, of now f] serve_sel(1) [of now f sub "cb_bus s"] by simp_all
  then show ?thesis
    using assms(1,3) 8 serve by (auto simp: heap_size_def split: option.splits bool.splits)
next
  case (9 t' now' f delivered dropped s')
  then show ?thesis using assms by (auto simp: heap_size_def)
next
  case (10 t' now' f delivered dropped s')
  then show ?thesis using assms by (auto simp: heap_size_def)
next
  case (11 t' now' es s')
  then show ?thesis using assms by (auto simp: bus_ok_def heap_size_def split: if_splits)
next
  case (12 t' now' r s')
  then show ?thesis using assms by simp
qed

section \<open>One order for all receivers\<close>

text \<open>What receiver \<open>r\<close> got and still has in its queue.\<close>

definition cell_queue :: "virtual_bus \<Rightarrow> nat \<Rightarrow> lin_frame list" where
  "cell_queue b r = (if r < length (vb_heap b) then queue (vb_heap b ! r) else [])"

definition history :: "conc_bus \<Rightarrow> nat \<Rightarrow> lin_frame list" where
  "history s r = cb_received s r @ cell_queue (cb_bus s) r"

text \<open>The cells the task has still to serve with the last frame.\<close>

fun to_serve :: "pc \<Rightarrow> nat set" where
  "to_serve (Broadcasting f subs _ _) = vs_cell ` set subs"
| "to_serve _ = {}"

fun serving :: "pc \<Rightarrow> lin_frame \<Rightarrow> bool" where
  "serving (Broadcasting f subs _ _) g \<longleftrightarrow> f = g"
| "serving _ g \<longleftrightarrow> True"

definition order_ok :: "(nat \<Rightarrow> pc) \<Rightarrow> conc_bus \<Rightarrow> bool" where
  "order_ok ts s \<longleftrightarrow>
     (\<forall>t. to_serve (ts t) \<noteq> {} \<longrightarrow> cb_sent s \<noteq> [] \<and> serving (ts t) (last (cb_sent s))) \<and>
     (\<forall>r. subseq (history s r)
       (if \<exists>t. r \<in> to_serve (ts t) then butlast (cb_sent s) else cb_sent s))"

lemma subseq_append_right: "subseq xs ys \<Longrightarrow> subseq xs (ys @ zs)"
  using list_emb_append_mono [of "(=)" xs ys "[]" zs] by simp

lemma order_okD:
  assumes "order_ok ts s"
  shows "to_serve (ts t) \<noteq> {} \<Longrightarrow> cb_sent s \<noteq> [] \<and> serving (ts t) (last (cb_sent s))"
    and "r \<in> to_serve (ts t) \<Longrightarrow> subseq (history s r) (butlast (cb_sent s))"
    and "\<forall>t. r \<notin> to_serve (ts t) \<Longrightarrow> subseq (history s r) (cb_sent s)"
    and "subseq (history s r) (cb_sent s)"
proof -
  show "to_serve (ts t) \<noteq> {} \<Longrightarrow> cb_sent s \<noteq> [] \<and> serving (ts t) (last (cb_sent s))"
    using assms by (simp add: order_ok_def)
  have h: "subseq (history s r)
       (if \<exists>t. r \<in> to_serve (ts t) then butlast (cb_sent s) else cb_sent s)"
    using assms unfolding order_ok_def by blast
  then show "r \<in> to_serve (ts t) \<Longrightarrow> subseq (history s r) (butlast (cb_sent s))"
    "\<forall>t. r \<notin> to_serve (ts t) \<Longrightarrow> subseq (history s r) (cb_sent s)"
    by (auto split: if_splits)
  have "subseq (butlast xs) (xs :: lin_frame list)" for xs
    by (cases xs rule: rev_cases) (simp_all add: subseq_append_right)
  then show "subseq (history s r) (cb_sent s)"
    using h subseq_order.trans by (auto split: if_splits)
qed

lemma order_okI:
  assumes "\<And>t. to_serve (ts t) \<noteq> {} \<Longrightarrow> cb_sent s \<noteq> [] \<and> serving (ts t) (last (cb_sent s))"
    and "\<And>r t. r \<in> to_serve (ts t) \<Longrightarrow> subseq (history s r) (butlast (cb_sent s))"
    and "\<And>r. \<forall>t. r \<notin> to_serve (ts t) \<Longrightarrow> subseq (history s r) (cb_sent s)"
  shows "order_ok ts s"
  using assms unfolding order_ok_def by auto

lemma to_serve_holds: "to_serve p \<noteq> {} \<Longrightarrow> holds p"
  by (cases p) auto

lemma begin_to_serve [simp]: "to_serve (fst (begin_call now c s)) = {}"
  using begin_call_frame(6) [of now c s] to_serve_holds by blast

text \<open>A step that touches no queue, sends nothing and neither starts nor continues a broadcast.\<close>

lemma order_unchanged:
  assumes "order_ok ts s" and "to_serve (ts t) = {}" and "to_serve p = {}"
    and "cb_sent s1 = cb_sent s" and "\<And>r. history s1 r = history s r"
  shows "order_ok (ts(t := p)) s1"
proof (rule order_okI)
  fix u
  assume "to_serve ((ts(t := p)) u) \<noteq> {}"
  then show "cb_sent s1 \<noteq> [] \<and> serving ((ts(t := p)) u) (last (cb_sent s1))"
    using assms order_okD(1) [OF assms(1)] by (cases "u = t") simp_all
next
  fix r u
  assume "r \<in> to_serve ((ts(t := p)) u)"
  then show "subseq (history s1 r) (butlast (cb_sent s1))"
    using assms order_okD(2) [OF assms(1)] by (cases "u = t") simp_all
next
  fix r
  show "subseq (history s1 r) (cb_sent s1)"
    using assms order_okD(4) [OF assms(1)] by simp
qed

lemma history_frame:
  "vb_heap (cb_bus s1) = vb_heap (cb_bus s) \<Longrightarrow> cb_received s1 = cb_received s \<Longrightarrow>
     history s1 r = history s r"
  by (simp add: history_def cell_queue_def)

lemma others_idle:
  assumes "mutex_ok (ts, s)" and "cb_holder s = Some t \<or> cb_holder s = None" and "u \<noteq> t"
  shows "to_serve (ts u) = {}"
proof (rule ccontr)
  assume "to_serve (ts u) \<noteq> {}"
  then have "holds (ts u)" by (rule to_serve_holds)
  then have "cb_holder s = Some u" using assms(1) by (simp add: mutex_ok_def)
  with assms(2,3) show False by auto
qed

text \<open>The two steps that matter: an exchange begins, and a subscriber is served.\<close>

lemma order_exchange:
  assumes "order_ok ts s" and "mutex_ok (ts, s)" and "cb_holder s = None"
    and "cb_sent s1 = cb_sent s @ [f]" and "\<And>r. history s1 r = history s r"
    and "serving p f"
  shows "order_ok (ts(t := p)) s1"
proof (rule order_okI)
  have idle: "to_serve (ts u) = {}" for u
    using assms(2,3) to_serve_holds [of "ts u"] by (fastforce simp: mutex_ok_def)
  {
    fix u
    assume "to_serve ((ts(t := p)) u) \<noteq> {}"
    then show "cb_sent s1 \<noteq> [] \<and> serving ((ts(t := p)) u) (last (cb_sent s1))"
      using assms(4,6) idle by (cases "u = t") simp_all
  next
    fix r u
    show "subseq (history s1 r) (butlast (cb_sent s1))"
      using assms(4,5) order_okD(4) [OF assms(1)] by simp
  next
    fix r
    show "subseq (history s1 r) (cb_sent s1)"
      using assms(4,5) order_okD(4) [OF assms(1), of r] by (simp add: subseq_append_right)
  }
qed

lemma subseq_push:
  assumes "subseq (xs @ queue c) ys"
  shows "subseq (xs @ queue (snd (push now f c))) (ys @ [f])"
proof -
  have "subseq (queue (snd (push now f c))) (queue c @ [f])"
    using subseq_admitted [of f c "[]"] by (simp add: push_queue subseq_append_right)
  then have "subseq (xs @ queue (snd (push now f c))) (xs @ queue c @ [f])"
    by (rule list_emb_append_mono [OF subseq_order.refl])
  moreover have "subseq ((xs @ queue c) @ [f]) (ys @ [f])"
    using assms by (rule list_emb_append_mono) simp
  ultimately show ?thesis by (simp add: subseq_order.trans)
qed

lemma order_serve:
  assumes ord: "order_ok ts s" and mutex: "mutex_ok (ts, s)"
    and p: "ts t = Broadcasting f (sub # subs) d e" "q = Broadcasting f subs d' e'"
    and ok: "pc_ok (heap_size s) (ts t)"
    and b: "b = snd (serve now f sub (cb_bus s))"
  shows "order_ok (ts(t := q)) (set_bus b s)"
proof (rule order_okI)
  let ?s = "set_bus b s" and ?r = "vs_cell sub"
  have "holds (ts t)" using p(1) by simp
  then have holder: "cb_holder s = Some t" using mutex by (simp add: mutex_ok_def)
  have idle: "to_serve (ts u) = {}" if "u \<noteq> t" for u
    using others_idle [OF mutex _ that] holder by simp
  have last: "cb_sent s \<noteq> []" "last (cb_sent s) = f"
    using order_okD(1) [OF ord, of t] p(1) by simp_all
  obtain ys where ys: "cb_sent s = ys @ [f]" using last by (metis append_butlast_last_id)
  have r: "?r < length (vb_heap (cb_bus s))" "?r \<notin> vs_cell ` set subs"
    using ok p(1) by (auto simp: heap_size_def)
  have other: "history ?s r' = history s r'" if "r' \<noteq> ?r" for r'
    using that b by (simp add: history_def cell_queue_def serve_eq)
  have mine: "subseq (history ?s ?r) (cb_sent s)"
  proof -
    have "subseq (cb_received s ?r @ queue (vb_heap (cb_bus s) ! ?r)) ys"
      using order_okD(2) [OF ord, of ?r t] p(1) r(1) ys by (simp add: history_def cell_queue_def)
    from subseq_push [OF this, of now f] order_okD(4) [OF ord, of ?r] ys r(1) b show ?thesis
      by (simp add: history_def cell_queue_def serve_eq)
  qed
  {
    fix u
    assume "to_serve ((ts(t := q)) u) \<noteq> {}"
    then show "cb_sent ?s \<noteq> [] \<and> serving ((ts(t := q)) u) (last (cb_sent ?s))"
      using idle last p(2) by (cases "u = t") simp_all
  next
    fix r' u
    assume a: "r' \<in> to_serve ((ts(t := q)) u)"
    then have "u = t" using idle by (cases "u = t") auto
    with a p(2) have rest: "r' \<in> vs_cell ` set subs" by simp
    have "r' \<noteq> ?r" using rest r(2) by metis
    moreover have "r' \<in> to_serve (ts t)" using rest p(1) by simp
    ultimately have "r' \<noteq> ?r" "r' \<in> to_serve (ts t)" .
    then show "subseq (history ?s r') (butlast (cb_sent ?s))"
      using other order_okD(2) [OF ord, of r' t] by simp
  next
    fix r'
    show "subseq (history ?s r') (cb_sent ?s)"
      using mine other [of r'] order_okD(4) [OF ord, of r'] by (cases "r' = ?r") simp_all
  }
qed

lemma look_up_history:
  "cb_received (snd (look_up t i s)) = cb_received s"
  "vb_heap (cb_bus (snd (look_up t i s))) = vb_heap (cb_bus s)"
  by (simp_all add: look_up_def Let_def count_error_def split: option.split sum.split)

lemma history_close: "history (set_bus (rx_close r (cb_bus s)) s) r' = history s r'"
  by (cases "r' = r") (auto simp: history_def cell_queue_def sub_close_def)

lemma micro_order:
  assumes step: "micro t now p0 s = Some (p, s1)" and p0: "ts t = p0"
    and ord: "order_ok ts s" and mutex: "mutex_ok (ts, s)" and ok: "pc_ok (heap_size s) p0"
  shows "order_ok (ts(t := p)) s1"
proof (cases "(t, now, p0, s)" rule: micro.cases)
  case (1 t' now' c s')
  then have pc: "ts t = Begin c" using p0 by simp
  have "begin_call now c s = (p, s1)" using step 1 by simp
  then have "p = fst (begin_call now c s)" "s1 = snd (begin_call now c s)" by simp_all
  then show ?thesis
    by (intro order_unchanged [OF ord]) (auto simp: pc intro!: history_frame)
next
  case (2 t' now' i d ct s')
  then show ?thesis
    using step p0 by (intro order_unchanged [OF ord]) (auto intro!: history_frame split: if_splits)
next
  case (3 t' now' flts c s')
  then have "queue c = []" using ok by simp
  then show ?thesis
    using step p0 3 by (intro order_unchanged [OF ord])
      (auto simp: history_def cell_queue_def nth_append less_Suc_eq split: if_splits)
next
  case (4 t' now' s')
  then show ?thesis
    using step p0 by (intro order_unchanged [OF ord]) (auto intro!: history_frame split: if_splits)
next
  case (5 t' now' sub subs s')
  then show ?thesis
    using step p0 by (intro order_unchanged [OF ord])
      (auto simp: history_close)
next
  case (6 t' now' s')
  then show ?thesis
    using step p0 by (intro order_unchanged [OF ord]) (auto intro!: history_frame)
next
  case (7 t' now' i s')
  then have free: "cb_holder s = None" and p: "(p, s1) = look_up t i s"
    using step by (auto split: if_splits)
  then have history: "history s1 r = history s r" for r
    using look_up_history [of t i s] by (intro history_frame) (auto simp: prod_eq_iff)
  from look_up_cases [of t i s] show ?thesis
  proof (elim disjE exE conjE)
    fix r
    assume "look_up t i s = (Broadcasting (response_frame i r) (live_subs (cb_bus s)) 0 0,
        s\<lparr>cb_bus := count_written (response_frame i r) (collected (cb_bus s)), cb_holder := Some t,
          cb_sent := cb_sent s @ [response_frame i r]\<rparr>)"
    then show ?thesis
      using p history by (intro order_exchange [OF ord mutex free, where f = "response_frame i r"]) auto
  qed (use 7 p0 p history in \<open>auto intro!: order_unchanged [OF ord]\<close>)
next
  case (8 t' now' f sub subs delivered dropped s')
  obtain v b where serve: "serve now f sub (cb_bus s) = (v, b)" by (cases "serve now f sub (cb_bus s)")
  then have "\<exists>d e. p = Broadcasting f subs d e" and s1: "s1 = set_bus b s"
    using step 8 by (auto split: option.splits bool.splits)
  then obtain d e where p: "p = Broadcasting f subs d e" by blast
  have pc: "ts t = Broadcasting f (sub # subs) delivered dropped" using 8 p0 by simp
  have "b = snd (serve now f sub (cb_bus s))" using serve by simp
  from order_serve [OF ord mutex pc p ok [folded p0] this] show ?thesis unfolding s1 .
next
  case (9 t' now' f delivered dropped s')
  then show ?thesis
    using step p0 by (intro order_unchanged [OF ord]) (auto intro!: history_frame)
next
  case (10 t' now' f delivered dropped s')
  then show ?thesis
    using step p0 by (intro order_unchanged [OF ord]) (auto intro!: history_frame)
next
  case (11 t' now' es s')
  then show ?thesis
    using step p0 by (intro order_unchanged [OF ord]) (auto intro!: history_frame split: if_splits)
next
  case (12 t' now' r s')
  then show ?thesis using step by simp
qed

text \<open>The receivers' steps.\<close>

lemma poll_history:
  assumes "r < length (vb_heap (cb_bus s))" and "rx_recv r (cb_bus s) = (p, b)"
  shows "history (note_received r p (set_bus b s)) r' = history s r'"
  using assms
  by (auto simp: history_def cell_queue_def rx_recv_def recv_poll_eq note_received_def nth_list_update
      split: list.splits if_splits)

lemma note_received_sel [simp]:
  "cb_bus (note_received r p s) = cb_bus s" "cb_holder (note_received r p s) = cb_holder s"
  "cb_sent (note_received r p s) = cb_sent s"
  by (auto simp: note_received_def split: poll.split option.split)

section \<open>The invariant of all interleavings\<close>

definition conc_inv :: "system \<Rightarrow> bool" where
  "conc_inv x \<longleftrightarrow> mutex_ok x \<and> tasks_ok x \<and> order_ok (fst x) (snd x)"

lemma order_same_tasks:
  assumes "order_ok ts s" and "cb_sent s1 = cb_sent s" and "\<And>r. history s1 r = history s r"
  shows "order_ok ts s1"
  using assms(1) unfolding order_ok_def by (simp only: assms(2,3)) blast

lemma conc_inv_start: "conc_inv conc_start"
  by (simp add: conc_inv_def conc_start_def mutex_ok_def tasks_ok_def order_ok_def conc_bus_new_def
      history_def cell_queue_def virtual_bus_new_def bus_ok_def bus_inner_new_def)

lemma conc_step_inv:
  assumes "conc_step l x y" and "conc_inv x"
  shows "conc_inv y"
  using assms(1)
proof cases
  case (conc_task t now ts s p s1)
  have inv: "mutex_ok (ts, s)" "bus_ok (cb_bus s)" "\<And>u. pc_ok (heap_size s) (ts u)" "order_ok ts s"
    using assms(2) conc_task(2) by (simp_all add: conc_inv_def tasks_ok_def)
  from micro_tasks_ok [OF conc_task(4) inv(2,3)]
  have ok: "bus_ok (cb_bus s1)" "heap_size s \<le> heap_size s1" "pc_ok (heap_size s1) p" by simp_all
  then have "pc_ok (heap_size s1) ((ts(t := p)) u)" for u
    using pc_ok_mono [OF inv(3)] by simp
  with ok(1) show ?thesis
    using micro_mutex [OF conc_task(4) inv(1)] micro_order [OF conc_task(4) refl inv(4,1,3)] conc_task(3)
    by (simp add: conc_inv_def tasks_ok_def)
next
  case (conc_call ts t r c s)
  have inv: "mutex_ok (ts, s)" "tasks_ok (ts, s)" "order_ok ts s"
    using assms(2) conc_call(2) by (simp_all add: conc_inv_def)
  have "mutex_ok (ts(t := Begin c), s)"
    using conc_call(4) by (intro mutex_update [OF inv(1)]) simp
  moreover have "order_ok (ts(t := Begin c)) s"
    using conc_call(4) by (intro order_unchanged [OF inv(3)]) simp_all
  ultimately show ?thesis
    using inv(2) conc_call(3) by (simp add: conc_inv_def tasks_ok_def)
next
  case (conc_poll r s p b ts)
  have inv: "mutex_ok (ts, s)" "tasks_ok (ts, s)" "order_ok ts s"
    using assms(2) conc_poll(2) by (simp_all add: conc_inv_def)
  have "length (vb_heap b) = length (vb_heap (cb_bus s))" "bus_ok b"
    using conc_poll(4,5) inv(2) bus_ok_recv [of "cb_bus s" r]
    by (auto simp: rx_recv_def tasks_ok_def split: prod.splits)
  with inv conc_poll show ?thesis
    using order_same_tasks [OF inv(3) _ poll_history [OF conc_poll(4,5)]]
    by (simp add: conc_inv_def tasks_ok_def mutex_ok_def heap_size_def)
next
  case (conc_rx_close r s ts)
  have inv: "mutex_ok (ts, s)" "tasks_ok (ts, s)" "order_ok ts s"
    using assms(2) conc_rx_close(2) by (simp_all add: conc_inv_def)
  show ?thesis
    using inv conc_rx_close history_close
      order_same_tasks [OF inv(3), of "set_bus (rx_close r (cb_bus s)) s"]
    by (simp add: conc_inv_def tasks_ok_def mutex_ok_def heap_size_def bus_ok_close)
qed

lemma conc_run_inv: "conc_run ls x y \<Longrightarrow> conc_inv x \<Longrightarrow> conc_inv y"
  by (induction rule: conc_run.induct) (auto intro: conc_step_inv)

section \<open>Running a given interleaving\<close>

text \<open>
  An executable scheduler: which task runs with which clock reading, who calls what, which
  receiver is polled.  It yields the labels of the steps and the last state.
\<close>

datatype action = Run nat instant | Call nat task_call | Receive nat

fun perform :: "action \<Rightarrow> system \<Rightarrow> (label \<times> system) option" where
  "perform (Run t now) (ts, s) =
     (case micro t now (ts t) s of
        None \<Rightarrow> None
      | Some (p, s1) \<Rightarrow> Some (TaskStep t, (ts(t := p), s1)))"
| "perform (Call t c) (ts, s) =
     (case ts t of Returned _ \<Rightarrow> Some (NewCall t c, (ts(t := Begin c), s)) | _ \<Rightarrow> None)"
| "perform (Receive r) (ts, s) =
     (if r < length (vb_heap (cb_bus s)) then
        (case rx_recv r (cb_bus s) of (p, b) \<Rightarrow> Some (Poll r, (ts, note_received r p (set_bus b s))))
      else None)"

fun perform_all :: "action list \<Rightarrow> system \<Rightarrow> (label list \<times> system) option" where
  "perform_all [] x = Some ([], x)"
| "perform_all (a # as) x =
     (case perform a x of
        None \<Rightarrow> None
      | Some (l, y) \<Rightarrow>
          (case perform_all as y of None \<Rightarrow> None | Some (ls, z) \<Rightarrow> Some (l # ls, z)))"

lemma perform_step: "perform a x = Some (l, y) \<Longrightarrow> conc_step l x y"
  by (cases "(a, x)" rule: perform.cases)
    (auto intro: conc_step.intros split: option.splits pc.splits prod.splits if_splits)

lemma conc_run_Cons: "conc_run ls y z \<Longrightarrow> conc_step l x y \<Longrightarrow> conc_run (l # ls) x z"
proof (induction rule: conc_run.induct)
  case (run_refl y)
  then show ?case using conc_run.run_step [OF conc_run.run_refl] by fastforce
next
  case (run_step ls y z l' w)
  then have "conc_run ((l # ls) @ [l']) x w" by (intro conc_run.run_step) auto
  then show ?case by simp
qed

lemma perform_all_run: "perform_all as x = Some (ls, z) \<Longrightarrow> conc_run ls x z"
proof (induction as arbitrary: x ls)
  case Nil
  then show ?case by (simp add: conc_run.run_refl)
next
  case (Cons a as)
  then obtain l y ls' where "perform a x = Some (l, y)" "perform_all as y = Some (ls', z)" "ls = l # ls'"
    by (auto split: option.splits)
  with Cons.IH show ?case using conc_run_Cons perform_step by blast
qed

text \<open>Two subscribers; a poll of the first between its service and that of the second.\<close>

definition shared_schedule :: "action list" where
  "shared_schedule =
     [Call 0 (TSubscribe [] demo_options), Run 0 0, Run 0 0,
      Call 0 (TSubscribe [] demo_options), Run 0 0, Run 0 0,
      Call 0 (TPublish 0x10 (Some [1, 2]) Enhanced), Run 0 0, Run 0 0,
      Call 0 (TSend 0x10), Run 0 0, Run 0 0, Run 0 0, Receive 0]"

definition shared_frame :: lin_frame where
  "shared_frame = response_frame 0x10 \<lparr>sr_data = [1, 2], sr_checksum_type = Enhanced\<rparr>"

lemma shared_frame_valid:
  "validate_frame (response_frame 0x10 \<lparr>sr_data = [1, 2], sr_checksum_type = Enhanced\<rparr>) = Inr ()"
  by (simp add: validate_frame_def lin_defs word_less_nat_alt)

lemma shared_schedule_run:
  "\<exists>ls ts s. perform_all shared_schedule conc_start = Some (ls, (ts, s)) \<and>
     (\<exists>subs. ts 0 = Broadcasting shared_frame subs 1 0 \<and> length subs = 1) \<and>
     cb_received s 0 = [shared_frame] \<and> cb_sent s = [shared_frame] \<and> heap_size s = 2"
  by (simp add: shared_schedule_def shared_frame_def conc_start_def conc_bus_new_def virtual_bus_new_def
      bus_inner_new_def sub_inner_new_def chan_depth_def demo_options_def add_subscriber_def
      put_response_def look_up_def collected_def live_subs_def count_written_def Let_def
      shared_frame_valid serve_eq vs_matches_def push_unlimited enqueue_def rx_recv_def recv_poll_eq
      note_received_def heap_size_def LIN_MAX_ID_def LIN_MAX_DATA_LEN_def stored_type_def
      is_diagnostic_def LIN_DIAG_REQUEST_ID_def LIN_DIAG_RESPONSE_ID_def word_less_nat_alt)

section \<open>A task that nobody interrupts\<close>

text \<open>\<open>n\<close> steps of task \<open>t\<close>; step \<open>j\<close> reads the clock as \<open>ck j\<close>, counted from \<open>k\<close>.\<close>

fun alone :: "nat \<Rightarrow> (nat \<Rightarrow> instant) \<Rightarrow> nat \<Rightarrow> nat \<Rightarrow> pc \<times> conc_bus \<Rightarrow> (pc \<times> conc_bus) option" where
  "alone t ck k 0 x = Some x"
| "alone t ck k (Suc n) (p, s) =
     (case micro t (ck k) p s of None \<Rightarrow> None | Some y \<Rightarrow> alone t ck (Suc k) n y)"

lemma alone_run:
  "alone t ck k n (p, s) = Some (q, s1) \<Longrightarrow> ts t = p \<Longrightarrow>
     conc_run (replicate n (TaskStep t)) (ts, s) (ts(t := q), s1)"
proof (induction n arbitrary: k p s ts)
  case 0
  then show ?case using conc_run.run_refl [of "(ts, s)"] fun_upd_triv [of ts t] by simp
next
  case (Suc n)
  then obtain p' s' where m: "micro t (ck k) p s = Some (p', s')"
    and r: "alone t ck (Suc k) n (p', s') = Some (q, s1)"
    by (auto split: option.splits)
  have "conc_run (replicate n (TaskStep t)) (ts(t := p'), s') ((ts(t := p'))(t := q), s1)"
    by (rule Suc.IH [OF r]) simp
  moreover have "conc_step (TaskStep t) (ts, s) (ts(t := p'), s')"
    using m Suc.prems(2) by (auto intro: conc_task)
  ultimately have "conc_run (TaskStep t # replicate n (TaskStep t)) (ts, s) ((ts(t := p'))(t := q), s1)"
    by (rule conc_run_Cons)
  then show ?case by (simp only: fun_upd_upd replicate_Suc)
qed

lemma alone_append:
  "alone t ck k m x = Some y \<Longrightarrow> alone t ck (k + m) n y = Some z \<Longrightarrow> alone t ck k (m + n) x = Some z"
proof (induction m arbitrary: k x)
  case (Suc m)
  then show ?case by (cases x) (auto split: option.splits)
qed simp

lemma alone_broadcast:
  "alone t ck k (length subs) (Broadcasting f subs d e, s) =
     Some (Broadcasting f [] (fst (fst (broadcast_from ck k f subs (d, e) (vb_heap (cb_bus s)))))
              (snd (fst (broadcast_from ck k f subs (d, e) (vb_heap (cb_bus s))))),
           set_bus ((cb_bus s)\<lparr>vb_heap := snd (broadcast_from ck k f subs (d, e) (vb_heap (cb_bus s)))\<rparr>) s)"
proof (induction subs arbitrary: k d e s)
  case (Cons sub subs)
  then show ?case by (simp add: serve_eq)
qed simp

lemma alone_close:
  "alone t ck k (length subs) (Closing subs, s) =
     Some (Closing [], set_bus ((cb_bus s)\<lparr>vb_heap := close_cells subs (vb_heap (cb_bus s))\<rparr>) s)"
proof (induction subs arbitrary: k s)
  case (Cons sub subs)
  then show ?case by (simp add: rx_close_def)
qed simp

lemma broadcast_from_shift:
  "broadcast_from (\<lambda>j. ck (j + m)) k f subs cnt h = broadcast_from ck (k + m) f subs cnt h"
  by (induction subs arbitrary: k cnt h) simp_all

fun call_of :: "(nat \<Rightarrow> instant) \<Rightarrow> context_t \<Rightarrow> task_call \<Rightarrow> bus_call" where
  "call_of ck ctx (TPublish i d ct) = CallPublish i d ct"
| "call_of ck ctx (TSubscribe flts opts) = CallSubscribe flts opts (ck 0)"
| "call_of ck ctx TClose = CallClose"
| "call_of ck ctx (TSend i) = CallSend (\<lambda>j. ck (j + 2)) ctx i"
| "call_of ck ctx (TSchedule es) = CallSchedule es"

definition finishes_as :: "nat \<Rightarrow> (nat \<Rightarrow> instant) \<Rightarrow> nat \<Rightarrow> task_call \<Rightarrow> conc_bus \<Rightarrow>
    bus_reply \<times> virtual_bus \<Rightarrow> bool" where
  "finishes_as t ck n c s res \<longleftrightarrow>
     (\<exists>s1. alone t ck 0 n (Begin c, s) = Some (Returned (fst res), s1) \<and>
        cb_bus s1 = snd res \<and> cb_holder s1 = None)"

lemma alone_publish:
  assumes "cb_holder s = None"
  shows "\<exists>n. finishes_as t ck n (TPublish i d ct) s (vb_call (CallPublish i d ct) (cb_bus s))"
proof (cases "fst (publish_with_type i d ct (cb_bus s)) = Inr ()")
  case True
  then have "finishes_as t ck 2 (TPublish i d ct) s (vb_call (CallPublish i d ct) (cb_bus s))"
    using assms by (auto simp: finishes_as_def numeral_2_eq_2 publish_with_type_result
        publish_with_type_state put_response_def Let_def split: if_splits option.splits)
  then show ?thesis ..
next
  case False
  then have "finishes_as t ck 1 (TPublish i d ct) s (vb_call (CallPublish i d ct) (cb_bus s))"
    using assms by (auto simp: finishes_as_def publish_with_type_result
        publish_with_type_state Let_def split: if_splits option.splits)
  then show ?thesis ..
qed

lemma alone_subscribe:
  assumes "cb_holder s = None"
  shows "\<exists>n. finishes_as t ck n (TSubscribe flts opts) s
    (vb_call (CallSubscribe flts opts (ck 0)) (cb_bus s))"
proof -
  have "finishes_as t ck (if vb_closed (cb_bus s) then 1 else 2) (TSubscribe flts opts) s
    (vb_call (CallSubscribe flts opts (ck 0)) (cb_bus s))"
    using assms by (simp add: finishes_as_def numeral_2_eq_2 vb_subscribe_def add_subscriber_def Let_def)
  then show ?thesis ..
qed

lemma alone_schedule:
  assumes "cb_holder s = None"
  shows "\<exists>n. finishes_as t ck n (TSchedule es) s (vb_call (CallSchedule es) (cb_bus s))"
proof -
  have "finishes_as t ck (if vb_closed (cb_bus s) \<or> check_entries es \<noteq> Inr () then 1 else 2) (TSchedule es) s
    (vb_call (CallSchedule es) (cb_bus s))"
    using assms by (auto simp: finishes_as_def numeral_2_eq_2 vb_set_schedule_def split: sum.split)
  then show ?thesis ..
qed

lemma alone_closes:
  assumes "cb_holder s = None"
  shows "\<exists>n. finishes_as t ck n TClose s (vb_call CallClose (cb_bus s))"
proof (cases "vb_closed (cb_bus s)")
  case True
  then have "finishes_as t ck 1 TClose s (vb_call CallClose (cb_bus s))"
    using assms by (simp add: finishes_as_def vb_close_def)
  then show ?thesis ..
next
  case False
  let ?b = "(cb_bus s)\<lparr>vb_closed := True\<rparr>"
  let ?s = "s\<lparr>cb_bus := ?b, cb_holder := Some t\<rparr>"
  have "alone t ck 0 2 (Begin TClose, s) = Some (Closing (vb_subs (cb_bus s)), ?s)"
    using False assms by (simp add: numeral_2_eq_2)
  from alone_append [OF this alone_close]
  have closing: "alone t ck 0 (2 + length (vb_subs (cb_bus s))) (Begin TClose, s) =
      Some (Closing [], set_bus (?b\<lparr>vb_heap := close_cells (vb_subs (cb_bus s)) (vb_heap ?b)\<rparr>) ?s)"
    by simp
  have "alone t ck 0 (2 + length (vb_subs (cb_bus s)) + 1) (Begin TClose, s) =
      Some (Returned (ReplyUnit (Inr ())), (set_bus (snd (vb_close (cb_bus s))) s)\<lparr>cb_holder := None\<rparr>)"
    by (rule alone_append [OF closing]) (use False in \<open>simp add: vb_close_def Let_def\<close>)
  moreover have "fst (vb_close (cb_bus s)) = Inr ()" by (simp add: vb_close_def Let_def)
  ultimately have "finishes_as t ck (2 + length (vb_subs (cb_bus s)) + 1) TClose s
      (vb_call CallClose (cb_bus s))"
    unfolding finishes_as_def by simp
  then show ?thesis ..
qed

lemma alone_sends:
  assumes free: "cb_holder s = None"
  shows "\<exists>n. finishes_as t ck n (TSend i) s (vb_call (CallSend (\<lambda>j. ck (j + 2)) ctx i) (cb_bus s))"
proof (cases "fst (vb_send_header (\<lambda>j. ck (j + 2)) ctx i (cb_bus s))")
  case (Inl e)
  then have "finishes_as t ck (if vb_closed (cb_bus s) \<or> i > LIN_MAX_ID then 1 else 2) (TSend i) s
      (vb_call (CallSend (\<lambda>j. ck (j + 2)) ctx i) (cb_bus s))"
    using free by (auto simp: finishes_as_def numeral_2_eq_2 vb_send_header_eq look_up_def Let_def
        collected_def split: option.splits sum.splits if_splits)
  then show ?thesis ..
next
  case (Inr f)
  then obtain r where open_bus: "\<not> vb_closed (cb_bus s)" "\<not> i > LIN_MAX_ID"
    and r: "vb_responses (cb_bus s) i = Some r" and f: "f = response_frame i r"
    and valid: "validate_frame f = Inr ()"
    by (auto simp: send_header_ok_iff not_less)
  let ?b = "count_written f (collected (cb_bus s))" and ?subs = "live_subs (cb_bus s)"
  let ?s = "s\<lparr>cb_bus := ?b, cb_holder := Some t, cb_sent := cb_sent s @ [f]\<rparr>"
  let ?r = "broadcast_from ck 2 f ?subs (0, 0) (vb_heap (cb_bus s))"
  have two: "alone t ck 0 2 (Begin (TSend i), s) = Some (Broadcasting f ?subs 0 0, ?s)"
    using open_bus r f valid free
    by (simp add: numeral_2_eq_2 look_up_def Let_def collected_def)
  have cast: "alone t ck 0 (2 + length ?subs) (Begin (TSend i), s) =
      Some (Broadcasting f [] (fst (fst ?r)) (snd (fst ?r)), set_bus (?b\<lparr>vb_heap := snd ?r\<rparr>) ?s)"
    by (rule alone_append [OF two])
      (simp only: add_0 alone_broadcast, simp add: collected_def)
  have "alone t ck 0 (2 + length ?subs + 2) (Begin (TSend i), s) =
      Some (Returned (ReplyFrame (Inr f)),
        (set_bus (count_delivered f (fst (fst ?r)) (snd (fst ?r)) (?b\<lparr>vb_heap := snd ?r\<rparr>)) ?s)
          \<lparr>cb_holder := None\<rparr>)"
    by (rule alone_append [OF cast]) (simp add: numeral_2_eq_2)
  moreover have "snd (vb_send_header (\<lambda>j. ck (j + 2)) ctx i (cb_bus s)) =
      count_delivered f (fst (fst ?r)) (snd (fst ?r)) (?b\<lparr>vb_heap := snd ?r\<rparr>)"
    using send_header_ok_state [OF Inr] broadcast_from_shift [of ck 2 0 f ?subs "(0, 0)"]
    by (simp add: numeral_2_eq_2 exchanged_def Let_def count_delivered_def count_written_def collected_def)
  ultimately have "finishes_as t ck (2 + length ?subs + 2) (TSend i) s
      (vb_call (CallSend (\<lambda>j. ck (j + 2)) ctx i) (cb_bus s))"
    using Inr unfolding finishes_as_def by simp
  then show ?thesis ..
qed

text \<open>
  The methods as single steps are the methods as tasks that are not interrupted: from any
  state with the mutex free, a task that runs alone completes its call, with the reply and the
  bus the method of \<open>Virtual_Bus\<close> computes, and leaves the mutex free.
\<close>

theorem method_runs_alone:
  assumes "ts t = Begin c" and "cb_holder s = None"
  shows "\<exists>n s1. conc_run (replicate n (TaskStep t)) (ts, s)
      (ts(t := Returned (fst (vb_call (call_of ck ctx c) (cb_bus s)))), s1) \<and>
    cb_bus s1 = snd (vb_call (call_of ck ctx c) (cb_bus s)) \<and> cb_holder s1 = None"
proof -
  have "\<exists>n. finishes_as t ck n c s (vb_call (call_of ck ctx c) (cb_bus s))"
    using assms(2) alone_publish alone_subscribe alone_closes alone_sends alone_schedule
    by (cases c) (simp_all del: vb_call.simps)
  with alone_run [where ts = ts and t = t, OF _ assms(1)] show ?thesis unfolding finishes_as_def by meson
qed

theorem method_runs_alone_witness:
  "\<exists>n s1. conc_run (replicate n (TaskStep 0)) ((\<lambda>t. Begin TClose), conc_bus_new)
      ((\<lambda>t. Begin TClose)(0 := Returned (ReplyUnit (Inr ()))), s1) \<and> vb_closed (cb_bus s1)"
  using method_runs_alone [of "\<lambda>t. Begin TClose" 0 TClose conc_bus_new "\<lambda>j. 0" context_background]
  by (fastforce simp: conc_bus_new_def vb_close_def virtual_bus_new_def Let_def)

section \<open>What holds under every interleaving\<close>

text \<open>
  C8: However publishers, masters, subscribers, receivers and closing tasks interleave inside
  the methods of the bus, there is one order of all exchanges, the order in which they held
  the mutex, and what any receiver has received and has queued is a subsequence of it: no
  receiver sees a frame twice, out of order, or one that was not sent.
\<close>

theorem concurrent_total_order:
  assumes "conc_run ls conc_start (ts, s)"
  shows "subseq (cb_received s r @ cell_queue (cb_bus s) r) (cb_sent s)"
proof -
  have "order_ok ts s"
    using conc_run_inv [OF assms conc_inv_start] by (simp add: conc_inv_def)
  from order_okD(4) [OF this] show ?thesis by (simp add: history_def)
qed

theorem concurrent_total_order_witness:
  "\<exists>s :: conc_bus. cb_received s 0 = [shared_frame] \<and>
     subseq (cb_received s 0 @ cell_queue (cb_bus s) 0) (cb_sent s) \<and> cb_sent s = [shared_frame]"
proof -
  obtain ls ts s where "perform_all shared_schedule conc_start = Some (ls, (ts, s))"
    and "cb_received s 0 = [shared_frame]" "cb_sent s = [shared_frame]"
    using shared_schedule_run by blast
  then show ?thesis
    using concurrent_total_order [OF perform_all_run, of shared_schedule ls ts s 0]
    by - (rule exI [of _ s], simp)
qed

text \<open>
  Under every interleaving at most one task is inside a critical section and it is the
  holder of the mutex; registered responses and the schedule stay valid, the references to
  subscriber cells stay valid and distinct, every queue stays within its capacity, and every
  frame a master gets back is valid.
\<close>

theorem concurrent_invariant:
  assumes "conc_run ls conc_start (ts, s)"
  shows "(holds (ts t) \<longleftrightarrow> cb_holder s = Some t) \<and> bus_ok (cb_bus s) \<and>
    pc_ok (heap_size s) (ts t)"
  using conc_run_inv [OF assms conc_inv_start]
  by (simp add: conc_inv_def mutex_ok_def tasks_ok_def)

theorem concurrent_invariant_witness:
  "\<exists>ts (s :: conc_bus). holds (ts (0 :: nat)) \<and> cb_holder s = Some 0 \<and> bus_ok (cb_bus s) \<and> heap_size s = 2 \<and>
     pc_ok 2 (ts 0)"
proof -
  obtain ls ts s subs where "perform_all shared_schedule conc_start = Some (ls, (ts, s))"
    and "ts 0 = Broadcasting shared_frame subs 1 0" "heap_size s = 2"
    using shared_schedule_run by blast
  then show ?thesis
    using concurrent_invariant [OF perform_all_run, of shared_schedule ls ts s 0]
    by - (rule exI [of _ ts], rule exI [of _ s], simp)
qed

end
