(* ===== verification/Bus_Linearizable.thy ===== *)
theory Bus_Linearizable
  imports Bus_Concurrency
begin

text \<open>
  The virtual bus as a linearizable object.  The tasks of \<open>Bus_Concurrency\<close> call the methods of
  \<open>src/virtual_bus/mod.rs\<close> in overlapping fashion; an outside observer sees the calls, their
  replies, and what the receivers get.  The atomic bus is the specification of
  \<open>Virtual_Bus_Spec\<close> in which a call takes effect as a whole at one moment between its
  invocation and its response.  Every observation of the code's model is one of the atomic bus,
  as long as nobody closes the bus and receivers act only while no broadcast is under way.

  Both conditions matter: \<open>close\<close> is not atomic (\<open>Bus_Closing\<close>), and with polls during a
  broadcast one receiver can return the frame and then another one report an empty queue.
\<close>

section \<open>What an observer sees\<close>

datatype event =
    Invoke nat task_call
  | Respond nat bus_reply
  | Polled nat "lin_frame option poll"
  | RxClosed nat

definition answer :: "nat \<Rightarrow> pc \<Rightarrow> event list" where
  "answer t p = (case p of Returned r \<Rightarrow> [Respond t r] | _ \<Rightarrow> [])"

fun observed :: "label \<Rightarrow> system \<Rightarrow> system \<Rightarrow> event list" where
  "observed (TaskStep t) x y = answer t (fst y t)"
| "observed (NewCall t c) x y = [Invoke t c]"
| "observed (Poll r) x y = [Polled r (fst (rx_recv r (cb_bus (snd x))))]"
| "observed (CloseReceiver r) x y = [RxClosed r]"

text \<open>Nobody closes the bus, and receivers act only while the mutex is free.\<close>

fun undisturbed :: "label \<Rightarrow> system \<Rightarrow> bool" where
  "undisturbed (TaskStep t) x \<longleftrightarrow> True"
| "undisturbed (NewCall t c) x \<longleftrightarrow> c \<noteq> TClose"
| "undisturbed (Poll r) x \<longleftrightarrow> cb_holder (snd x) = None"
| "undisturbed (CloseReceiver r) x \<longleftrightarrow> cb_holder (snd x) = None"

inductive conc_trace :: "event list \<Rightarrow> system \<Rightarrow> bool" where
  trace_start: "conc_trace [] conc_start"
| trace_step: "conc_trace es x \<Longrightarrow> conc_step l x y \<Longrightarrow> undisturbed l x \<Longrightarrow>
    conc_trace (es @ observed l x y) y"

section \<open>The atomic bus\<close>

datatype phase = Idle | Called task_call | Answered bus_reply

text \<open>
  The call of the specification a task's call stands for; \<open>now\<close> is the clock when a
  subscriber is made, \<open>clk\<close> the readings during a broadcast.
\<close>

fun atomic_call :: "instant \<Rightarrow> (nat \<Rightarrow> instant) \<Rightarrow> task_call \<Rightarrow> bus_call" where
  "atomic_call now clk (TPublish i d ct) = CallPublish i d ct"
| "atomic_call now clk (TSubscribe flts opts) = CallSubscribe flts opts now"
| "atomic_call now clk TClose = CallClose"
| "atomic_call now clk (TSend i) = CallSend clk context_background i"
| "atomic_call now clk (TSchedule es) = CallSchedule es"

inductive atomic_run :: "event list \<Rightarrow> (nat \<Rightarrow> phase) \<times> spec_bus \<Rightarrow> bool" where
  atomic_start: "atomic_run [] (\<lambda>_. Idle, spec_new)"
| atomic_invoke: "atomic_run es (ph, a) \<Longrightarrow> ph t = Idle \<Longrightarrow>
    atomic_run (es @ [Invoke t c]) (ph(t := Called c), a)"
| atomic_effect: "atomic_run es (ph, a) \<Longrightarrow> ph t = Called c \<Longrightarrow>
    spec_call (atomic_call now clk c) a = (r, a1) \<Longrightarrow> atomic_run es (ph(t := Answered r), a1)"
| atomic_respond: "atomic_run es (ph, a) \<Longrightarrow> ph t = Answered r \<Longrightarrow>
    atomic_run (es @ [Respond t r]) (ph(t := Idle), a)"
| atomic_poll: "atomic_run es (ph, a) \<Longrightarrow> spec_call (CallRecv r) a = (ReplyPoll p, a1) \<Longrightarrow>
    atomic_run (es @ [Polled r p]) (ph, a1)"
| atomic_rx_close: "atomic_run es (ph, a) \<Longrightarrow> r < length (sp_rxs a) \<Longrightarrow>
    atomic_run (es @ [RxClosed r]) (ph, spec_rx_close r a)"

section \<open>The simulation relation\<close>

text \<open>
  \<open>B\<close> is the bus after the calls that have taken effect.  It has the registrations, the
  subscribers and the cells of the real bus, except while a task broadcasts: then the call
  has not taken effect, and the real bus is ahead by the subscribers served so far.
\<close>

definition same_bus :: "virtual_bus \<Rightarrow> virtual_bus \<Rightarrow> bool" where
  "same_bus b c \<longleftrightarrow> vb_inner b = vb_inner c \<and> vb_heap b = vb_heap c"

definition sending :: "lin_frame \<Rightarrow> virtual_sub list \<Rightarrow> u8 \<Rightarrow> virtual_bus \<Rightarrow> virtual_bus \<Rightarrow> bool" where
  "sending f subs i B b \<longleftrightarrow> (\<exists>r clk served. vb_responses B i = Some r \<and> f = response_frame i r \<and>
     validate_frame f = Inr () \<and> live_subs B = served @ subs \<and>
     vb_inner b = vb_inner (collected B) \<and>
     vb_heap b = snd (broadcast_from clk 0 f served (0, 0) (vb_heap B)))"

definition bus_link :: "(nat \<Rightarrow> pc) \<Rightarrow> (nat \<Rightarrow> phase) \<Rightarrow> conc_bus \<Rightarrow> virtual_bus \<Rightarrow> bool" where
  "bus_link ts ph s B \<longleftrightarrow>
     (case cb_holder s of
        None \<Rightarrow> same_bus (cb_bus s) B
      | Some t \<Rightarrow> (\<exists>f subs d e i. ts t = Broadcasting f subs d e \<and> ph t = Called (TSend i) \<and>
          i \<le> LIN_MAX_ID \<and> sending f subs i B (cb_bus s)))"

fun pc_link :: "pc \<Rightarrow> phase \<Rightarrow> bool" where
  "pc_link (Begin c) q \<longleftrightarrow> q = Called c \<and> c \<noteq> TClose"
| "pc_link (Inserting i d ct) q \<longleftrightarrow> i \<le> LIN_MAX_ID \<and>
     (\<forall>x. d = Some x \<longrightarrow> length x \<le> LIN_MAX_DATA_LEN) \<and>
     (\<exists>ct0. q = Called (TPublish i d ct0) \<and> ct = stored_type i ct0)"
| "pc_link (Joining flts c) q \<longleftrightarrow> (\<exists>opts now. q = Called (TSubscribe flts opts) \<and>
     c = sub_inner_new (chan_depth opts 64) (back_pressure opts) (rate_limit_per_sec opts) now)"
| "pc_link Shutting q \<longleftrightarrow> False"
| "pc_link (Closing subs) q \<longleftrightarrow> False"
| "pc_link (Looking i) q \<longleftrightarrow> q = Called (TSend i) \<and> i \<le> LIN_MAX_ID"
| "pc_link (Broadcasting f subs d e) q \<longleftrightarrow> (\<exists>i. q = Called (TSend i))"
| "pc_link (Counting f d e) q \<longleftrightarrow> q = Answered (ReplyFrame (Inr f))"
| "pc_link (Installing es) q \<longleftrightarrow> q = Called (TSchedule es) \<and> check_entries es = Inr ()"
| "pc_link (Returned r) q \<longleftrightarrow> q = Idle"

definition linked :: "(nat \<Rightarrow> pc) \<Rightarrow> (nat \<Rightarrow> phase) \<Rightarrow> conc_bus \<Rightarrow> virtual_bus \<Rightarrow> bool" where
  "linked ts ph s B \<longleftrightarrow> \<not> vb_closed (cb_bus s) \<and> \<not> vb_closed B \<and>
     (\<forall>t. pc_link (ts t) (ph t)) \<and> bus_link ts ph s B"

text \<open>A step of a task that neither holds nor takes the mutex, and one while nobody holds it.\<close>

lemma linked_frame:
  assumes "linked ts ph s B" and "pc_link p q" and "cb_holder s1 = cb_holder s"
    and "cb_holder s \<noteq> Some t" and "same_bus (cb_bus s1) (cb_bus s)" and "same_bus B1 B"
    and "\<not> vb_closed (cb_bus s1)" and "\<not> vb_closed B1"
  shows "linked (ts(t := p)) (ph(t := q)) s1 B1"
  using assms
  by (auto simp: linked_def bus_link_def same_bus_def sending_def live_subs_def collected_def
      split: option.splits)

lemma linked_free:
  assumes "linked ts ph s B" and "pc_link p q" and "cb_holder s1 = None"
    and "same_bus (cb_bus s1) B1" and "\<not> vb_closed (cb_bus s1)" and "\<not> vb_closed B1"
  shows "linked (ts(t := p)) (ph(t := q)) s1 B1"
  using assms by (auto simp: linked_def bus_link_def)

text \<open>A call takes effect, and is answered if the task returns at once.\<close>

lemma effect:
  assumes "atomic_run es (ph, a)" and "refines B a" and "ph t = Called c"
    and "vb_call (atomic_call now clk c) B = (r, B1)"
  shows "\<exists>a1. atomic_run es (ph(t := Answered r), a1) \<and> refines B1 a1"
proof -
  obtain a1 where "spec_call (atomic_call now clk c) a = (r, a1)" "refines B1 a1"
    using sim_call [OF assms(2), of "atomic_call now clk c"] assms(4)
    by (cases "spec_call (atomic_call now clk c) a") auto
  with atomic_effect [OF assms(1,3)] show ?thesis by blast
qed

lemma effect_respond:
  assumes "atomic_run es (ph, a)" and "refines B a" and "ph t = Called c"
    and "vb_call (atomic_call now clk c) B = (r, B1)"
  shows "\<exists>a1. atomic_run (es @ [Respond t r]) (ph(t := Idle), a1) \<and> refines B1 a1"
proof -
  obtain a1 where "atomic_run es (ph(t := Answered r), a1)" "refines B1 a1"
    using effect [OF assms] by blast
  with atomic_respond [where t = t and r = r, OF this(1)] show ?thesis by auto
qed

section \<open>The steps\<close>

lemma broadcast_from_clock:
  "(\<And>j. k \<le> j \<Longrightarrow> j < k + length subs \<Longrightarrow> clk j = clk1 j) \<Longrightarrow>
     broadcast_from clk k f subs cnt h = broadcast_from clk1 k f subs cnt h"
  by (induction subs arbitrary: k cnt h) auto

lemma broadcast_from_append:
  "snd (broadcast_from clk k f (xs @ ys) cnt h) =
     snd (broadcast_from clk (k + length xs) f ys
       (fst (broadcast_from clk k f xs cnt h)) (snd (broadcast_from clk k f xs cnt h)))"
  by (induction xs arbitrary: k cnt h) auto

lemma sending_serve:
  assumes "sending f (sub # subs) i B b"
  shows "sending f subs i B (snd (serve now f sub b))"
proof -
  obtain r clk served where s: "vb_responses B i = Some r" "f = response_frame i r"
    "validate_frame f = Inr ()" "live_subs B = served @ sub # subs"
    "vb_inner b = vb_inner (collected B)"
    "vb_heap b = snd (broadcast_from clk 0 f served (0, 0) (vb_heap B))"
    using assms unfolding sending_def by blast
  let ?clk = "clk(length served := now)"
  have "broadcast_from ?clk 0 f served (0, 0) (vb_heap B) = broadcast_from clk 0 f served (0, 0) (vb_heap B)"
    by (rule broadcast_from_clock) simp
  with s(6) have "vb_heap (snd (serve now f sub b)) =
      snd (broadcast_from ?clk 0 f (served @ [sub]) (0, 0) (vb_heap B))"
    by (simp add: broadcast_from_append serve_eq)
  moreover have "vb_inner (snd (serve now f sub b)) = vb_inner (collected B)"
    using s(5) by (simp add: serve_sel)
  moreover have "live_subs B = (served @ [sub]) @ subs" using s(4) by simp
  ultimately show ?thesis using s(1-3) unfolding sending_def by blast
qed

text \<open>The last subscriber is served: the real bus is the bus after the whole call.\<close>

lemma sending_done:
  assumes "sending f [] i B b" and "\<not> vb_closed B" and "i \<le> LIN_MAX_ID"
  shows "\<exists>clk B1. vb_call (CallSend clk ctx i) B = (ReplyFrame (Inr f), B1) \<and>
    same_bus b B1 \<and> \<not> vb_closed B1"
proof -
  obtain r clk where s: "vb_responses B i = Some r" "f = response_frame i r"
    "validate_frame f = Inr ()" "vb_inner b = vb_inner (collected B)"
    "vb_heap b = snd (broadcast_from clk 0 f (live_subs B) (0, 0) (vb_heap B))"
    using assms(1) unfolding sending_def by auto
  have "vb_call (CallSend clk ctx i) B = (ReplyFrame (Inr f), exchanged clk f B)"
    using s(1-3) assms(2,3) by (simp add: vb_send_header_eq)
  moreover have "same_bus b (exchanged clk f B)"
    using s(4,5) by (simp add: same_bus_def exchanged_def collected_def Let_def)
  moreover have "\<not> vb_closed (exchanged clk f B)" using assms(2) by simp
  ultimately show ?thesis by blast
qed


definition simulated :: "event list \<Rightarrow> system \<Rightarrow> bool" where
  "simulated es x \<longleftrightarrow>
     (\<exists>ph B a. atomic_run es (ph, a) \<and> refines B a \<and> linked (fst x) ph (snd x) B)"

lemma answer_simps [simp]:
  "answer t (Returned r) = [Respond t r]" "answer t (Begin c) = []"
  "answer t (Inserting i d ct) = []" "answer t (Joining flts cell) = []" "answer t (Looking i) = []"
  "answer t (Broadcasting f subs m n) = []" "answer t (Counting f m n) = []"
  "answer t (Installing es) = []"
  by (simp_all add: answer_def)

text \<open>A step without effect and without reply.\<close>

lemma sim_silent:
  assumes "atomic_run es (ph, a)" and "refines B a" and "linked ts ph s B"
    and "pc_link p (ph t)" and "answer t p = []" and "cb_holder s1 = cb_holder s"
    and "cb_holder s \<noteq> Some t" and "same_bus (cb_bus s1) (cb_bus s)" and "\<not> vb_closed (cb_bus s1)"
  shows "simulated (es @ answer t p) (ts(t := p), s1)"
proof -
  have "linked (ts(t := p)) (ph(t := ph t)) s1 B"
    using assms by (intro linked_frame [OF assms(3,4)]) (simp_all add: same_bus_def linked_def)
  with assms(1,2,5) show ?thesis by (auto simp: simulated_def)
qed

text \<open>A call that changes no more than the counters, at any time.\<close>

lemma sim_fails:
  assumes "atomic_run es (ph, a)" and "refines B a" and "linked ts ph s B"
    and "ph t = Called c" and "vb_call (atomic_call now clk c) B = (r, B1)"
    and "cb_holder s1 = cb_holder s" and "cb_holder s \<noteq> Some t"
    and "same_bus (cb_bus s1) (cb_bus s)" and "same_bus B1 B"
    and "\<not> vb_closed (cb_bus s1)" and "\<not> vb_closed B1"
  shows "simulated (es @ answer t (Returned r)) (ts(t := Returned r), s1)"
proof -
  obtain a1 where "atomic_run (es @ [Respond t r]) (ph(t := Idle), a1)" "refines B1 a1"
    using effect_respond [OF assms(1,2,4,5)] by blast
  moreover have "linked (ts(t := Returned r)) (ph(t := Idle)) s1 B1"
    using assms(6-11) by (intro linked_frame [OF assms(3)]) simp_all
  ultimately show ?thesis by (auto simp: simulated_def)
qed

text \<open>A call whose critical section is one step.\<close>

lemma sim_section:
  assumes "atomic_run es (ph, a)" and "refines B a" and "linked ts ph s B"
    and "ph t = Called c" and "vb_call (atomic_call now clk c) B = (r, B1)"
    and "cb_holder s1 = None" and "same_bus (cb_bus s1) B1"
    and "\<not> vb_closed (cb_bus s1)" and "\<not> vb_closed B1"
  shows "simulated (es @ answer t (Returned r)) (ts(t := Returned r), s1)"
proof -
  obtain a1 where "atomic_run (es @ [Respond t r]) (ph(t := Idle), a1)" "refines B1 a1"
    using effect_respond [OF assms(1,2,4,5)] by blast
  moreover have "linked (ts(t := Returned r)) (ph(t := Idle)) s1 B1"
    using assms(6-9) by (intro linked_free [OF assms(3)]) simp_all
  ultimately show ?thesis by (auto simp: simulated_def)
qed

lemma same_bus_refl [simp]: "same_bus b b" "same_bus (count_error b) b"
  by (simp_all add: same_bus_def)

lemma sim_begin_publish:
  assumes run: "atomic_run es (ph, a)" and rel: "refines B a" and link: "linked ts ph s B"
    and ph: "ph t = Called (TPublish i d ct)" and step: "begin_call now (TPublish i d ct) s = (p, s1)"
    and free: "cb_holder s \<noteq> Some t"
  shows "simulated (es @ answer t p) (ts(t := p), s1)"
proof -
  have open_: "\<not> vb_closed (cb_bus s)" "\<not> vb_closed B" using link by (simp_all add: linked_def)
  note silent = sim_silent [OF run rel link, where t = t]
  note fails = sim_fails [OF run rel link ph, where now = now and clk = "\<lambda>_. now"]
  consider (id) "i > LIN_MAX_ID" | (long) "i \<le> LIN_MAX_ID" "\<exists>x. d = Some x \<and> length x > LIN_MAX_DATA_LEN"
    | (ok) "i \<le> LIN_MAX_ID" "\<forall>x. d = Some x \<longrightarrow> length x \<le> LIN_MAX_DATA_LEN"
    by (metis not_le)
  then show ?thesis
  proof cases
    case ok
    with step open_ have "p = Inserting i d (stored_type i ct)" "s1 = s"
      by (auto simp: Let_def not_less split: option.splits if_splits)
    with ok ph open_ free show ?thesis by (intro silent) auto
  next
    case id
    with step open_ have e: "p = Returned (ReplyUnit (Inl (id_error i)))"
      "s1 = set_bus (count_error (cb_bus s)) s" by (auto simp: Let_def)
    show ?thesis unfolding e
      using id open_ free
      by (intro fails [where ?B1.0 = "count_error B"]) (simp_all add: publish_with_type_def Let_def)
  next
    case long
    with step open_ have e: "p = Returned (ReplyUnit (Inl PayloadTooLarge))"
      "s1 = set_bus (count_error (cb_bus s)) s" by (auto simp: Let_def not_less split: if_splits)
    show ?thesis unfolding e
      using long open_ free
      by (intro fails [where ?B1.0 = "count_error B"]) (auto simp: publish_with_type_def Let_def not_less)
  qed
qed

lemma sim_begin:
  assumes run: "atomic_run es (ph, a)" and rel: "refines B a" and link: "linked ts ph s B"
    and pc: "ts t = Begin c" and step: "begin_call now c s = (p, s1)"
    and free: "cb_holder s \<noteq> Some t"
  shows "simulated (es @ answer t p) (ts(t := p), s1)"
proof -
  have ph: "ph t = Called c" and c: "c \<noteq> TClose" and open_: "\<not> vb_closed (cb_bus s)" "\<not> vb_closed B"
    using link pc unfolding linked_def by (metis pc_link.simps(1))+
  note silent = sim_silent [OF run rel link, where t = t]
  note fails = sim_fails [OF run rel link ph, where now = now and clk = "\<lambda>_. now"]
  show ?thesis
  proof (cases c)
    case (TPublish i d ct)
    with ph step show ?thesis by (intro sim_begin_publish [OF run rel link _ _ free]) simp_all
  next
    case (TSubscribe flts opts)
    with step open_ have "p = Joining flts (sub_inner_new (chan_depth opts 64) (back_pressure opts)
        (rate_limit_per_sec opts) now)" "s1 = s" by auto
    with ph TSubscribe open_ free show ?thesis by (intro silent) auto
  next
    case TClose
    with c show ?thesis by simp
  next
    case (TSend i)
    show ?thesis
    proof (cases "i > LIN_MAX_ID")
      case True
      with step TSend open_ have e: "p = Returned (ReplyFrame (Inl (id_error i)))"
        "s1 = set_bus (count_error (cb_bus s)) s" by (auto simp: Let_def)
      show ?thesis unfolding e
        using True TSend open_ free
        by (intro fails [where ?B1.0 = "count_error B"]) (simp_all add: vb_send_header_def)
    next
      case False
      with step TSend open_ have "p = Looking i" "s1 = s" by (auto simp: Let_def)
      with False ph TSend open_ free show ?thesis by (intro silent) auto
    qed
  next
    case (TSchedule es0)
    show ?thesis
    proof (cases "check_entries es0")
      case (Inl e)
      with step TSchedule open_ have e: "p = Returned (ReplyUnit (Inl e))" "s1 = s" by auto
      show ?thesis unfolding e
        using Inl TSchedule open_ free
        by (intro fails [where ?B1.0 = B]) (simp_all add: vb_set_schedule_def)
    next
      case (Inr u)
      with step TSchedule open_ have "p = Installing es0" "s1 = s" by auto
      with Inr ph TSchedule open_ free show ?thesis by (intro silent) auto
    qed
  qed
qed

lemma sim_look_up:
  assumes run: "atomic_run es (ph, a)" and rel: "refines B a" and link: "linked ts ph s B"
    and pc: "ts t = Looking i" and step: "look_up t i s = (p, s1)"
    and free: "cb_holder s = None"
  shows "simulated (es @ answer t p) (ts(t := p), s1)"
proof -
  have ph: "ph t = Called (TSend i)" and i: "\<not> i > LIN_MAX_ID"
    using link pc unfolding linked_def by (metis pc_link.simps(6) not_less)+
  have open_: "\<not> vb_closed (cb_bus s)" "\<not> vb_closed B" and same: "same_bus (cb_bus s) B"
    using link free by (simp_all add: linked_def bus_link_def)
  then have resp: "vb_responses (cb_bus s) i = vb_responses B i"
    and live: "live_subs (cb_bus s) = live_subs B"
    by (simp_all add: same_bus_def live_subs_def)
  note section_ = sim_section [OF run rel link ph, where now = 0 and clk = "\<lambda>_. 0"]
  have coll: "same_bus (collected (cb_bus s)) (collected B)"
    "same_bus (count_error (collected (cb_bus s))) (count_error (collected B))"
    using same live by (simp_all add: same_bus_def collected_def count_error_def)
  show ?thesis
  proof (cases "vb_responses B i")
    case None
    with step resp have e: "p = Returned (ReplyFrame (Inl NoResponse))"
      "s1 = set_bus (count_error (collected (cb_bus s))) s" by (auto simp: look_up_def Let_def)
    show ?thesis unfolding e
      using None open_ i free coll
      by (intro section_ [where ?B1.0 = "count_error (collected B)"]) (simp_all add: vb_send_header_eq)
  next
    case (Some r)
    show ?thesis
    proof (cases "validate_frame (response_frame i r)")
      case (Inl err)
      with step resp Some have e: "p = Returned (ReplyFrame (Inl err))"
        "s1 = set_bus (collected (cb_bus s)) s" by (auto simp: look_up_def Let_def)
      show ?thesis unfolding e
        using Inl Some open_ i free coll
        by (intro section_ [where ?B1.0 = "collected B"]) (simp_all add: vb_send_header_eq)
    next
      case (Inr u)
      let ?f = "response_frame i r"
      have e: "p = Broadcasting ?f (live_subs B) 0 0"
        "s1 = s\<lparr>cb_bus := count_written ?f (collected (cb_bus s)), cb_holder := Some t,
          cb_sent := cb_sent s @ [?f]\<rparr>"
        using step resp Some Inr live by (simp_all add: look_up_def Let_def)
      have "sending ?f (live_subs B) i B (cb_bus s1)"
        unfolding sending_def e(2) using Some Inr coll(1) same
        by (intro exI [of _ r] exI [of _ "\<lambda>_. 0"] exI [of _ "[]"]) (simp add: same_bus_def)
      then have "linked (ts(t := p)) ph s1 B"
        using link ph i open_ e by (auto simp: linked_def bus_link_def not_less)
      with run rel e(1) show ?thesis by (auto simp: simulated_def)
    qed
  qed
qed

lemma sim_broadcast:
  assumes run: "atomic_run es (ph, a)" and rel: "refines B a" and link: "linked ts ph s B"
    and pc: "ts t = Broadcasting f subs d e" and holder: "cb_holder s = Some t"
    and step: "micro t now (ts t) s = Some (p, s1)"
  shows "simulated (es @ answer t p) (ts(t := p), s1)"
proof -
  obtain i where ph: "ph t = Called (TSend i)" and i: "i \<le> LIN_MAX_ID"
    and sending: "sending f subs i B (cb_bus s)"
    using link holder pc by (auto simp: linked_def bus_link_def)
  have open_: "\<not> vb_closed (cb_bus s)" "\<not> vb_closed B" using link by (simp_all add: linked_def)
  show ?thesis
  proof (cases subs)
    case (Cons sub rest)
    obtain v b where serve: "serve now f sub (cb_bus s) = (v, b)" by (cases "serve now f sub (cb_bus s)")
    then obtain d1 e1 where p: "p = Broadcasting f rest d1 e1" and s1: "s1 = set_bus b s"
      using step pc Cons by (auto split: option.splits bool.splits)
    have "sending f rest i B b" "\<not> vb_closed b"
      using sending_serve [of f sub rest i B "cb_bus s" now] sending Cons serve
        serve_sel(3) [of now f sub "cb_bus s"] open_ by simp_all
    then have "linked (ts(t := p)) ph s1 B"
      using link ph i holder p s1 by (auto simp: linked_def bus_link_def)
    with run rel p show ?thesis by (auto simp: simulated_def)
  next
    case Nil
    then have p: "p = Counting f d e" and s1: "s1 = s\<lparr>cb_holder := None\<rparr>"
      using step pc by simp_all
    obtain clk B1 where call: "vb_call (CallSend clk context_background i) B = (ReplyFrame (Inr f), B1)"
      and B1: "same_bus (cb_bus s) B1" "\<not> vb_closed B1"
      using sending_done [OF _ open_(2) i] sending Nil by blast
    have "vb_call (atomic_call 0 clk (TSend i)) B = (ReplyFrame (Inr f), B1)" using call by simp
    from effect [OF run rel ph this] obtain a1 where
      "atomic_run es (ph(t := Answered (ReplyFrame (Inr f))), a1)" "refines B1 a1" by blast
    moreover have "linked (ts(t := p)) (ph(t := Answered (ReplyFrame (Inr f)))) s1 B1"
      using p s1 B1 open_ by (intro linked_free [OF link]) simp_all
    ultimately show ?thesis using p by (auto simp: simulated_def)
  qed
qed

lemma sim_insert:
  assumes run: "atomic_run es (ph, a)" and rel: "refines B a" and link: "linked ts ph s B"
    and free: "cb_holder s = None" and pc: "pc_link (Inserting i d ct) (ph t)"
  shows "simulated (es @ answer t (Returned (ReplyUnit (Inr ()))))
    (ts(t := Returned (ReplyUnit (Inr ()))), set_bus (put_response i d ct (cb_bus s)) s)"
proof -
  have same: "same_bus (cb_bus s) B" "\<not> vb_closed (cb_bus s)" "\<not> vb_closed B"
    using link free by (simp_all add: linked_def bus_link_def)
  obtain ct0 where ph: "ph t = Called (TPublish i d ct0)" and ct: "ct = stored_type i ct0"
    and d: "\<not> i > LIN_MAX_ID" "\<not> (\<exists>x. d = Some x \<and> length x > LIN_MAX_DATA_LEN)"
    using pc by (auto simp: not_less)
  have call: "vb_call (atomic_call 0 (\<lambda>_. 0) (TPublish i d ct0)) B =
      (ReplyUnit (Inr ()), put_response i d ct B)"
    using same d ct by (simp add: prod_eq_iff publish_with_type_result publish_with_type_state put_response_def)
  show ?thesis
    using same free by (intro sim_section [OF run rel link ph call]) (simp_all add: same_bus_def put_response_def)
qed

lemma sim_join:
  assumes run: "atomic_run es (ph, a)" and rel: "refines B a" and link: "linked ts ph s B"
    and free: "cb_holder s = None" and pc: "pc_link (Joining flts cell) (ph t)"
  shows "simulated (es @ answer t (Returned (ReplyCell (Inr (length (vb_heap (cb_bus s)))))))
    (ts(t := Returned (ReplyCell (Inr (length (vb_heap (cb_bus s)))))), set_bus (add_subscriber flts cell (cb_bus s)) s)"
proof -
  have same: "same_bus (cb_bus s) B" "\<not> vb_closed (cb_bus s)" "\<not> vb_closed B"
    using link free by (simp_all add: linked_def bus_link_def)
  obtain opts now where ph: "ph t = Called (TSubscribe flts opts)" and cell: "cell =
      sub_inner_new (chan_depth opts 64) (back_pressure opts) (rate_limit_per_sec opts) now"
    using pc by auto
  have call: "vb_call (atomic_call now (\<lambda>_. 0) (TSubscribe flts opts)) B =
      (ReplyCell (Inr (length (vb_heap (cb_bus s)))), add_subscriber flts cell B)"
    using same by (simp add: vb_subscribe_def Let_def cell same_bus_def add_subscriber_def)
  show ?thesis
    using same free by (intro sim_section [OF run rel link ph call]) (simp_all add: same_bus_def add_subscriber_def)
qed

lemma sim_install:
  assumes run: "atomic_run es (ph, a)" and rel: "refines B a" and link: "linked ts ph s B"
    and free: "cb_holder s = None" and pc: "pc_link (Installing es0) (ph t)"
  shows "simulated (es @ answer t (Returned (ReplyUnit (Inr ()))))
    (ts(t := Returned (ReplyUnit (Inr ()))), set_bus ((cb_bus s)\<lparr>vb_inner := (vb_inner (cb_bus s))\<lparr>bi_schedule := es0\<rparr>\<rparr>) s)"
proof -
  have same: "same_bus (cb_bus s) B" "\<not> vb_closed (cb_bus s)" "\<not> vb_closed B"
    using link free by (simp_all add: linked_def bus_link_def)
  have ph: "ph t = Called (TSchedule es0)" and ok: "check_entries es0 = Inr ()" using pc by simp_all
  have call: "vb_call (atomic_call 0 (\<lambda>_. 0) (TSchedule es0)) B =
      (ReplyUnit (Inr ()), B\<lparr>vb_inner := (vb_inner B)\<lparr>bi_schedule := es0\<rparr>\<rparr>)"
    using same ok by (simp add: vb_set_schedule_def)
  show ?thesis
    using same free by (intro sim_section [OF run rel link ph call]) (simp_all add: same_bus_def)
qed

text \<open>The counters are updated after the effect.\<close>

lemma sim_count:
  assumes "atomic_run es (ph, a)" and "refines B a" and link: "linked ts ph s B"
    and "cb_holder s \<noteq> Some t" and pc: "pc_link (Counting f d e) (ph t)"
  shows "simulated (es @ answer t (Returned (ReplyFrame (Inr f))))
    (ts(t := Returned (ReplyFrame (Inr f))), set_bus (count_delivered f d e (cb_bus s)) s)"
proof -
  have ph: "ph t = Answered (ReplyFrame (Inr f))" using pc by simp
  have "linked (ts(t := Returned (ReplyFrame (Inr f)))) (ph(t := Idle))
      (set_bus (count_delivered f d e (cb_bus s)) s) B"
    using assms(4) link by (intro linked_frame [OF link]) (simp_all add: same_bus_def linked_def)
  with atomic_respond [OF assms(1) ph] assms(2) show ?thesis by (auto simp: simulated_def)
qed

lemma sim_micro:
  assumes run: "atomic_run es (ph, a)" and rel: "refines B a" and link: "linked ts ph s B"
    and mutex: "mutex_ok (ts, s)" and step: "micro t now p0 s = Some (p, s1)" and p0: "ts t = p0"
  shows "simulated (es @ answer t p) (ts(t := p), s1)"
proof -
  have pc: "pc_link p0 (ph t)" using link p0 by (auto simp: linked_def)
  have mine: "cb_holder s = Some t" if "holds p0"
    using mutex that unfolding mutex_ok_def p0 [symmetric] by simp
  have notmine: "cb_holder s \<noteq> Some t" if "\<not> holds p0"
    using mutex that unfolding mutex_ok_def p0 [symmetric] by auto
  show ?thesis
  proof (cases "(t, now, p0, s)" rule: micro.cases)
    case (1 t' now' c s')
    with step p0 notmine show ?thesis by (intro sim_begin [OF run rel link]) simp_all
  next
    case (2 t' now' i d ct s')
    with step pc sim_insert [OF run rel link, where t = t] show ?thesis
      by (auto simp del: pc_link.simps split: if_splits)
  next
    case (3 t' now' flts cell s')
    with step pc sim_join [OF run rel link, where t = t] show ?thesis
      by (auto simp del: pc_link.simps split: if_splits)
  next
    case (7 t' now' i s')
    with step p0 show ?thesis by (intro sim_look_up [OF run rel link]) (auto split: if_splits)
  next
    case (8 t' now' f sub subs delivered dropped s')
    with step p0 mine show ?thesis by (intro sim_broadcast [OF run rel link]) simp_all
  next
    case (9 t' now' f delivered dropped s')
    with step p0 mine show ?thesis by (intro sim_broadcast [OF run rel link]) simp_all
  next
    case (10 t' now' f delivered dropped s')
    with step pc notmine sim_count [OF run rel link, where t = t] show ?thesis
      by (auto simp del: pc_link.simps)
  next
    case (11 t' now' es0 s')
    with step pc sim_install [OF run rel link, where t = t] show ?thesis
      by (auto simp del: pc_link.simps split: if_splits)
  qed (use pc step in simp_all)
qed

text \<open>The receivers act on the bus as it is after the calls that have taken effect.\<close>

lemma sim_poll:
  assumes "atomic_run es (ph, a)" and "refines B a" and "linked ts ph s B"
    and "cb_holder s = None" and "r < length (vb_heap (cb_bus s))" and "rx_recv r (cb_bus s) = (p, b)"
  shows "simulated (es @ [Polled r p]) (ts, note_received r p (set_bus b s))"
proof -
  have same: "same_bus (cb_bus s) B" "\<not> vb_closed (cb_bus s)" "\<not> vb_closed B"
    using assms(3,4) by (simp_all add: linked_def bus_link_def)
  obtain B1 where B1: "rx_recv r B = (p, B1)" "same_bus b B1" "\<not> vb_closed b" "\<not> vb_closed B1"
    using same assms(6) by (auto simp: rx_recv_def same_bus_def split: prod.splits)
  have "vb_call (CallRecv r) B = (ReplyPoll p, B1)"
    using B1(1) assms(5) same(1) by (simp add: same_bus_def)
  then obtain a1 where a1: "spec_call (CallRecv r) a = (ReplyPoll p, a1)" "refines B1 a1"
    using sim_call [OF assms(2), of "CallRecv r"] by (cases "spec_call (CallRecv r) a") auto
  have "linked ts ph (note_received r p (set_bus b s)) B1"
    using assms(3,4) B1 by (simp add: linked_def bus_link_def)
  with atomic_poll [OF assms(1) a1(1)] a1(2) show ?thesis by (auto simp: simulated_def)
qed

lemma sim_close_receiver:
  assumes "atomic_run es (ph, a)" and "refines B a" and "linked ts ph s B"
    and "cb_holder s = None" and "r < length (vb_heap (cb_bus s))"
  shows "simulated (es @ [RxClosed r]) (ts, set_bus (rx_close r (cb_bus s)) s)"
proof -
  have same: "same_bus (cb_bus s) B" "\<not> vb_closed (cb_bus s)" "\<not> vb_closed B"
    using assms(3,4) by (simp_all add: linked_def bus_link_def)
  have r: "r < length (vb_heap B)" using same(1) assms(5) by (simp add: same_bus_def)
  then have "r < length (sp_rxs a)"
    using assms(2) by (auto simp: refines_def dest: same_cells_length)
  from atomic_rx_close [OF assms(1) this]
  have "atomic_run (es @ [RxClosed r]) (ph, spec_rx_close r a)" .
  moreover have "linked ts ph (set_bus (rx_close r (cb_bus s)) s) (rx_close r B)"
    using assms(3,4) same by (simp add: linked_def bus_link_def same_bus_def)
  ultimately show ?thesis using sim_rx_close [OF assms(2) r] by (auto simp: simulated_def)
qed

lemma conc_trace_inv: "conc_trace es x \<Longrightarrow> conc_inv x"
  by (induction rule: conc_trace.induct) (auto intro: conc_inv_start conc_step_inv)

lemma sim_step:
  assumes "simulated es x" and "conc_inv x" and "conc_step l x y" and "undisturbed l x"
  shows "simulated (es @ observed l x y) y"
proof -
  obtain ph B a where run: "atomic_run es (ph, a)" "refines B a" "linked (fst x) ph (snd x) B"
    using assms(1) unfolding simulated_def by blast
  show ?thesis
    using assms(3)
  proof cases
    case (conc_task t now ts s p s1)
    have "mutex_ok (ts, s)" using assms(2) conc_task(2) by (simp add: conc_inv_def)
    from sim_micro [OF run(1,2) _ this conc_task(4) refl] run(3) conc_task show ?thesis by simp
  next
    case (conc_call ts t r c s)
    have "pc_link (ts t) (ph t)" using run(3) conc_call(2) by (simp add: linked_def)
    then have ph: "ph t = Idle" using conc_call(4) by simp
    have link: "linked ts ph s B" using run(3) conc_call(2) by simp
    have "\<not> holds (ts t)" using conc_call(4) by simp
    then have "cb_holder s \<noteq> Some t" using assms(2) conc_call(2) by (auto simp: conc_inv_def mutex_ok_def)
    then have "linked (ts(t := Begin c)) (ph(t := Called c)) s B"
      using assms(4) conc_call(1,2) link
      by (intro linked_frame [OF link]) (simp_all add: linked_def)
    with atomic_invoke [OF run(1) ph] run(2) conc_call show ?thesis by (auto simp: simulated_def)
  next
    case (conc_poll r s p b ts)
    with sim_poll [OF run(1,2) _ _ conc_poll(4,5)] run(3) assms(4) show ?thesis by simp
  next
    case (conc_rx_close r s ts)
    with sim_close_receiver [OF run(1,2) _ _ conc_rx_close(4)] run(3) assms(4) show ?thesis by simp
  qed
qed

lemma sim_start: "simulated [] conc_start"
proof -
  have "linked (fst conc_start) (\<lambda>_. Idle) (snd conc_start) virtual_bus_new"
    by (simp add: linked_def bus_link_def conc_start_def conc_bus_new_def virtual_bus_new_def)
  with atomic_start refines_new show ?thesis by (auto simp: simulated_def)
qed

lemma sim_trace: "conc_trace es x \<Longrightarrow> simulated es x"
  by (induction rule: conc_trace.induct) (blast intro: sim_start sim_step conc_trace_inv)+

section \<open>Linearizability\<close>

text \<open>
  C2: The virtual bus is linearizable.  Whatever the tasks call and however the methods
  interleave inside, what can be observed (calls, replies, and what each receiver gets) can
  also be observed on a bus where each call takes effect as a whole, once, at a moment between
  its call and its reply; a task that is not in a call here is not in a call there.  Nobody
  closes the bus meanwhile, and receivers act while no broadcast is under way.
\<close>

theorem bus_linearizable:
  assumes "conc_trace es x"
  shows "\<exists>ph a. atomic_run es (ph, a) \<and> (\<forall>t r. fst x t = Returned r \<longrightarrow> ph t = Idle)"
proof -
  obtain ph B a where run: "atomic_run es (ph, a)" and link: "linked (fst x) ph (snd x) B"
    using sim_trace [OF assms] unfolding simulated_def by blast
  have "ph t = Idle" if "fst x t = Returned r" for t r
  proof -
    have "pc_link (fst x t) (ph t)" using link by (simp add: linked_def)
    with that show ?thesis by simp
  qed
  with run show ?thesis by blast
qed

lemma trace_next:
  "conc_trace es x \<Longrightarrow> conc_step l x y \<Longrightarrow> undisturbed l x \<Longrightarrow> fs = es @ observed l x y \<Longrightarrow>
     conc_trace fs y"
  by (auto intro: trace_step)

text \<open>The calls of two tasks overlap: the header is answered before the publication inserts.\<close>

lemma overlapping_trace:
  "\<exists>x. conc_trace [Invoke 0 (TPublish 0x10 (Some [1]) Enhanced), Invoke 1 (TSend 0x10),
     Respond 1 (ReplyFrame (Inl NoResponse)), Respond 0 (ReplyUnit (Inr ()))] x"
proof -
  let ?c = "TPublish 0x10 (Some [1]) Enhanced" and ?d = "TSend 0x10"
  let ?ts0 = "\<lambda>_ :: nat. Returned ReplyNone"
  let ?ts1 = "?ts0(0 := Begin ?c)"
  let ?ts2 = "?ts1(1 := Begin ?d)"
  let ?ts3 = "?ts2(0 := Inserting 0x10 (Some [1]) Enhanced)"
  let ?ts4 = "?ts3(1 := Looking 0x10)"
  let ?ts5 = "?ts4(1 := Returned (ReplyFrame (Inl NoResponse)))"
  let ?ts6 = "?ts5(0 := Returned (ReplyUnit (Inr ())))"
  let ?s0 = conc_bus_new
  let ?s5 = "snd (look_up 1 0x10 ?s0)"
  let ?s6 = "set_bus (put_response 0x10 (Some [1]) Enhanced (cb_bus ?s5)) ?s5"
  have calc: "vb_closed (cb_bus ?s0) = False" "cb_holder ?s0 = None"
    by (simp_all add: conc_bus_new_def virtual_bus_new_def)
  have look: "look_up 1 0x10 ?s0 = (Returned (ReplyFrame (Inl NoResponse)), ?s5)" "cb_holder ?s5 = None"
    by (simp_all add: look_up_def Let_def conc_bus_new_def virtual_bus_new_def bus_inner_new_def collected_def)
  have "conc_trace [] (?ts0, ?s0)" using trace_start by (simp add: conc_start_def)
  moreover have "conc_step (NewCall 0 ?c) (?ts0, ?s0) (?ts1, ?s0)" by (rule conc_call) simp
  ultimately have "conc_trace [Invoke 0 ?c] (?ts1, ?s0)" by (rule trace_next) simp_all
  moreover have "conc_step (NewCall 1 ?d) (?ts1, ?s0) (?ts2, ?s0)" by (rule conc_call) simp
  ultimately have "conc_trace [Invoke 0 ?c, Invoke 1 ?d] (?ts2, ?s0)" by (rule trace_next) simp_all
  moreover have "conc_step (TaskStep 0) (?ts2, ?s0) (?ts3, ?s0)"
    by (rule conc_task [where now = 0])
      (simp add: calc Let_def stored_type_def lin_defs word_less_nat_alt)
  ultimately have "conc_trace [Invoke 0 ?c, Invoke 1 ?d] (?ts3, ?s0)" by (rule trace_next) simp_all
  moreover have "conc_step (TaskStep 1) (?ts3, ?s0) (?ts4, ?s0)"
    by (rule conc_task [where now = 0]) (simp add: calc Let_def lin_defs word_less_nat_alt)
  ultimately have "conc_trace [Invoke 0 ?c, Invoke 1 ?d] (?ts4, ?s0)" by (rule trace_next) simp_all
  moreover have "conc_step (TaskStep 1) (?ts4, ?s0) (?ts5, ?s5)"
    using look by (intro conc_task [where now = 0]) (simp add: calc)
  ultimately have "conc_trace [Invoke 0 ?c, Invoke 1 ?d, Respond 1 (ReplyFrame (Inl NoResponse))]
      (?ts5, ?s5)" by (rule trace_next) simp_all
  moreover have "conc_step (TaskStep 0) (?ts5, ?s5) (?ts6, ?s6)"
    using look by (intro conc_task [where now = 0]) simp
  ultimately have "conc_trace [Invoke 0 ?c, Invoke 1 ?d, Respond 1 (ReplyFrame (Inl NoResponse)),
      Respond 0 (ReplyUnit (Inr ()))] (?ts6, ?s6)" by (rule trace_next) simp_all
  then show ?thesis by blast
qed

theorem bus_linearizable_witness:
  "\<exists>ph a. atomic_run [Invoke 0 (TPublish 0x10 (Some [1]) Enhanced), Invoke 1 (TSend 0x10),
     Respond 1 (ReplyFrame (Inl NoResponse)), Respond 0 (ReplyUnit (Inr ()))] (ph, a)"
  using overlapping_trace bus_linearizable by blast

end
