(* ===== verification/Receiver_Wakeup.thy ===== *)
theory Receiver_Wakeup
  imports Lin_Bus
begin

text \<open>
  \<open>FrameReceiver::recv\<close> in \<open>src/bus.rs\<close> as a task that other tasks interleave with: it pops,
  reads the closed flag, waits on the notification object, and starts again; while it waits,
  its caller may drop it (a timeout, \<open>select\<close>) and call \<open>recv\<close> again later.  \<open>Lin_Bus\<close> has
  one turn of it as the function \<open>recv_poll\<close>; here the pushes and the two steps of \<open>close\<close>
  (the flag, then \<open>notify_waiters\<close>) come in between.  \<open>push\<close> calls \<open>notify_one\<close> while it
  holds the lock of the queue, so it is one step for the receiver.

  The notification object is \<open>tokio::sync::Notify\<close>, which is not part of the program: its
  operations are an argument, and what its documentation promises to one waiting task is the
  hypothesis \<open>notify_laws\<close>.
\<close>

section \<open>The notification object\<close>

text \<open>
  \<open>tn_notified\<close> creates the future and polls it for the first time, \<open>tn_poll\<close> polls it
  again; both tell whether it is complete.  \<open>tn_drop\<close> drops the future; whether a permit it
  was given is then stored is left open.
\<close>

record 'n tokio_notify =
  tn_notify_one :: "'n \<Rightarrow> 'n"
  tn_notify_waiters :: "'n \<Rightarrow> 'n"
  tn_notified :: "'n \<Rightarrow> bool \<times> 'n"
  tn_poll :: "'n \<Rightarrow> bool \<times> 'n"
  tn_drop :: "'n \<Rightarrow> 'n"

text \<open>What can be observed: whether a permit is stored, and how the waiting future stands.\<close>

datatype waiter = NoWaiter | Sleeping | Woken

definition notify_laws :: "'n tokio_notify \<Rightarrow> ('n \<Rightarrow> bool \<times> waiter) \<Rightarrow> bool" where
  "notify_laws N view \<longleftrightarrow>
     (\<forall>n p w. view n = (p, w) \<longrightarrow>
        view (tn_notify_one N n) = (if w = Sleeping then (p, Woken) else (True, w)) \<and>
        view (tn_notify_waiters N n) = (p, if w = Sleeping then Woken else w) \<and>
        (w = NoWaiter \<longrightarrow> fst (tn_notified N n) = p \<and>
           view (snd (tn_notified N n)) = (False, if p then NoWaiter else Sleeping)) \<and>
        fst (tn_poll N n) = (w = Woken) \<and>
        view (snd (tn_poll N n)) = (p, if w = Woken then NoWaiter else w) \<and>
        snd (view (tn_drop N n)) = NoWaiter)"

lemma notify_lawsD:
  assumes "notify_laws N view" and "view n = (p, w)"
  shows "view (tn_notify_one N n) = (if w = Sleeping then (p, Woken) else (True, w))"
    and "view (tn_notify_waiters N n) = (p, if w = Sleeping then Woken else w)"
    and "w = NoWaiter \<Longrightarrow> fst (tn_notified N n) = p"
    and "w = NoWaiter \<Longrightarrow> view (snd (tn_notified N n)) = (False, if p then NoWaiter else Sleeping)"
    and "fst (tn_poll N n) = (w = Woken)"
    and "view (snd (tn_poll N n)) = (p, if w = Woken then NoWaiter else w)"
    and "snd (view (tn_drop N n)) = NoWaiter"
  using assms unfolding notify_laws_def by blast+

section \<open>The receiving task and its environment\<close>

text \<open>
  Before the pop; after a pop that found nothing; with the flag read as set, before the last
  pop; with the flag read as clear, before \<open>notified\<close>; waiting; returned; dropped by the caller.
\<close>

datatype recv_pc =
  Popping | Checking | Draining | Waiting | Asleep | Done "lin_frame option" | GivenUp

text \<open>\<open>rt_closers\<close>: how many calls of \<open>close\<close> have set the flag and not yet notified.\<close>

record 'n recv_task =
  rt_pc :: recv_pc
  rt_cell :: sub_inner
  rt_notify :: 'n
  rt_closers :: nat

definition recv_task_new :: "sub_inner \<Rightarrow> 'n \<Rightarrow> 'n recv_task" where
  "recv_task_new c n = \<lparr>rt_pc = Popping, rt_cell = c, rt_notify = n, rt_closers = 0\<rparr>"

text \<open>One step of the receiver; a sleeping, returned or dropped call stays.\<close>

definition recv_step :: "'n tokio_notify \<Rightarrow> 'n recv_task \<Rightarrow> 'n recv_task" where
  "recv_step N x =
     (case rt_pc x of
        Popping \<Rightarrow>
          (case sub_pop (rt_cell x) of
             (None, c) \<Rightarrow> x\<lparr>rt_pc := Checking, rt_cell := c\<rparr>
           | (Some f, c) \<Rightarrow> x\<lparr>rt_pc := Done (Some f), rt_cell := c\<rparr>)
      | Checking \<Rightarrow> x\<lparr>rt_pc := if sub_closed (rt_cell x) then Draining else Waiting\<rparr>
      | Draining \<Rightarrow>
          (case sub_pop (rt_cell x) of (r, c) \<Rightarrow> x\<lparr>rt_pc := Done r, rt_cell := c\<rparr>)
      | Waiting \<Rightarrow>
          (case tn_notified N (rt_notify x) of
             (ready, n) \<Rightarrow> x\<lparr>rt_pc := if ready then Popping else Asleep, rt_notify := n\<rparr>)
      | Asleep \<Rightarrow>
          (case tn_poll N (rt_notify x) of
             (ready, n) \<Rightarrow> x\<lparr>rt_pc := if ready then Popping else Asleep, rt_notify := n\<rparr>)
      | Done r \<Rightarrow> x
      | GivenUp \<Rightarrow> x)"

datatype wake_event =
  Receiver | NextRecv | GiveUp | Pushed instant lin_frame | FlagStored | WaitersNotified

fun wake_step :: "'n tokio_notify \<Rightarrow> wake_event \<Rightarrow> 'n recv_task \<Rightarrow> 'n recv_task option" where
  "wake_step N Receiver x = Some (recv_step N x)"
| "wake_step N NextRecv x = 
     (case rt_pc x of
        Done r \<Rightarrow> Some (x\<lparr>rt_pc := Popping\<rparr>)
      | GivenUp \<Rightarrow> Some (x\<lparr>rt_pc := Popping\<rparr>)
      | _ \<Rightarrow> None)"
| "wake_step N GiveUp x =
     (if rt_pc x = Asleep then Some (x\<lparr>rt_pc := GivenUp, rt_notify := tn_drop N (rt_notify x)\<rparr>)
      else None)"
| "wake_step N (Pushed now f) x =
     (case push now f (rt_cell x) of
        (ok, c) \<Rightarrow> Some (x\<lparr>rt_cell := c,
          rt_notify := (if ok then tn_notify_one N (rt_notify x) else rt_notify x)\<rparr>))"
| "wake_step N FlagStored x =
     Some (x\<lparr>rt_cell := (rt_cell x)\<lparr>sub_closed := True\<rparr>, rt_closers := Suc (rt_closers x)\<rparr>)"
| "wake_step N WaitersNotified x =
     (case rt_closers x of
        0 \<Rightarrow> None
      | Suc k \<Rightarrow> Some (x\<lparr>rt_notify := tn_notify_waiters N (rt_notify x), rt_closers := k\<rparr>))"

fun wake_run :: "'n tokio_notify \<Rightarrow> wake_event list \<Rightarrow> 'n recv_task \<Rightarrow> 'n recv_task option" where
  "wake_run N [] x = Some x"
| "wake_run N (e # es) x = (case wake_step N e x of None \<Rightarrow> None | Some y \<Rightarrow> wake_run N es y)"

lemma wake_run_invariant:
  assumes "\<And>e x y. wake_step N e x = Some y \<Longrightarrow> P x \<Longrightarrow> e \<in> A \<Longrightarrow> P y"
    and "wake_run N es x = Some y" and "P x" and "set es \<subseteq> A"
  shows "P y"
  using assms(2-4)
proof (induction es arbitrary: x)
  case (Cons e es)
  then obtain z where "wake_step N e x = Some z" "wake_run N es z = Some y"
    by (auto split: option.splits)
  with Cons assms(1) [of e x z] show ?case by auto
qed simp

section \<open>A receiver never sleeps on a frame\<close>

definition wake_inv :: "('n \<Rightarrow> bool \<times> waiter) \<Rightarrow> 'n recv_task \<Rightarrow> bool" where
  "wake_inv view x \<longleftrightarrow>
     (rt_pc x = Asleep \<longleftrightarrow> snd (view (rt_notify x)) \<noteq> NoWaiter) \<and>
     (snd (view (rt_notify x)) = Sleeping \<longrightarrow> queue (rt_cell x) = []) \<and>
     (rt_pc x = Checking \<or> rt_pc x = Waiting \<longrightarrow>
        queue (rt_cell x) = [] \<or> fst (view (rt_notify x)))"

lemma wake_inv_new: "snd (view n) = NoWaiter \<Longrightarrow> wake_inv view (recv_task_new c n)"
  by (simp add: wake_inv_def recv_task_new_def)

lemma wake_inv_recv:
  assumes laws: "notify_laws N view" and inv: "wake_inv view x"
  shows "wake_inv view (recv_step N x)"
proof -
  obtain p w where v: "view (rt_notify x) = (p, w)" by (cases "view (rt_notify x)")
  note law = notify_lawsD [OF laws v]
  show ?thesis
  proof (cases "rt_pc x")
    case Waiting
    then have "w = NoWaiter" using inv v by (auto simp: wake_inv_def)
    with Waiting inv v law(3,4) show ?thesis
      by (auto simp: wake_inv_def recv_step_def split: prod.split)
  next
    case Asleep
    with inv v law(5,6) show ?thesis
      by (auto simp: wake_inv_def recv_step_def split: prod.split)
  qed (use inv v in \<open>auto simp: wake_inv_def recv_step_def sub_pop_def split: list.split\<close>)
qed

lemma wake_inv_step:
  assumes laws: "notify_laws N view" and step: "wake_step N e x = Some y" and inv: "wake_inv view x"
  shows "wake_inv view y"
proof -
  obtain p w where v: "view (rt_notify x) = (p, w)" by (cases "view (rt_notify x)")
  note law = notify_lawsD [OF laws v]
  show ?thesis
  proof (cases e)
    case Receiver
    then show ?thesis using step wake_inv_recv [OF laws inv] by simp
  next
    case (Pushed now f)
    then have y: "y = x\<lparr>rt_cell := snd (push now f (rt_cell x)),
        rt_notify := (if fst (push now f (rt_cell x)) then tn_notify_one N (rt_notify x) else rt_notify x)\<rparr>"
      using step by (cases "push now f (rt_cell x)") auto
    show ?thesis
      using inv v law(1) unfolding y
      by (cases "fst (push now f (rt_cell x))") (auto simp: wake_inv_def push_queue)
  next
    case WaitersNotified
    then obtain k where "y = x\<lparr>rt_notify := tn_notify_waiters N (rt_notify x), rt_closers := k\<rparr>"
      using step by (auto split: nat.splits)
    then show ?thesis using inv v law(2) by (cases w) (simp_all add: wake_inv_def)
  next
    case GiveUp
    then have "y = x\<lparr>rt_pc := GivenUp, rt_notify := tn_drop N (rt_notify x)\<rparr>"
      using step by (auto split: if_splits)
    then show ?thesis using inv law(7) by (simp add: wake_inv_def)
  qed (use step inv in \<open>auto simp: wake_inv_def split: recv_pc.splits\<close>)
qed

lemma wake_inv_run:
  "notify_laws N view \<Longrightarrow> wake_run N es x = Some y \<Longrightarrow> wake_inv view x \<Longrightarrow> wake_inv view y"
  using wake_run_invariant [of N "wake_inv view" UNIV es x y] wake_inv_step [of N view] by blast

section \<open>An instance of the laws\<close>

text \<open>A permit and a waiter, the least that satisfies the documentation; used for examples only.\<close>

definition demo_notify :: "(bool \<times> waiter) tokio_notify" where
  "demo_notify =
     \<lparr>tn_notify_one = (\<lambda>(p, w). if w = Sleeping then (p, Woken) else (True, w)),
      tn_notify_waiters = (\<lambda>(p, w). (p, if w = Sleeping then Woken else w)),
      tn_notified = (\<lambda>(p, w). (p, False, if p then NoWaiter else Sleeping)),
      tn_poll = (\<lambda>(p, w). (w = Woken, p, if w = Woken then NoWaiter else w)),
      tn_drop = (\<lambda>(p, w). (p \<or> w = Woken, NoWaiter))\<rparr>"

lemma demo_notify_laws: "notify_laws demo_notify id"
  by (auto simp: notify_laws_def demo_notify_def)

abbreviation demo_cell :: sub_inner where
  "demo_cell \<equiv> sub_inner_new 1 DropNewest 0 0"

section \<open>Left alone, the receiver is the poll of \<open>Lin_Bus\<close>\<close>

lemma recv_step_cell:
  "rt_pc x = Waiting \<or> rt_pc x = Asleep \<or> rt_pc x = Checking \<Longrightarrow> rt_cell (recv_step N x) = rt_cell x"
  by (auto simp: recv_step_def split: prod.split)

text \<open>One round of the loop, from the pop.\<close>

lemma recv_round:
  assumes laws: "notify_laws N view" and pc: "rt_pc x = Popping" and v: "view (rt_notify x) = (p, NoWaiter)"
  shows "queue (rt_cell x) = f # q \<Longrightarrow>
      recv_step N x = x\<lparr>rt_pc := Done (Some f), rt_cell := (rt_cell x)\<lparr>queue := q\<rparr>\<rparr>"
    and "queue (rt_cell x) = [] \<Longrightarrow> sub_closed (rt_cell x) \<Longrightarrow>
      (recv_step N ^^ 3) x = x\<lparr>rt_pc := Done None\<rparr>"
    and "queue (rt_cell x) = [] \<Longrightarrow> \<not> sub_closed (rt_cell x) \<Longrightarrow>
      (recv_step N ^^ 3) x = x\<lparr>rt_pc := if p then Popping else Asleep,
        rt_notify := snd (tn_notified N (rt_notify x))\<rparr>"
  using pc notify_lawsD(3) [OF laws v]
  by (cases "tn_notified N (rt_notify x)"; simp add: recv_step_def sub_pop_def numeral_3_eq_3)+

lemma funpow_more: "(g ^^ m) ((g ^^ n) x) = (g ^^ (m + n)) x"
  by (simp add: funpow_add)

text \<open>
  One call of \<open>recv\<close> that nobody interrupts, from a notification object without a waiter,
  does in at most six steps what \<open>recv_poll\<close> says: it returns the oldest frame, or the end
  of the stream when the cell is closed and empty, and otherwise falls asleep, a stale permit
  costing one more round.
\<close>

theorem recv_task_is_poll:
  assumes "notify_laws N view" and "rt_pc x = Popping" and "snd (view (rt_notify x)) = NoWaiter"
  shows "\<exists>n \<le> 6. rt_cell ((recv_step N ^^ n) x) = snd (recv_poll (rt_cell x)) \<and>
    rt_pc ((recv_step N ^^ n) x) =
      (case fst (recv_poll (rt_cell x)) of Ready r \<Rightarrow> Done r | Pending \<Rightarrow> Asleep)"
proof -
  obtain p where v: "view (rt_notify x) = (p, NoWaiter)"
    using assms(3) by (cases "view (rt_notify x)") auto
  note round = recv_round [OF assms(1,2) v]
  show ?thesis
  proof (cases "queue (rt_cell x)")
    case (Cons f q)
    with round(1) show ?thesis by (intro exI [of _ 1]) (simp add: recv_poll_eq)
  next
    case Nil
    note empty = this
    show ?thesis
    proof (cases "sub_closed (rt_cell x)")
      case True
      with round(2) empty show ?thesis by (intro exI [of _ 3]) (simp add: recv_poll_eq)
    next
      case False
      let ?y = "(recv_step N ^^ 3) x"
      have y: "?y = x\<lparr>rt_pc := if p then Popping else Asleep,
          rt_notify := snd (tn_notified N (rt_notify x))\<rparr>"
        by (rule round(3) [OF empty False])
      show ?thesis
      proof (cases p)
        case True
        have v': "view (rt_notify ?y) = (False, NoWaiter)"
          using notify_lawsD(4) [OF assms(1) v] True y by simp
        have "rt_pc ?y = Popping" using y True by simp
        from recv_round(3) [OF assms(1) this v'] empty False y
        have "(recv_step N ^^ 3) ?y = ?y\<lparr>rt_pc := Asleep,
            rt_notify := snd (tn_notified N (rt_notify ?y))\<rparr>"
          by simp
        moreover have "(recv_step N ^^ 3) ?y = (recv_step N ^^ 6) x"
          unfolding funpow_more by simp
        ultimately have "(recv_step N ^^ 6) x = ?y\<lparr>rt_pc := Asleep,
            rt_notify := snd (tn_notified N (rt_notify ?y))\<rparr>"
          by simp
        then have "rt_pc ((recv_step N ^^ 6) x) = Asleep" "rt_cell ((recv_step N ^^ 6) x) = rt_cell x"
          using y by simp_all
        then show ?thesis using empty False by (intro exI [of _ 6]) (simp add: recv_poll_eq)
      next
        case False
        with y empty \<open>\<not> sub_closed (rt_cell x)\<close> show ?thesis
          by (intro exI [of _ 3]) (simp add: recv_poll_eq)
      qed
    qed
  qed
qed

theorem recv_task_is_poll_witness:
  "\<exists>n \<le> 6. rt_pc ((recv_step demo_notify ^^ n) (recv_task_new demo_cell (True, NoWaiter))) = Asleep"
  using recv_task_is_poll [OF demo_notify_laws, of "recv_task_new demo_cell (True, NoWaiter)"]
  by (auto simp: recv_task_new_def recv_poll_eq sub_inner_new_def)

section \<open>Frames always get through\<close>

lemma recv_takes:
  "rt_pc x = Popping \<or> rt_pc x = Draining \<Longrightarrow> queue (rt_cell x) = f # q \<Longrightarrow>
     recv_step N x = x\<lparr>rt_pc := Done (Some f), rt_cell := (rt_cell x)\<lparr>queue := q\<rparr>\<rparr>"
  by (auto simp: recv_step_def sub_pop_def)

lemma recv_resumes:
  assumes laws: "notify_laws N view" and inv: "wake_inv view x" and some: "queue (rt_cell x) \<noteq> []"
    and pc: "rt_pc x = Waiting \<or> rt_pc x = Asleep"
  shows "rt_pc (recv_step N x) = Popping"
proof -
  obtain p w where v: "view (rt_notify x) = (p, w)" by (cases "view (rt_notify x)")
  note law = notify_lawsD [OF laws v]
  from pc show ?thesis
  proof
    assume "rt_pc x = Waiting"
    with inv some v law(3) show ?thesis by (auto simp: wake_inv_def recv_step_def split: prod.split)
  next
    assume asleep: "rt_pc x = Asleep"
    with inv some v have "w = Woken" by (cases w) (auto simp: wake_inv_def)
    with asleep law(5) show ?thesis by (auto simp: recv_step_def split: prod.split)
  qed
qed

text \<open>
  C16: \<open>recv\<close> never sleeps on a frame: however pushes and closings have interleaved with a
  receiver, when there is a frame in its queue and a call of \<open>recv\<close> has not returned, then
  that call, whatever it is about to do, returns the oldest frame within three steps.
\<close>

theorem recv_returns_frame:
  assumes "notify_laws N view" and "snd (view n) = NoWaiter"
    and "wake_run N es (recv_task_new c n) = Some x"
    and "queue (rt_cell x) = f # q" and "\<forall>r. rt_pc x \<noteq> Done r" and "rt_pc x \<noteq> GivenUp"
  shows "\<exists>k \<le> 3. rt_pc ((recv_step N ^^ k) x) = Done (Some f) \<and>
    queue (rt_cell ((recv_step N ^^ k) x)) = q"
proof -
  have inv: "wake_inv view x" using wake_inv_run [OF assms(1,3)] wake_inv_new [of view n c] assms(2) by blast
  have resume: "rt_pc ((recv_step N ^^ 2) x) = Done (Some f) \<and> queue (rt_cell ((recv_step N ^^ 2) x)) = q"
    if "rt_pc x = Waiting \<or> rt_pc x = Asleep" "wake_inv view x" "queue (rt_cell x) = f # q" for x
  proof -
    have "rt_pc (recv_step N x) = Popping" using recv_resumes [OF assms(1) that(2) _ that(1)] that(3) by simp
    moreover have "rt_cell (recv_step N x) = rt_cell x" using recv_step_cell that(1) by blast
    ultimately show ?thesis using that(3) by (simp add: numeral_2_eq_2 recv_takes)
  qed
  show ?thesis
  proof (cases "rt_pc x")
    case Popping
    with assms(4) show ?thesis by (intro exI [of _ 1]) (simp add: recv_takes)
  next
    case Draining
    with assms(4) show ?thesis by (intro exI [of _ 1]) (simp add: recv_takes)
  next
    case Checking
    let ?y = "recv_step N x"
    have y: "rt_pc ?y = Draining \<or> rt_pc ?y = Waiting" "queue (rt_cell ?y) = f # q"
      using Checking assms(4) by (auto simp: recv_step_def)
    from y(1) show ?thesis
    proof
      assume "rt_pc ?y = Draining"
      with y(2) show ?thesis by (intro exI [of _ 2]) (simp add: recv_takes numeral_2_eq_2)
    next
      assume "rt_pc ?y = Waiting"
      with resume [OF _ wake_inv_recv [OF assms(1) inv] y(2)]
      show ?thesis by (intro exI [of _ 3]) (simp add: numeral_3_eq_3 numeral_2_eq_2)
    qed
  next
    case Waiting
    with resume [OF _ inv assms(4)] show ?thesis by (intro exI [of _ 2]) simp
  next
    case Asleep
    with resume [OF _ inv assms(4)] show ?thesis by (intro exI [of _ 2]) simp
  qed (use assms(5,6) in simp_all)
qed

theorem recv_returns_frame_witness:
  "\<exists>x. wake_run demo_notify [Receiver, Receiver, Receiver, Pushed 0 (demo_frame 1), GiveUp, NextRecv]
      (recv_task_new demo_cell (False, NoWaiter)) = Some x \<and> rt_pc x = Popping \<and>
    (\<exists>k \<le> 3. rt_pc ((recv_step demo_notify ^^ k) x) = Done (Some (demo_frame 1)))"
proof -
  let ?es = "[Receiver, Receiver, Receiver, Pushed 0 (demo_frame 1), GiveUp, NextRecv]"
  let ?s = "recv_task_new demo_cell (False, NoWaiter)"
  obtain x where x: "wake_run demo_notify ?es ?s = Some x" "rt_pc x = Popping"
    "queue (rt_cell x) = [demo_frame 1]"
    by (simp add: recv_task_new_def recv_step_def sub_pop_def demo_notify_def cell_eval)
  then show ?thesis
    using recv_returns_frame [OF demo_notify_laws _ x(1) x(3)] by auto
qed

section \<open>Closing wakes the receiver, except in one window\<close>

definition wakes_inv :: "('n \<Rightarrow> bool \<times> waiter) \<Rightarrow> 'n recv_task \<Rightarrow> bool" where
  "wakes_inv view x \<longleftrightarrow> wake_inv view x \<and> sub_closed (rt_cell x) \<and> rt_pc x \<noteq> Waiting \<and>
     (snd (view (rt_notify x)) = Sleeping \<longrightarrow> 0 < rt_closers x)"

lemma wakes_inv_step:
  assumes laws: "notify_laws N view" and step: "wake_step N e x = Some y" and inv: "wakes_inv view x"
  shows "wakes_inv view y"
proof -
  obtain p w where v: "view (rt_notify x) = (p, w)" by (cases "view (rt_notify x)")
  note law = notify_lawsD [OF laws v]
  have "wake_inv view y" using wake_inv_step [OF laws step] inv by (simp add: wakes_inv_def)
  moreover have "sub_closed (rt_cell y) \<and> rt_pc y \<noteq> Waiting \<and>
     (snd (view (rt_notify y)) = Sleeping \<longrightarrow> 0 < rt_closers y)"
  proof (cases e)
    case Receiver
    then have "y = recv_step N x" using step by simp
    then show ?thesis
      using inv v law(6)
      by (cases "rt_pc x") (auto simp: wakes_inv_def recv_step_def sub_pop_def split: prod.split list.split if_splits)
  next
    case (Pushed now f)
    then have "y = x\<lparr>rt_cell := snd (push now f (rt_cell x)),
        rt_notify := (if fst (push now f (rt_cell x)) then tn_notify_one N (rt_notify x) else rt_notify x)\<rparr>"
      using step by (cases "push now f (rt_cell x)") auto
    then show ?thesis using inv v law(1) by (cases w) (auto simp: wakes_inv_def)
  next
    case WaitersNotified
    then obtain k where "y = x\<lparr>rt_notify := tn_notify_waiters N (rt_notify x), rt_closers := k\<rparr>"
      using step by (auto split: nat.splits)
    then show ?thesis using inv v law(2) by (cases w) (simp_all add: wakes_inv_def)
  next
    case GiveUp
    then have "y = x\<lparr>rt_pc := GivenUp, rt_notify := tn_drop N (rt_notify x)\<rparr>"
      using step by (auto split: if_splits)
    then show ?thesis using inv law(7) by (simp add: wakes_inv_def)
  qed (use step inv in \<open>auto simp: wakes_inv_def split: recv_pc.splits\<close>)
  ultimately show ?thesis by (simp add: wakes_inv_def)
qed

lemma wakes_inv_run:
  "notify_laws N view \<Longrightarrow> wake_run N es x = Some y \<Longrightarrow> wakes_inv view x \<Longrightarrow> wakes_inv view y"
  using wake_run_invariant [of N "wakes_inv view" UNIV es x y] wakes_inv_step [of N view] by blast

lemma wakes_inv_returns:
  assumes laws: "notify_laws N view" and inv: "wakes_inv view x" and closers: "rt_closers x = 0"
    and call: "rt_pc x \<noteq> GivenUp"
  shows "\<exists>k \<le> 4. \<exists>r. rt_pc ((recv_step N ^^ k) x) = Done r"
proof -
  have drain: "\<exists>r. rt_pc (recv_step N y) = Done r" if "rt_pc y = Draining" for y :: "'a recv_task"
    using that by (auto simp: recv_step_def split: prod.split)
  have check: "\<exists>r. rt_pc ((recv_step N ^^ 2) y) = Done r"
    if "rt_pc y = Checking" "sub_closed (rt_cell y)" for y :: "'a recv_task"
    using drain [of "recv_step N y"] that by (simp add: numeral_2_eq_2 recv_step_def)
  have pop: "\<exists>k \<le> 3. \<exists>r. rt_pc ((recv_step N ^^ k) y) = Done r"
    if "rt_pc y = Popping" "sub_closed (rt_cell y)" for y :: "'a recv_task"
  proof (cases "queue (rt_cell y)")
    case Nil
    with that check [of "recv_step N y"] show ?thesis
      by (intro exI [of _ 3])
        (simp add: numeral_3_eq_3 numeral_2_eq_2 recv_step_def [of N y] sub_pop_def)
  next
    case (Cons f q)
    with that show ?thesis by (intro exI [of _ 1]) (simp add: recv_takes)
  qed
  have closed: "sub_closed (rt_cell x)" "rt_pc x \<noteq> Waiting" using inv by (simp_all add: wakes_inv_def)
  show ?thesis
  proof (cases "rt_pc x")
    case Popping
    then obtain k r where "k \<le> 3" "rt_pc ((recv_step N ^^ k) x) = Done r" using pop closed(1) by blast
    then show ?thesis by (intro exI [of _ k]) auto
  next
    case Checking
    with check closed(1) show ?thesis by (intro exI [of _ 2]) simp
  next
    case Draining
    with drain show ?thesis by (intro exI [of _ 1]) simp
  next
    case Asleep
    obtain p w where v: "view (rt_notify x) = (p, w)" by (cases "view (rt_notify x)")
    have "w = Woken"
      using inv closers Asleep v by (cases w) (auto simp: wakes_inv_def wake_inv_def)
    then have "rt_pc (recv_step N x) = Popping" "sub_closed (rt_cell (recv_step N x))"
      using notify_lawsD(5) [OF laws v] Asleep closed(1) by (auto simp: recv_step_def split: prod.split)
    then obtain k r where "k \<le> 3" "rt_pc ((recv_step N ^^ k) (recv_step N x)) = Done r" using pop by blast
    then show ?thesis by (intro exI [of _ "Suc k"]) (auto simp: funpow_Suc_right simp del: funpow.simps)
  next
    case (Done r)
    then show ?thesis by (intro exI [of _ 0]) simp
  qed (use closed(2) call in simp_all)
qed

text \<open>
  C17: Closing wakes the receiver: unless the flag is set while a call of \<open>recv\<close> is between
  its reading of the flag and its creation of the notification future, then whatever pushes,
  closings, calls and dropped calls follow, as soon as the closing calls have notified, the pending call of
  \<open>recv\<close> returns within four steps.
\<close>

theorem close_wakes_receiver:
  assumes "notify_laws N view" and "snd (view n) = NoWaiter"
    and "wake_run N es (recv_task_new c n) = Some x" and "rt_pc x \<noteq> Waiting"
    and "wake_run N (FlagStored # es') x = Some y" and "rt_closers y = 0" and "rt_pc y \<noteq> GivenUp"
  shows "\<exists>k \<le> 4. \<exists>r. rt_pc ((recv_step N ^^ k) y) = Done r"
proof -
  have "wake_inv view x"
    using wake_inv_run [OF assms(1,3)] wake_inv_new [of view n c] assms(2) by blast
  then have "wakes_inv view (x\<lparr>rt_cell := (rt_cell x)\<lparr>sub_closed := True\<rparr>,
      rt_closers := Suc (rt_closers x)\<rparr>)"
    using assms(4) by (simp add: wakes_inv_def wake_inv_def)
  moreover have "wake_run N es' (x\<lparr>rt_cell := (rt_cell x)\<lparr>sub_closed := True\<rparr>,
      rt_closers := Suc (rt_closers x)\<rparr>) = Some y"
    using assms(5) by simp
  ultimately have "wakes_inv view y" using wakes_inv_run [OF assms(1)] by blast
  then show ?thesis by (rule wakes_inv_returns [OF assms(1) _ assms(6,7)])
qed

theorem close_wakes_receiver_witness:
  "\<exists>x y. wake_run demo_notify [Receiver, Receiver, Receiver] (recv_task_new demo_cell (False, NoWaiter)) = Some x \<and>
     rt_pc x = Asleep \<and> wake_run demo_notify [FlagStored, Receiver, WaitersNotified] x = Some y \<and>
     (\<exists>k \<le> 4. \<exists>r. rt_pc ((recv_step demo_notify ^^ k) y) = Done r)"
proof -
  obtain x where x: "wake_run demo_notify [Receiver, Receiver, Receiver]
      (recv_task_new demo_cell (False, NoWaiter)) = Some x" "rt_pc x = Asleep"
      "rt_notify x = (False, Sleeping)" "rt_closers x = 0"
    by (simp add: recv_task_new_def recv_step_def sub_pop_def demo_notify_def cell_eval)
  obtain y where y: "wake_run demo_notify [FlagStored, Receiver, WaitersNotified] x = Some y"
      "rt_closers y = 0" "rt_pc y \<noteq> GivenUp"
    using x(2-4) by (simp add: recv_step_def demo_notify_def)
  have "\<exists>k \<le> 4. \<exists>r. rt_pc ((recv_step demo_notify ^^ k) y) = Done r"
    by (rule close_wakes_receiver [OF demo_notify_laws _ x(1) _ y]) (simp_all add: x(2))
  with x(1,2) y(1) show ?thesis by blast
qed

text \<open>A call that begins on a closed cell never waits, whatever happens around it.\<close>

definition closed_call :: "'n recv_task \<Rightarrow> bool" where
  "closed_call x \<longleftrightarrow> sub_closed (rt_cell x) \<and> rt_pc x \<notin> {Waiting, Asleep, GivenUp}"

lemma closed_call_step:
  assumes step: "wake_step N e x = Some y" and x: "closed_call x"
  shows "closed_call y"
proof (cases e)
  case Receiver
  with step x show ?thesis
    by (cases "rt_pc x") (auto simp: closed_call_def recv_step_def sub_pop_def split: list.splits)
next
  case (Pushed now f)
  have "sub_closed (snd (push now f (rt_cell x))) = sub_closed (rt_cell x)" by simp
  with Pushed step x show ?thesis
    by (cases "push now f (rt_cell x)") (auto simp: closed_call_def)
qed (use step x in \<open>auto simp: closed_call_def split: recv_pc.splits if_splits nat.splits\<close>)

lemma closed_call_run:
  "wake_run N es x = Some y \<Longrightarrow> closed_call x \<Longrightarrow> closed_call y"
  using wake_run_invariant [of N closed_call UNIV es x y] closed_call_step [of N] by blast

lemma closed_call_returns:
  assumes "closed_call x"
  shows "\<exists>k \<le> 3. \<exists>r. rt_pc ((recv_step N ^^ k) x) = Done r"
proof (cases "rt_pc x")
  case Popping
  show ?thesis
  proof (cases "queue (rt_cell x)")
    case Nil
    with Popping assms show ?thesis
      by (intro exI [of _ 3]) (simp add: numeral_3_eq_3 closed_call_def recv_step_def sub_pop_def)
  next
    case (Cons f q)
    with Popping show ?thesis by (intro exI [of _ 1]) (simp add: recv_takes)
  qed
next
  case Checking
  with assms show ?thesis
    by (intro exI [of _ 2]) (simp add: numeral_2_eq_2 closed_call_def recv_step_def split: prod.split)
next
  case Draining
  then show ?thesis by (intro exI [of _ 1]) (simp add: recv_step_def split: prod.split)
next
  case (Done r)
  then show ?thesis by (intro exI [of _ 0]) simp
qed (use assms in \<open>simp_all add: closed_call_def\<close>)

definition lost :: "('n \<Rightarrow> bool \<times> waiter) \<Rightarrow> 'n recv_task \<Rightarrow> bool" where
  "lost view x \<longleftrightarrow> rt_pc x = Asleep \<and> snd (view (rt_notify x)) = Sleeping \<and> rt_closers x = 0"

lemma lost_step:
  assumes "notify_laws N view" and "wake_step N e x = Some y" and "lost view x"
    and "e \<in> {Receiver, NextRecv, WaitersNotified}"
  shows "lost view y"
proof -
  obtain p w where v: "view (rt_notify x) = (p, w)" by (cases "view (rt_notify x)")
  show ?thesis
    using assms(2-4) notify_lawsD(5,6) [OF assms(1) v] v
    by (auto simp: lost_def recv_step_def split: prod.splits)
qed

text \<open>
  C18: In that window the wake-up is lost: a new receiver reads the flag, the bus is closed,
  flag and notification, and then the receiver creates its future; it sleeps on the closed,
  empty cell, and unless it is dropped, or another push or close comes, no run lets its call return,
  although \<open>recv\<close> is documented to return \<open>None\<close> once the bus is closed.
\<close>

theorem close_wakeup_lost:
  assumes "notify_laws N view" and "view n = (False, NoWaiter)"
  shows "\<exists>es x. wake_run N es (recv_task_new (sub_inner_new cap pol lim now) n) = Some x \<and>
    sub_closed (rt_cell x) \<and> queue (rt_cell x) = [] \<and> rt_closers x = 0 \<and>
    \<not> (\<exists>es' y r. set es' \<subseteq> {Receiver, NextRecv, WaitersNotified} \<and> wake_run N es' x = Some y \<and>
         rt_pc y = Done r)"
proof -
  let ?n = "tn_notify_waiters N n" and ?c = "sub_inner_new cap pol lim now"
  let ?x = "\<lparr>rt_pc = Asleep, rt_cell = ?c\<lparr>sub_closed := True\<rparr>, rt_notify = snd (tn_notified N ?n),
    rt_closers = 0\<rparr>"
  have n: "view ?n = (False, NoWaiter)" using notify_lawsD(2) [OF assms] by simp
  have woken: "fst (tn_notified N ?n) = False" "view (snd (tn_notified N ?n)) = (False, Sleeping)"
    using notify_lawsD(3,4) [OF assms(1) n] by simp_all
  have run: "wake_run N [Receiver, Receiver, FlagStored, WaitersNotified, Receiver]
      (recv_task_new ?c n) = Some ?x"
    using woken(1)
    by (cases "tn_notified N ?n") (simp add: recv_task_new_def recv_step_def sub_pop_def sub_inner_new_def)
  have "lost view ?x" using woken(2) by (simp add: lost_def)
  then have "rt_pc y \<noteq> Done r"
    if "wake_run N es' ?x = Some y" "set es' \<subseteq> {Receiver, NextRecv, WaitersNotified}" for es' y r
    using wake_run_invariant [of N "lost view" "{Receiver, NextRecv, WaitersNotified}" es' ?x y] that
      lost_step [OF assms(1)] by (auto simp: lost_def)
  then have "\<not> (\<exists>es' y r. set es' \<subseteq> {Receiver, NextRecv, WaitersNotified} \<and>
      wake_run N es' ?x = Some y \<and> rt_pc y = Done r)"
    by blast
  moreover have "sub_closed (rt_cell ?x)" "queue (rt_cell ?x) = []" "rt_closers ?x = 0"
    by (simp_all add: sub_inner_new_def)
  ultimately show ?thesis using run by blast
qed

theorem close_wakeup_lost_witness:
  "\<exists>es x. wake_run demo_notify es (recv_task_new demo_cell (False, NoWaiter)) = Some x \<and>
    sub_closed (rt_cell x) \<and> \<not> (\<exists>es' y r. set es' \<subseteq> {Receiver, NextRecv, WaitersNotified} \<and>
         wake_run demo_notify es' x = Some y \<and> rt_pc y = Done r)"
proof -
  have "id (False, NoWaiter) = (False, NoWaiter)" by simp
  from close_wakeup_lost [OF demo_notify_laws this, of 1 DropNewest 0 0] show ?thesis by blast
qed

end
