(* ===== verification/Bus_Closing.thy ===== *)
theory Bus_Closing
  imports Bus_Concurrency Receiver_Wakeup
begin

text \<open>
  Closing the virtual bus while other tasks are inside its methods: the receivers that
  existed while the bus was open end, and one handed out too late does not.
\<close>

section \<open>Closing\<close>

text \<open>
  A receiver that will end: closed, or still registered on an open bus or one whose closing
  has not taken the mutex yet, or among the subscribers its closing has still to close.
\<close>

definition closed_cell :: "nat \<Rightarrow> virtual_bus \<Rightarrow> bool" where
  "closed_cell r b \<longleftrightarrow> r < length (vb_heap b) \<and> sub_closed (vb_heap b ! r)"

definition will_end :: "nat \<Rightarrow> (nat \<Rightarrow> pc) \<Rightarrow> conc_bus \<Rightarrow> bool" where
  "will_end r ts s \<longleftrightarrow> r < heap_size s \<and>
     (closed_cell r (cb_bus s) \<or>
      r \<in> vs_cell ` set (vb_subs (cb_bus s)) \<and> (\<not> vb_closed (cb_bus s) \<or> (\<exists>t. ts t = Shutting)) \<or>
      (\<exists>t subs. ts t = Closing subs \<and> r \<in> vs_cell ` set subs))"

text \<open>Only the task that closed the bus empties the list of subscribers, and there is one.\<close>

fun ending :: "pc \<Rightarrow> bool" where
  "ending Shutting \<longleftrightarrow> True"
| "ending (Closing _) \<longleftrightarrow> True"
| "ending _ \<longleftrightarrow> False"

definition close_ok :: "(nat \<Rightarrow> pc) \<Rightarrow> conc_bus \<Rightarrow> bool" where
  "close_ok ts s \<longleftrightarrow>
     (\<forall>t. ending (ts t) \<longrightarrow> vb_closed (cb_bus s)) \<and>
     (\<forall>t u. ending (ts t) \<longrightarrow> ending (ts u) \<longrightarrow> t = u)"

lemma look_up_sel:
  "vb_closed (cb_bus (snd (look_up t i s))) = vb_closed (cb_bus s)"
  "\<not> ending (fst (look_up t i s))"
  "vb_subs (cb_bus (snd (look_up t i s))) = live_subs (cb_bus s)"
  by (simp_all add: look_up_def Let_def count_error_def collected_def split: option.split sum.split)

lemma begin_ending:
  "ending (fst (begin_call now c s)) \<Longrightarrow>
     \<not> vb_closed (cb_bus s) \<and> vb_closed (cb_bus (snd (begin_call now c s))) \<and>
     fst (begin_call now c s) = Shutting"
  by (cases c) (auto simp: Let_def split: if_splits option.splits sum.splits)

lemma begin_closed:
  "vb_closed (cb_bus s) \<Longrightarrow> vb_closed (cb_bus (snd (begin_call now c s)))"
  by (cases c) (auto simp: Let_def count_error_def split: option.splits sum.splits)

lemma begin_opens:
  "\<not> vb_closed (cb_bus s) \<Longrightarrow> \<not> ending (fst (begin_call now c s)) \<Longrightarrow>
     \<not> vb_closed (cb_bus (snd (begin_call now c s)))"
  by (cases c) (auto simp: Let_def count_error_def split: if_splits option.splits sum.splits)

text \<open>What a step of a task does to the flag and to its own part in the closing.\<close>

lemma micro_close:
  assumes "micro t now p s = Some (q, s1)"
  shows "ending q = ending p \<and> vb_closed (cb_bus s1) = vb_closed (cb_bus s) \<or>
    ending q \<and> \<not> ending p \<and> q = Shutting \<and> \<not> vb_closed (cb_bus s) \<and> vb_closed (cb_bus s1) \<and>
      vb_heap (cb_bus s1) = vb_heap (cb_bus s) \<and> vb_inner (cb_bus s1) = vb_inner (cb_bus s) \<or>
    p = Closing [] \<and> \<not> ending q \<and> vb_closed (cb_bus s1) = vb_closed (cb_bus s)"
proof (cases "(t, now, p, s)" rule: micro.cases)
  case (1 t' now' c s')
  then have pc: "p = Begin c" by simp
  have "begin_call now c s = (q, s1)" using assms [unfolded pc] by simp
  then have q: "q = fst (begin_call now c s)" "s1 = snd (begin_call now c s)" by simp_all
  show ?thesis
  proof (cases "ending q")
    case True
    with begin_ending [of now c s] q 1 show ?thesis by simp
  next
    case False
    with begin_closed [of s now c] begin_opens [of s now c] q 1 show ?thesis by auto
  qed
next
  case (7 t' now' i s')
  then have "look_up t i s = (q, s1)" using assms by (auto split: if_splits)
  then have "q = fst (look_up t i s)" "s1 = snd (look_up t i s)" by simp_all
  then show ?thesis using 7 look_up_sel by simp
next
  case (8 t' now' f sub subs delivered dropped s')
  obtain v b where serve: "serve now f sub (cb_bus s) = (v, b)" by (cases "serve now f sub (cb_bus s)")
  then have "vb_closed b = vb_closed (cb_bus s)" using serve_sel(3) [of now f sub "cb_bus s"] by simp
  then show ?thesis using assms 8 serve by (auto split: option.splits bool.splits)
qed (use assms in \<open>auto split: if_splits\<close>)

lemma close_ok_micro:
  assumes step: "micro t now (ts t) s = Some (p, s1)" and ok: "close_ok ts s"
  shows "close_ok (ts(t := p)) s1"
proof -
  have c: "ending (ts u) \<Longrightarrow> vb_closed (cb_bus s)"
    and d: "ending (ts u) \<Longrightarrow> ending (ts v) \<Longrightarrow> u = v" for u v
    using ok unfolding close_ok_def by blast+
  have mono: "vb_closed (cb_bus s) \<Longrightarrow> vb_closed (cb_bus s1)"
    and own: "ending p \<Longrightarrow> ending (ts t) \<or> \<not> vb_closed (cb_bus s)"
    and own_closed: "ending p \<Longrightarrow> vb_closed (cb_bus s1)"
    using micro_close [OF step] c [of t] by auto
  have "vb_closed (cb_bus s1)" if "ending ((ts(t := p)) u)" for u
    using that own_closed mono c [of u] by (cases "u = t") simp_all
  moreover have "u = v" if "ending ((ts(t := p)) u)" "ending ((ts(t := p)) v)" for u v
    using that own c [of u] c [of v] d [of u t] d [of v t] d [of u v]
    by (cases "u = t"; cases "v = t") auto
  ultimately show ?thesis unfolding close_ok_def by blast
qed

text \<open>A cell once closed stays closed, and cells do not disappear.\<close>

lemma closed_cell_heap:
  "vb_heap b = vb_heap c \<Longrightarrow> closed_cell r b = closed_cell r c"
  by (simp add: closed_cell_def)

lemma closed_cell_serve: "closed_cell r (snd (serve now f sub b)) = closed_cell r b"
  by (cases "r = vs_cell sub") (auto simp: closed_cell_def serve_eq)

lemma closed_cell_close:
  "closed_cell r (rx_close r' b) \<longleftrightarrow> closed_cell r b \<or> r = r' \<and> r < length (vb_heap b)"
  by (cases "r = r'") (auto simp: closed_cell_def sub_close_def)

lemma closed_cell_recv: "closed_cell r (snd (rx_recv r' b)) = closed_cell r b"
  by (cases "r = r'")
    (auto simp: closed_cell_def rx_recv_def recv_poll_eq split: prod.split list.split)

lemma closed_cell_add: "closed_cell r b \<Longrightarrow> closed_cell r (add_subscriber flts c b)"
  by (auto simp: closed_cell_def nth_append)

lemma live_subs_keeps:
  "r \<in> vs_cell ` set (vb_subs b) \<Longrightarrow> r < length (vb_heap b) \<Longrightarrow>
     r \<in> vs_cell ` set (live_subs b) \<or> closed_cell r b"
  by (auto simp: live_subs_def closed_cell_def)

text \<open>A receiver that will end keeps doing so, whatever any task does.\<close>

lemma will_end_frame:
  assumes "will_end r ts s" and "heap_size s \<le> heap_size s1"
    and "closed_cell r (cb_bus s) \<Longrightarrow> closed_cell r (cb_bus s1)"
    and "r \<in> vs_cell ` set (vb_subs (cb_bus s)) \<Longrightarrow>
      r \<in> vs_cell ` set (vb_subs (cb_bus s1)) \<or> closed_cell r (cb_bus s1)"
    and "vb_closed (cb_bus s1) = vb_closed (cb_bus s)"
    and "ts t = p \<or> \<not> ending (ts t)"
  shows "will_end r (ts(t := p)) s1"
proof -
  have "\<exists>u. (ts(t := p)) u = Shutting" if "\<exists>u. ts u = Shutting"
    using that assms(6) by (metis ending.simps(1) fun_upd_other fun_upd_same)
  moreover have "\<exists>u subs. (ts(t := p)) u = Closing subs \<and> r \<in> vs_cell ` set subs"
    if "\<exists>u subs. ts u = Closing subs \<and> r \<in> vs_cell ` set subs"
    using that assms(6) by (metis ending.simps(2) fun_upd_other fun_upd_same)
  ultimately show ?thesis
    using assms(1-5) unfolding will_end_def by (metis (no_types) order_less_le_trans)
qed

lemma will_end_closing:
  assumes w: "will_end r ts s" and ok: "close_ok ts s" and t: "ts t = Closing subs"
  shows "closed_cell r (cb_bus s) \<or> r \<in> vs_cell ` set subs"
proof -
  have only: "ending (ts u) \<Longrightarrow> u = t" for u
    using ok t unfolding close_ok_def by (metis ending.simps(2))
  have "ts u \<noteq> Shutting" for u
    using only [of u] t by auto
  moreover have "vb_closed (cb_bus s)"
    using ok t unfolding close_ok_def by (metis ending.simps(2))
  moreover have "subs' = subs" if "ts u = Closing subs'" for u subs'
    using only [of u] t that by auto
  ultimately show ?thesis using w unfolding will_end_def by blast
qed

lemma will_end_micro:
  assumes step: "micro t now p0 s = Some (p, s1)" and p0: "ts t = p0"
    and w: "will_end r ts s" and ok: "close_ok ts s"
  shows "will_end r (ts(t := p)) s1"
proof (cases "(t, now, p0, s)" rule: micro.cases)
  case (1 t' now' c s')
  then have "begin_call now c s = (p, s1)" using step by simp
  then have q: "p = fst (begin_call now c s)" "s1 = snd (begin_call now c s)" by simp_all
  have same: "heap_size s1 = heap_size s" "closed_cell r (cb_bus s1) = closed_cell r (cb_bus s)"
    "vb_subs (cb_bus s1) = vb_subs (cb_bus s)"
    using q by (simp_all add: heap_size_def closed_cell_def)
  show ?thesis
  proof (cases "ending p")
    case True
    then have "p = Shutting" using begin_ending [of now c s] q by simp
    moreover have "ending (ts u) \<Longrightarrow> False" for u
      using ok begin_ending [of now c s] True q unfolding close_ok_def by auto
    then have "ts u \<noteq> Closing subs" for u subs by (metis ending.simps(2))
    ultimately show ?thesis
      using w same unfolding will_end_def by (metis fun_upd_same)
  next
    case False
    then have "vb_closed (cb_bus s1) = vb_closed (cb_bus s)"
      using begin_closed [of s now c] begin_opens [of s now c] q by auto
    then show ?thesis using same 1 p0 by (intro will_end_frame [OF w]) simp_all
  qed
next
  case (2 t' now' i d ct s')
  then show ?thesis
    using step p0 by (intro will_end_frame [OF w])
      (auto simp: heap_size_def closed_cell_def split: if_splits)
next
  case (3 t' now' flts c s')
  then show ?thesis
    using step p0 by (intro will_end_frame [OF w])
      (auto simp: heap_size_def closed_cell_add add_subscriber_def closed_cell_def nth_append split: if_splits)
next
  case (4 t' now' s')
  then have "ts t = Shutting" "p = Closing (vb_subs (cb_bus s))" "s1 = s\<lparr>cb_holder := Some t\<rparr>"
    using step p0 by (auto split: if_splits)
  moreover have "ts u \<noteq> Closing subs" for u subs
    using ok calculation(1) unfolding close_ok_def by (metis ending.simps pc.distinct)
  ultimately show ?thesis
    using w unfolding will_end_def heap_size_def by (auto simp: heap_size_def)
next
  case (5 t' now' sub subs s')
  then have p: "p = Closing subs" "s1 = set_bus (rx_close (vs_cell sub) (cb_bus s)) s"
    "ts t = Closing (sub # subs)"
    using step p0 by auto
  have "r < length (vb_heap (cb_bus s))" using w by (simp add: will_end_def heap_size_def)
  with will_end_closing [OF w ok p(3)] p show ?thesis
    unfolding will_end_def by (auto simp: closed_cell_close heap_size_def)
next
  case (6 t' now' s')
  then have "ts t = Closing []" using p0 by simp
  from will_end_closing [OF w ok this] have "closed_cell r (cb_bus s)" by simp
  then have "closed_cell r (cb_bus s1)" "heap_size s1 = heap_size s"
    using step 6 by (auto simp: closed_cell_def heap_size_def)
  with w show ?thesis by (simp add: will_end_def)
next
  case (7 t' now' i s')
  then have q: "p = fst (look_up t i s)" "s1 = snd (look_up t i s)"
    using step by (auto simp: prod_eq_iff split: if_splits)
  have heap: "vb_heap (cb_bus s1) = vb_heap (cb_bus s)" using q look_up_history(2) by simp
  show ?thesis
  proof (intro will_end_frame [OF w])
    show "r \<in> vs_cell ` set (vb_subs (cb_bus s)) \<Longrightarrow>
      r \<in> vs_cell ` set (vb_subs (cb_bus s1)) \<or> closed_cell r (cb_bus s1)"
      using live_subs_keeps [of r "cb_bus s"] w heap look_up_sel(3) [of t i s] q closed_cell_heap [OF heap]
      by (simp add: will_end_def heap_size_def)
  qed (use heap q p0 7 look_up_sel(1) closed_cell_heap [OF heap] in \<open>auto simp: heap_size_def\<close>)
next
  case (8 t' now' f sub subs delivered dropped s')
  obtain v b where serve: "serve now f sub (cb_bus s) = (v, b)" by (cases "serve now f sub (cb_bus s)")
  then have "s1 = set_bus (snd (serve now f sub (cb_bus s))) s"
    using step 8 by (auto split: option.splits bool.splits)
  then show ?thesis
    using p0 8 by (intro will_end_frame [OF w]) (auto simp: heap_size_def serve_sel closed_cell_serve)
next
  case (9 t' now' f delivered dropped s')
  then show ?thesis using step p0 by (intro will_end_frame [OF w]) (auto simp: heap_size_def)
next
  case (10 t' now' f delivered dropped s')
  then show ?thesis
    using step p0 by (intro will_end_frame [OF w]) (auto simp: heap_size_def closed_cell_def)
next
  case (11 t' now' es s')
  then show ?thesis
    using step p0 by (intro will_end_frame [OF w])
      (auto simp: heap_size_def closed_cell_def split: if_splits)
next
  case (12 t' now' q s')
  then show ?thesis using step by simp
qed

text \<open>While the bus is open every receiver handed out so far will end.\<close>

definition close_inv_ok :: "(nat \<Rightarrow> pc) \<Rightarrow> conc_bus \<Rightarrow> bool" where
  "close_inv_ok ts s \<longleftrightarrow> close_ok ts s \<and>
     (vb_closed (cb_bus s) \<or> (\<forall>r < heap_size s. will_end r ts s))"

lemma micro_new_cells:
  assumes "micro t now p0 s = Some (p, s1)" and "r < heap_size s1" and "\<not> r < heap_size s"
  shows "r \<in> vs_cell ` set (vb_subs (cb_bus s1))"
proof (cases "(t, now, p0, s)" rule: micro.cases)
  case (1 t' now' c s')
  then have "begin_call now c s = (p, s1)" using assms(1) by simp
  then have "s1 = snd (begin_call now c s)" by simp
  then show ?thesis using assms(2,3) by (simp add: heap_size_def)
next
  case (3 t' now' flts c s')
  then show ?thesis
    using assms by (auto simp: heap_size_def add_subscriber_def less_Suc_eq split: if_splits)
next
  case (7 t' now' i s')
  then have "s1 = snd (look_up t i s)"
    using assms(1) by (auto simp: prod_eq_iff split: if_splits)
  then show ?thesis using assms(2,3) look_up_history(2) [of t i s] by (simp add: heap_size_def)
next
  case (8 t' now' f sub subs delivered dropped s')
  obtain v b where serve: "serve now f sub (cb_bus s) = (v, b)" by (cases "serve now f sub (cb_bus s)")
  then have "s1 = set_bus (snd (serve now f sub (cb_bus s))) s"
    using assms(1) 8 by (auto split: option.splits bool.splits)
  then show ?thesis using assms(2,3) by (simp add: heap_size_def serve_sel)
qed (use assms in \<open>auto simp: heap_size_def split: if_splits\<close>)

lemma micro_close_inv:
  assumes step: "micro t now (ts t) s = Some (p, s1)" and inv: "close_inv_ok ts s"
  shows "close_inv_ok (ts(t := p)) s1"
proof -
  have ok: "close_ok ts s" using inv by (simp add: close_inv_ok_def)
  have "will_end r (ts(t := p)) s1" if "\<not> vb_closed (cb_bus s1)" "r < heap_size s1" for r
  proof (cases "r < heap_size s")
    case True
    have "\<not> vb_closed (cb_bus s)" using micro_close [OF step] that(1) by auto
    then have "will_end r ts s" using inv True by (simp add: close_inv_ok_def)
    then show ?thesis by (rule will_end_micro [where ts = ts and t = t, OF step refl _ ok])
  next
    case False
    with micro_new_cells [OF step that(2)] that show ?thesis by (simp add: will_end_def)
  qed
  with close_ok_micro [OF step ok] show ?thesis by (auto simp: close_inv_ok_def)
qed

lemma will_end_same:
  assumes "heap_size s1 = heap_size s" and "vb_inner (cb_bus s1) = vb_inner (cb_bus s)"
    and "vb_closed (cb_bus s1) = vb_closed (cb_bus s)"
    and "\<And>q. closed_cell q (cb_bus s) \<Longrightarrow> closed_cell q (cb_bus s1)"
    and "will_end r ts s"
  shows "will_end r ts s1"
  using assms unfolding will_end_def by auto

lemma rx_steps:
  assumes "rx_recv q (cb_bus s) = (p, b)"
  shows "heap_size (note_received q p (set_bus b s)) = heap_size s"
    and "vb_inner b = vb_inner (cb_bus s)" and "vb_closed b = vb_closed (cb_bus s)"
    and "closed_cell r b = closed_cell r (cb_bus s)"
  using assms closed_cell_recv [of r q "cb_bus s"]
  by (auto simp: rx_recv_def heap_size_def split: prod.splits)

lemma close_inv_same:
  assumes "heap_size s1 = heap_size s" and "vb_inner (cb_bus s1) = vb_inner (cb_bus s)"
    and "vb_closed (cb_bus s1) = vb_closed (cb_bus s)"
    and "\<And>q. closed_cell q (cb_bus s) \<Longrightarrow> closed_cell q (cb_bus s1)"
    and "close_inv_ok ts s"
  shows "close_inv_ok ts s1"
  using assms(5) will_end_same [OF assms(1-4)] assms(1,3)
  unfolding close_inv_ok_def close_ok_def by auto

lemma will_end_call:
  assumes "ts t = Returned q" and "will_end r ts s"
  shows "will_end r (ts(t := Begin c)) s"
proof -
  have "(ts(t := Begin c)) u = Shutting" if "ts u = Shutting" for u
    using that assms(1) by auto
  moreover have "(ts(t := Begin c)) u = Closing subs" if "ts u = Closing subs" for u subs
    using that assms(1) by auto
  ultimately show ?thesis using assms(2) unfolding will_end_def by metis
qed

lemma close_inv_call:
  assumes "ts t = Returned q" and "close_inv_ok ts s"
  shows "close_inv_ok (ts(t := Begin c)) s"
proof -
  have "ending ((ts(t := Begin c)) u) \<Longrightarrow> ending (ts u)" for u by (cases "u = t") simp_all
  then have "close_ok (ts(t := Begin c)) s"
    using assms(2) unfolding close_inv_ok_def close_ok_def by blast
  with assms will_end_call [where ts = ts and t = t, OF assms(1)] show ?thesis unfolding close_inv_ok_def by blast
qed

lemma conc_step_close_inv:
  assumes "conc_step l x y" and "close_inv_ok (fst x) (snd x)"
  shows "close_inv_ok (fst y) (snd y)"
  using assms(1)
proof cases
  case (conc_poll r s p b ts)
  then show ?thesis
    using rx_steps [OF conc_poll(5)] close_inv_same [of "note_received r p (set_bus b s)" s] assms(2)
    by simp
next
  case (conc_rx_close r s ts)
  then show ?thesis
    using close_inv_same [of "set_bus (rx_close r (cb_bus s)) s" s] assms(2)
    by (simp add: heap_size_def closed_cell_close)
qed (use assms(2) in \<open>auto intro: micro_close_inv close_inv_call\<close>)

lemma conc_step_will_end:
  assumes "conc_step l x y" and "close_inv_ok (fst x) (snd x)" and "will_end r (fst x) (snd x)"
  shows "will_end r (fst y) (snd y)"
  using assms(1)
proof cases
  case (conc_task t now ts s p s1)
  then show ?thesis
    using assms(2,3) will_end_micro [where ts = ts and t = t, OF conc_task(4) refl] by (simp add: close_inv_ok_def)
next
  case (conc_poll q s p b ts)
  then show ?thesis
    using rx_steps [OF conc_poll(5)] will_end_same [of "note_received q p (set_bus b s)" s] assms(3)
    by simp
next
  case (conc_rx_close q s ts)
  then show ?thesis
    using will_end_same [of "set_bus (rx_close q (cb_bus s)) s" s] assms(3)
    by (simp add: heap_size_def closed_cell_close)
qed (use assms(3) in \<open>auto intro: will_end_call\<close>)

lemma conc_run_close_inv:
  "conc_run ls x y \<Longrightarrow> close_inv_ok (fst x) (snd x) \<Longrightarrow> close_inv_ok (fst y) (snd y)"
  by (induction rule: conc_run.induct) (auto intro: conc_step_close_inv)

lemma conc_run_will_end:
  "conc_run ls x y \<Longrightarrow> close_inv_ok (fst x) (snd x) \<Longrightarrow> will_end r (fst x) (snd x) \<Longrightarrow>
     will_end r (fst y) (snd y)"
  by (induction rule: conc_run.induct) (auto intro: conc_step_will_end dest: conc_run_close_inv)

lemma close_inv_start: "close_inv_ok (fst conc_start) (snd conc_start)"
  by (simp add: close_inv_ok_def close_ok_def conc_start_def conc_bus_new_def virtual_bus_new_def
      heap_size_def)

text \<open>
  C13: Closing is complete for all receivers handed out while the bus was open, whatever else
  runs: in every later state in which the bus is closed and the closing call has returned,
  the next poll of such a receiver gives a queued frame or the end of the stream, and a call
  of \<open>recv\<close> that begins then returns within three of its own steps, whatever pushes, closings
  and later calls come in between.  It is about calls that begin after the close: one that
  was under way when the flag was set can miss the wake-up (\<open>close_wakeup_lost\<close>).
\<close>

theorem close_ends_earlier:
  assumes "conc_run ls conc_start x" and "\<not> vb_closed (cb_bus (snd x))" and "r < heap_size (snd x)"
    and "conc_run ls' x y" and "vb_closed (cb_bus (snd y))" and "\<forall>t. \<not> ending (fst y t)"
    and "wake_run N es (recv_task_new (vb_heap (cb_bus (snd y)) ! r) n) = Some z"
  shows "fst (rx_recv r (cb_bus (snd y))) \<noteq> Pending \<and>
    (\<exists>k \<le> 3. \<exists>q. rt_pc ((recv_step N ^^ k) z) = Done q)"
proof -
  have inv: "close_inv_ok (fst x) (snd x)"
    by (rule conc_run_close_inv [OF assms(1) close_inv_start])
  then have "will_end r (fst x) (snd x)" using assms(2,3) by (simp add: close_inv_ok_def)
  then have "will_end r (fst y) (snd y)" by (rule conc_run_will_end [OF assms(4) inv])
  moreover have "fst y t \<noteq> Shutting \<and> fst y t \<noteq> Closing subs" for t subs
    using assms(6) [THEN spec, of t] by auto
  ultimately have closed: "closed_cell r (cb_bus (snd y))"
    using assms(5) unfolding will_end_def by blast
  then have "closed_call (recv_task_new (vb_heap (cb_bus (snd y)) ! r) n)"
    by (simp add: closed_cell_def closed_call_def recv_task_new_def)
  from closed_call_returns [OF closed_call_run [OF assms(7) this], of N]
  have "\<exists>k \<le> 3. \<exists>q. rt_pc ((recv_step N ^^ k) z) = Done q" .
  moreover have "fst (rx_recv r (cb_bus (snd y))) \<noteq> Pending"
    using closed by (auto simp: closed_cell_def rx_recv_def recv_poll_eq split: list.split)
  ultimately show ?thesis by blast
qed

lemma early_schedule_run:
  "\<exists>l1 x l2 y. perform_all [Call 0 (TSubscribe [] demo_options), Run 0 0, Run 0 0] conc_start = Some (l1, x) \<and>
     \<not> vb_closed (cb_bus (snd x)) \<and> heap_size (snd x) = 1 \<and>
     perform_all [Call 1 TClose, Run 1 0, Run 1 0, Run 1 0, Run 1 0] x = Some (l2, y) \<and>
     vb_closed (cb_bus (snd y)) \<and> (\<forall>t. \<not> ending (fst y t)) \<and> vb_subs (cb_bus (snd y)) = []"
  by (simp add: conc_start_def conc_bus_new_def virtual_bus_new_def bus_inner_new_def
      add_subscriber_def sub_inner_new_def heap_size_def)

theorem close_ends_earlier_witness:
  "\<exists>y :: system. vb_closed (cb_bus (snd y)) \<and> vb_subs (cb_bus (snd y)) = [] \<and>
     fst (rx_recv 0 (cb_bus (snd y))) \<noteq> Pending \<and>
     (\<exists>k \<le> 3. \<exists>q. rt_pc ((recv_step demo_notify ^^ k)
        (recv_task_new (vb_heap (cb_bus (snd y)) ! 0) (False, NoWaiter))) = Done q)"
proof -
  obtain l1 x l2 y where
    x: "perform_all [Call 0 (TSubscribe [] demo_options), Run 0 0, Run 0 0] conc_start = Some (l1, x)"
      "\<not> vb_closed (cb_bus (snd x))" "heap_size (snd x) = 1" and
    y: "perform_all [Call 1 TClose, Run 1 0, Run 1 0, Run 1 0, Run 1 0] x = Some (l2, y)"
      "vb_closed (cb_bus (snd y))" "\<forall>t. \<not> ending (fst y t)" and
    gone: "vb_subs (cb_bus (snd y)) = []"
    using early_schedule_run by blast
  have heap: "0 < heap_size (snd x)" using x(3) by simp
  have run: "wake_run demo_notify [] (recv_task_new (vb_heap (cb_bus (snd y)) ! 0) (False, NoWaiter)) =
      Some (recv_task_new (vb_heap (cb_bus (snd y)) ! 0) (False, NoWaiter))" by simp
  from close_ends_earlier [OF perform_all_run [OF x(1)] x(2) heap perform_all_run [OF y(1)] y(2,3) run]
  show ?thesis using y(2) gone by (intro exI [of _ y]) simp
qed

section \<open>A subscription that comes too late\<close>

fun quiet :: "pc \<Rightarrow> bool" where
  "quiet Shutting \<longleftrightarrow> False"
| "quiet (Closing _) \<longleftrightarrow> False"
| "quiet (Looking _) \<longleftrightarrow> False"
| "quiet (Broadcasting _ _ _ _) \<longleftrightarrow> False"
| "quiet _ \<longleftrightarrow> True"

text \<open>On a closed bus nobody is left who would push to the cell or close it.\<close>

definition stranded :: "nat \<Rightarrow> (nat \<Rightarrow> pc) \<Rightarrow> conc_bus \<Rightarrow> bool" where
  "stranded r ts s \<longleftrightarrow> vb_closed (cb_bus s) \<and> (\<forall>t. quiet (ts t)) \<and> r < heap_size s \<and>
     queue (vb_heap (cb_bus s) ! r) = [] \<and> \<not> sub_closed (vb_heap (cb_bus s) ! r)"

lemma begin_on_closed:
  "vb_closed (cb_bus s) \<Longrightarrow> quiet (fst (begin_call now c s))"
  by (cases c) (simp_all add: Let_def)

lemma stranded_update:
  assumes "stranded r ts s" and "quiet p" and "vb_closed (cb_bus s1) = vb_closed (cb_bus s)"
    and "vb_heap (cb_bus s1) = vb_heap (cb_bus s) @ cs"
  shows "stranded r (ts(t := p)) s1"
  using assms by (auto simp: stranded_def heap_size_def nth_append)

lemma stranded_micro:
  assumes step: "micro t now p0 s = Some (p, s1)" and p0: "ts t = p0" and str: "stranded r ts s"
  shows "stranded r (ts(t := p)) s1"
proof -
  have "quiet p0" using str p0 unfolding stranded_def by blast
  then have "quiet p \<and> vb_closed (cb_bus s1) = vb_closed (cb_bus s) \<and>
    (\<exists>cs. vb_heap (cb_bus s1) = vb_heap (cb_bus s) @ cs)"
  proof (cases "(t, now, p0, s)" rule: micro.cases)
    case (1 t' now' c s')
    then have "begin_call now c s = (p, s1)" using step by simp
    then have "p = fst (begin_call now c s)" "s1 = snd (begin_call now c s)" by simp_all
    then show ?thesis
      using begin_on_closed [of s now c] begin_closed [of s now c] str by (simp add: stranded_def)
  qed (use step in \<open>auto split: if_splits\<close>)
  then show ?thesis using stranded_update [OF str] by blast
qed

lemma stranded_step:
  assumes "conc_step l x y" and "stranded r (fst x) (snd x)" and "l \<noteq> CloseReceiver r"
  shows "stranded r (fst y) (snd y)"
  using assms(1)
proof cases
  case (conc_task t now ts s p s1)
  then show ?thesis using assms(2) stranded_micro [where ts = ts and t = t, OF conc_task(4) refl] by simp
next
  case (conc_call ts t q c s)
  then show ?thesis using assms(2) by (simp add: stranded_def)
next
  case (conc_poll q s p b ts)
  then show ?thesis
    using assms(2) by (cases "q = r")
      (auto simp: stranded_def rx_recv_def recv_poll_eq heap_size_def split: list.splits prod.splits)
next
  case (conc_rx_close q s ts)
  then have "q \<noteq> r" using assms(3) by auto
  then show ?thesis using conc_rx_close assms(2) by (simp add: stranded_def heap_size_def)
qed

lemma stranded_run:
  "conc_run ls x y \<Longrightarrow> CloseReceiver r \<notin> set ls \<Longrightarrow> stranded r (fst x) (snd x) \<Longrightarrow>
     stranded r (fst y) (snd y)"
  by (induction rule: conc_run.induct) (auto intro: stranded_step)

lemma stranded_pending: "stranded r ts s \<Longrightarrow> fst (rx_recv r (cb_bus s)) = Pending"
  by (simp add: stranded_def rx_recv_def recv_poll_eq)

text \<open>Task 0 subscribes and stops before the mutex; task 1 closes the bus; task 0 goes on.\<close>

definition late_schedule :: "lin_filter list \<Rightarrow> subscriber_options \<Rightarrow> action list" where
  "late_schedule flts opts =
     [Call 0 (TSubscribe flts opts), Run 0 0, Call 1 TClose, Run 1 0, Run 1 0, Run 1 0, Run 0 0]"

lemma late_schedule_run:
  "\<exists>ls ts s. perform_all (late_schedule flts opts) conc_start = Some (ls, (ts, s)) \<and>
     CloseReceiver 0 \<notin> set ls \<and> ts 0 = Returned (ReplyCell (Inr 0)) \<and>
     ts 1 = Returned (ReplyUnit (Inr ())) \<and> stranded 0 ts s"
  by (simp add: late_schedule_def conc_start_def conc_bus_new_def virtual_bus_new_def
      bus_inner_new_def add_subscriber_def sub_inner_new_def stranded_def heap_size_def)

text \<open>
  C14: There is a run in which a subscription passes the check of the closed flag just before
  the bus is closed and takes the mutex just after: it succeeds on the closed bus, both calls
  return, no header is under way, and the receiver it hands out never ends: from there no run
  of any tasks and receivers, short of closing that receiver itself, reaches a state in which
  its poll yields a frame or the end of the stream.
\<close>

theorem late_subscriber:
  "\<exists>ls ts s. conc_run ls conc_start (ts, s) \<and> CloseReceiver 0 \<notin> set ls \<and>
     vb_closed (cb_bus s) \<and> ts 1 = Returned (ReplyUnit (Inr ())) \<and>
     ts 0 = Returned (ReplyCell (Inr 0)) \<and> (\<forall>t. quiet (ts t)) \<and>
     \<not> (\<exists>ls' z. conc_run ls' (ts, s) z \<and> CloseReceiver 0 \<notin> set ls' \<and>
          fst (rx_recv 0 (cb_bus (snd z))) \<noteq> Pending)"
proof -
  obtain ls ts s where run: "perform_all (late_schedule [] demo_options) conc_start = Some (ls, (ts, s))"
    and res: "CloseReceiver 0 \<notin> set ls" "ts 0 = Returned (ReplyCell (Inr 0))"
      "ts 1 = Returned (ReplyUnit (Inr ()))" and str: "stranded 0 ts s"
    using late_schedule_run by blast
  have "\<not> (\<exists>ls' z. conc_run ls' (ts, s) z \<and> CloseReceiver 0 \<notin> set ls' \<and>
      fst (rx_recv 0 (cb_bus (snd z))) \<noteq> Pending)"
    using stranded_run [of _ "(ts, s)"] stranded_pending str by (metis fst_conv snd_conv)
  moreover have "vb_closed (cb_bus s)" "\<forall>t. quiet (ts t)" using str by (simp_all add: stranded_def)
  ultimately show ?thesis using perform_all_run [OF run] res by blast
qed

end
