(* ===== verification/Bus_Progress.thy ===== *)
theory Bus_Progress
  imports Bus_Concurrency
begin

text \<open>
  Progress of the tasks of \<open>Bus_Concurrency\<close>: the mutex is always given back, so that every
  call that has begun can be completed by steps of tasks alone.
\<close>

section \<open>Composing runs\<close>

lemma conc_run_append: "conc_run ls' y z \<Longrightarrow> conc_run ls x y \<Longrightarrow> conc_run (ls @ ls') x z"
proof (induction rule: conc_run.induct)
  case (run_step ls' y z l w)
  then have "conc_run ((ls @ ls') @ [l]) x w" by (intro conc_run.run_step) auto
  then show ?case by simp
qed simp

text \<open>Task \<open>t\<close>, in \<open>p\<close>, comes to \<open>q\<close> with the bus \<open>s1\<close> when it runs alone.\<close>

definition gets_to :: "nat \<Rightarrow> pc \<times> conc_bus \<Rightarrow> pc \<times> conc_bus \<Rightarrow> bool" where
  "gets_to t x y \<longleftrightarrow> (\<exists>ck k n. alone t ck k n x = Some y)"

lemma gets_to_step: "micro t now p s = Some y \<Longrightarrow> gets_to t (p, s) y"
  unfolding gets_to_def by (intro exI [of _ "\<lambda>_. now"] exI [of _ 0] exI [of _ 1]) simp

lemma gets_to_run:
  assumes "gets_to t (p, s) (q, s1)" and "ts t = p"
  shows "\<exists>n. conc_run (replicate n (TaskStep t)) (ts, s) (ts(t := q), s1)"
  using assms alone_run unfolding gets_to_def by blast

lemma gets_to_broadcast: "\<exists>d e b. gets_to t (Broadcasting f subs d' e', s) (Broadcasting f [] d e, set_bus b s)"
  unfolding gets_to_def using alone_broadcast by blast

lemma gets_to_close: "\<exists>b. gets_to t (Closing subs, s) (Closing [], set_bus b s)"
  unfolding gets_to_def using alone_close by blast

section \<open>The holder of the mutex gives it back\<close>

text \<open>The system after some steps of one task.\<close>

definition reaches :: "nat \<Rightarrow> system \<Rightarrow> system \<Rightarrow> bool" where
  "reaches t x y \<longleftrightarrow> (\<exists>n. conc_run (replicate n (TaskStep t)) x y)"

lemma reaches_trans: "reaches t x y \<Longrightarrow> reaches t y z \<Longrightarrow> reaches t x z"
  unfolding reaches_def by (metis conc_run_append replicate_add)

lemma reaches_alone: "gets_to t (p, s) (q, s1) \<Longrightarrow> ts t = p \<Longrightarrow> reaches t (ts, s) (ts(t := q), s1)"
  using gets_to_run unfolding reaches_def by blast

lemma reaches_micro: "micro t now (ts t) s = Some (q, s1) \<Longrightarrow> reaches t (ts, s) (ts(t := q), s1)"
  using gets_to_step [of t now "ts t" s] reaches_alone by blast

text \<open>Two stages of one task make one.\<close>

lemma reaches_alone_micro:
  assumes "gets_to t (p, s) (q, s1)" and "ts t = p" and "micro t now q s1 = Some (q', s2)"
  shows "reaches t (ts, s) (ts(t := q'), s2)"
proof -
  have "reaches t (ts(t := q), s1) ((ts(t := q))(t := q'), s2)"
    using assms(3) by (intro reaches_micro) simp
  with reaches_alone [of t p s q s1 ts] assms(1,2) reaches_trans show ?thesis by fastforce
qed

lemma holder_releases:
  assumes "holds (ts t)"
  shows "\<exists>q s1. reaches t (ts, s) (ts(t := q), s1) \<and> cb_holder s1 = None \<and>
    (\<exists>r. q = Returned r \<or> (\<exists>f d e. q = Counting f d e))"
proof (cases "ts t")
  case (Closing subs)
  obtain b where "gets_to t (Closing subs, s) (Closing [], set_bus b s)" using gets_to_close by blast
  from reaches_alone_micro [OF this, of ts] Closing show ?thesis by fastforce
next
  case (Broadcasting f subs d' e')
  obtain d e b where "gets_to t (Broadcasting f subs d' e', s) (Broadcasting f [] d e, set_bus b s)"
    using gets_to_broadcast by blast
  from reaches_alone_micro [OF this, of ts] Broadcasting show ?thesis by fastforce
qed (use assms in simp_all)

definition completes :: "nat \<Rightarrow> system \<Rightarrow> bool" where
  "completes t x \<longleftrightarrow> (\<exists>r s1. reaches t x ((fst x)(t := Returned r), s1))"

lemma completes_after:
  assumes "reaches t (ts, s) (ts(t := q), s1)" and "completes t (ts(t := q), s1)"
  shows "completes t (ts, s)"
proof -
  obtain r s2 where "reaches t (ts(t := q), s1) ((ts(t := q))(t := Returned r), s2)"
    using assms(2) unfolding completes_def by auto
  from reaches_trans [OF assms(1) this] show ?thesis
    unfolding completes_def by (metis fst_conv fun_upd_upd)
qed

lemma completes_step:
  assumes "micro t now (ts t) s = Some (q, s1)" and "completes t (ts(t := q), s1)"
  shows "completes t (ts, s)"
  using reaches_micro [of t now ts s q s1] assms completes_after by blast

lemma completes_returned: "ts t = Returned r \<Longrightarrow> completes t (ts, s)"
  unfolding completes_def reaches_def
  by (rule exI [of _ r], rule exI [of _ s], rule exI [of _ 0])
    (use conc_run.run_refl [of "(ts, s)"] in \<open>simp add: fun_upd_idem\<close>)

lemma completes_reply:
  assumes "\<exists>r s1. micro t now (ts t) s = Some (Returned r, s1)"
  shows "completes t (ts, s)"
proof -
  obtain r s1 where "micro t now (ts t) s = Some (Returned r, s1)" using assms by blast
  moreover have "completes t (ts(t := Returned r), s1)" by (rule completes_returned) simp
  ultimately show ?thesis by (rule completes_step)
qed

lemma completes_counting: "ts t = Counting f d e \<Longrightarrow> completes t (ts, s)"
  by (rule completes_reply [where now = 0]) simp

lemma holder_completes:
  assumes "holds (ts t)"
  shows "completes t (ts, s)"
proof -
  obtain q s1 r f d e where "reaches t (ts, s) (ts(t := q), s1)"
    and "q = Returned r \<or> q = Counting f d e"
    using holder_releases [where ts = ts and t = t, OF assms, of s] by blast
  then show ?thesis
    using completes_after completes_returned completes_counting by (metis fun_upd_same)
qed

lemma free_completes:
  assumes free: "cb_holder s = None"
  shows "completes t (ts, s)"
proof (cases "ts t")
  case (Begin c)
  obtain ck n res where "finishes_as t ck n c s res"
    using alone_publish [OF free] alone_subscribe [OF free] alone_closes [OF free]
      alone_sends [OF free] alone_schedule [OF free] by (metis task_call.exhaust)
  then obtain s1 where "gets_to t (Begin c, s) (Returned (fst res), s1)"
    unfolding finishes_as_def gets_to_def by blast
  from reaches_alone [where ts = ts, OF this Begin] show ?thesis unfolding completes_def by auto
next
  case (Inserting i d ct)
  with free show ?thesis by (intro completes_reply [where now = 0]) simp
next
  case (Joining flts c)
  with free show ?thesis by (intro completes_reply [where now = 0]) simp
next
  case Shutting
  with free have "micro t 0 (ts t) s = Some (Closing (vb_subs (cb_bus s)), s\<lparr>cb_holder := Some t\<rparr>)"
    by simp
  moreover have "completes t (ts(t := Closing (vb_subs (cb_bus s))), s\<lparr>cb_holder := Some t\<rparr>)"
    by (rule holder_completes) simp
  ultimately show ?thesis by (rule completes_step)
next
  case (Looking i)
  obtain q s1 where look: "look_up t i s = (q, s1)" by (cases "look_up t i s")
  then have "(\<exists>r. q = Returned r) \<or> holds q" using look_up_cases [of t i s] by auto
  then have rest: "completes t (ts(t := q), s1)"
    using completes_returned [of "ts(t := q)" t] holder_completes [of "ts(t := q)" t] by auto
  have "micro t 0 (ts t) s = Some (q, s1)" using free Looking look by simp
  from completes_step [OF this rest] show ?thesis .
next
  case (Installing es)
  with free show ?thesis by (intro completes_reply [where now = 0]) simp
next
  case (Closing subs)
  then show ?thesis by (intro holder_completes) simp
next
  case (Broadcasting f subs d e)
  then show ?thesis by (intro holder_completes) simp
next
  case (Counting f d e)
  then show ?thesis by (rule completes_counting)
next
  case (Returned r)
  then show ?thesis by (rule completes_returned)
qed

section \<open>No call can get stuck\<close>

lemma calls_complete:
  assumes "conc_inv (ts, s)"
  shows "\<exists>ls' ts' s' r. conc_run ls' (ts, s) (ts', s') \<and> set ls' \<subseteq> range TaskStep \<and>
    ts' t = Returned r"
proof (cases "cb_holder s")
  case None
  from free_completes [OF this, of t ts] obtain n r s1
    where "conc_run (replicate n (TaskStep t)) (ts, s) (ts(t := Returned r), s1)"
    unfolding completes_def reaches_def by auto
  moreover have "set (replicate n (TaskStep t)) \<subseteq> range TaskStep" by (auto simp: set_replicate_conv_if)
  ultimately show ?thesis by (metis fun_upd_same)
next
  case (Some u)
  have "holds (ts u)"
    using assms Some by (simp add: conc_inv_def mutex_ok_def)
  from holder_releases [where ts = ts and t = u, OF this, of s] obtain m q s1
    where release: "conc_run (replicate m (TaskStep u)) (ts, s) (ts(u := q), s1)" "cb_holder s1 = None"
    unfolding reaches_def by blast
  from free_completes [OF release(2), of t "ts(u := q)"] obtain n r s2
    where "conc_run (replicate n (TaskStep t)) (ts(u := q), s1) ((ts(u := q))(t := Returned r), s2)"
    unfolding completes_def reaches_def by auto
  from conc_run_append [OF this release(1)]
  have "conc_run (replicate m (TaskStep u) @ replicate n (TaskStep t)) (ts, s)
    ((ts(u := q))(t := Returned r), s2)" .
  moreover have "set (replicate m (TaskStep u) @ replicate n (TaskStep t)) \<subseteq> range TaskStep"
    by (auto simp: set_replicate_conv_if)
  ultimately show ?thesis by (metis fun_upd_same)
qed

text \<open>
  Whatever tasks and receivers have done so far, every call of every task can still be
  completed: there is a continuation, of steps of tasks only, without new calls and without
  any receiver polling, in which that task gets its reply.  In particular the tasks never
  deadlock on the mutex of the bus.
\<close>

theorem concurrent_calls_complete:
  assumes "conc_run ls conc_start (ts, s)"
  shows "\<exists>ls' ts' s' r. conc_run ls' (ts, s) (ts', s') \<and> set ls' \<subseteq> range TaskStep \<and>
    ts' t = Returned r"
  by (rule calls_complete [OF conc_run_inv [OF assms conc_inv_start]])

theorem concurrent_calls_complete_witness:
  "\<exists>ts s ls' ts' s' r. (\<exists>subs. ts 0 = Broadcasting shared_frame subs 1 0) \<and>
     conc_run ls' (ts, s) (ts', s') \<and> set ls' \<subseteq> range TaskStep \<and> ts' 0 = Returned r"
proof -
  obtain ls ts s subs where run: "perform_all shared_schedule conc_start = Some (ls, (ts, s))"
    and "ts 0 = Broadcasting shared_frame subs 1 0"
    using shared_schedule_run by blast
  with concurrent_calls_complete [OF perform_all_run [OF run], of 0] show ?thesis by blast
qed

end
