(* ===== verification/Bus_Cancellation.thy ===== *)
theory Bus_Cancellation
  imports Bus_Closing Bus_Progress
begin

text \<open>
  Dropped calls.  A future of one of the asynchronous methods of \<open>src/virtual_bus/mod.rs\<close> can
  be dropped by its caller (a timeout, \<open>select\<close>, an aborted task) whenever it is suspended,
  and it is suspended only where the method waits for the mutex: \<open>self.inner.lock().await\<close>.
  What the method has done before that point stays done, and the rest is never done.
\<close>

section \<open>Runs with dropped calls\<close>

fun awaiting :: "pc \<Rightarrow> bool" where
  "awaiting (Inserting i d ct) \<longleftrightarrow> True"
| "awaiting (Joining flts c) \<longleftrightarrow> True"
| "awaiting Shutting \<longleftrightarrow> True"
| "awaiting (Looking i) \<longleftrightarrow> True"
| "awaiting (Installing es) \<longleftrightarrow> True"
| "awaiting _ \<longleftrightarrow> False"

datatype cancel_label = Normal label | Dropped nat

inductive cancel_run :: "cancel_label list \<Rightarrow> system \<Rightarrow> system \<Rightarrow> bool" where
  cancel_refl: "cancel_run [] x x"
| cancel_step: "cancel_run ls x y \<Longrightarrow> conc_step l y z \<Longrightarrow> cancel_run (ls @ [Normal l]) x z"
| cancel_drop: "cancel_run ls x (ts, s) \<Longrightarrow> awaiting (ts t) \<Longrightarrow>
    cancel_run (ls @ [Dropped t]) x (ts(t := Returned ReplyNone), s)"

lemma cancel_run_conc: "conc_run ls y z \<Longrightarrow> cancel_run ks x y \<Longrightarrow> cancel_run (ks @ map Normal ls) x z"
proof (induction rule: conc_run.induct)
  case (run_step ls y z l w)
  then have "cancel_run ((ks @ map Normal ls) @ [Normal l]) x w" by (intro cancel_run.cancel_step) auto
  then show ?case by simp
qed simp

section \<open>A dropped call leaves the bus in order\<close>

lemma awaiting_facts [simp]:
  "awaiting p \<Longrightarrow> \<not> holds p" "awaiting p \<Longrightarrow> to_serve p = {}"
  by (cases p; simp)+

lemma conc_inv_drop:
  assumes "conc_inv (ts, s)" and "awaiting (ts t)"
  shows "conc_inv (ts(t := Returned ReplyNone), s)"
proof -
  have inv: "mutex_ok (ts, s)" "tasks_ok (ts, s)" "order_ok ts s"
    using assms(1) by (simp_all add: conc_inv_def)
  have "mutex_ok (ts(t := Returned ReplyNone), s)"
    using assms(2) by (intro mutex_update [OF inv(1)]) simp
  moreover have "order_ok (ts(t := Returned ReplyNone)) s"
    using assms(2) by (intro order_unchanged [OF inv(3)]) simp_all
  ultimately show ?thesis using inv(2) by (simp add: conc_inv_def tasks_ok_def)
qed

lemma cancel_run_inv: "cancel_run ls x y \<Longrightarrow> conc_inv x \<Longrightarrow> conc_inv y"
  by (induction rule: cancel_run.induct) (auto intro: conc_step_inv conc_inv_drop)

text \<open>Before its await point a call other than \<open>close\<close> has changed nothing.\<close>

lemma awaiting_no_effect:
  "micro t now (Begin c) s = Some (p, s1) \<Longrightarrow> awaiting p \<Longrightarrow> c \<noteq> TClose \<Longrightarrow> s1 = s"
  by (cases c) (auto simp: Let_def split: if_splits option.splits sum.splits)

section \<open>A dropped \<open>close\<close>\<close>

lemma stranded_drop: "stranded r ts s \<Longrightarrow> stranded r (ts(t := Returned ReplyNone)) s"
  by (simp add: stranded_def)

lemma stranded_cancel:
  "cancel_run ls x y \<Longrightarrow> Normal (CloseReceiver r) \<notin> set ls \<Longrightarrow> stranded r (fst x) (snd x) \<Longrightarrow>
     stranded r (fst y) (snd y)"
proof (induction rule: cancel_run.induct)
  case (cancel_step ls x y l z)
  then show ?case using stranded_step [of l y z r] by auto
next
  case (cancel_drop ls x ts s t)
  then have "stranded r ts s" by simp
  then show ?case unfolding fst_conv snd_conv by (rule stranded_drop)
qed simp

text \<open>
  Task 1 subscribes to other identifiers than the one it sends; task 0 calls \<open>close\<close> and sets
  the flag while task 1 holds the mutex.
\<close>

definition before_drop :: "action list" where
  "before_drop =
     [Call 1 (TSubscribe [\<lparr>flt_id = 0x11, flt_all = False\<rparr>] demo_options), Run 1 0, Run 1 0,
      Call 1 (TPublish 0x10 (Some [1, 2]) Enhanced), Run 1 0, Run 1 0,
      Call 1 (TSend 0x10), Run 1 0, Run 1 0, Call 0 TClose, Run 0 0]"

lemma before_drop_run:
  "\<exists>ls1 ts s ls2 ts2 s2. perform_all before_drop conc_start = Some (ls1, (ts, s)) \<and>
     ts 0 = Shutting \<and> cb_holder s = Some 1 \<and> vb_closed (cb_bus s) \<and> heap_size s = 1 \<and>
     perform_all [Run 1 0, Run 1 0, Run 1 0] (ts(0 := Returned ReplyNone), s) = Some (ls2, (ts2, s2)) \<and>
     set ls2 = {TaskStep 1} \<and> (\<forall>t. \<exists>r. ts2 t = Returned r) \<and> stranded 0 ts2 s2"
  by (simp add: before_drop_def conc_start_def conc_bus_new_def virtual_bus_new_def
      bus_inner_new_def sub_inner_new_def chan_depth_def demo_options_def add_subscriber_def
      put_response_def look_up_def collected_def live_subs_def count_written_def Let_def
      shared_frame_valid serve_eq vs_matches_def filter_matches_def stranded_def count_delivered_def
      heap_size_def LIN_MAX_ID_def LIN_MAX_DATA_LEN_def stored_type_def
      is_diagnostic_def LIN_DIAG_REQUEST_ID_def LIN_DIAG_RESPONSE_ID_def word_less_nat_alt)

lemma close_again: "vb_closed (cb_bus s) \<Longrightarrow> begin_call now TClose s = (Returned (ReplyUnit (Inr ())), s)"
  by simp

section \<open>What dropped calls can and cannot do\<close>

text \<open>
  C28: Dropping calls at their await points, any number of them, breaks nothing that other
  tasks rely on: with drops among the steps it is still true that at most one task is in a
  critical section, that the bus is well formed and every reply valid, that all receivers see
  subsequences of one order of exchanges, and that every call can be completed by steps of
  tasks alone, so the mutex is never lost with a dropped call.
\<close>

theorem dropped_calls_safe:
  assumes "cancel_run ls conc_start (ts, s)"
  shows "(holds (ts t) \<longleftrightarrow> cb_holder s = Some t) \<and> bus_ok (cb_bus s) \<and>
    pc_ok (heap_size s) (ts t) \<and> subseq (cb_received s r @ cell_queue (cb_bus s) r) (cb_sent s) \<and>
    (\<exists>ls' ts' s' q. conc_run ls' (ts, s) (ts', s') \<and> set ls' \<subseteq> range TaskStep \<and> ts' t = Returned q)"
proof -
  have inv: "conc_inv (ts, s)" using cancel_run_inv [OF assms conc_inv_start] .
  then have "order_ok ts s" by (simp add: conc_inv_def)
  from order_okD(4) [OF this, of r] inv calls_complete [OF inv, of t] show ?thesis
    by (simp add: conc_inv_def mutex_ok_def tasks_ok_def history_def)
qed

theorem dropped_calls_safe_witness:
  "\<exists>ts (s :: conc_bus) ls' ts' s' q. ts 0 = Returned ReplyNone \<and> cb_holder s = Some 1 \<and> holds (ts 1) \<and>
     bus_ok (cb_bus s) \<and> conc_run ls' (ts, s) (ts', s') \<and> ts' 1 = Returned q"
proof -
  obtain ls1 ts s where one: "perform_all before_drop conc_start = Some (ls1, (ts, s))"
    "ts 0 = Shutting" "cb_holder s = Some 1"
    using before_drop_run by blast
  have "cancel_run (map Normal ls1) conc_start (ts, s)"
    using cancel_run_conc [OF perform_all_run [OF one(1)] cancel_run.cancel_refl] by simp
  moreover have "awaiting (ts 0)" using one(2) by simp
  ultimately have "cancel_run (map Normal ls1 @ [Dropped 0]) conc_start (ts(0 := Returned ReplyNone), s)"
    by (rule cancel_run.cancel_drop)
  note safe = dropped_calls_safe [OF this, of 1]
  let ?ts = "ts(0 := Returned ReplyNone)"
  obtain ls' ts' s' q where "conc_run ls' (?ts, s) (ts', s')" "ts' 1 = Returned q" using safe by blast
  moreover have "?ts 0 = Returned ReplyNone" "holds (?ts 1)" "bus_ok (cb_bus s)"
    using safe one(3) by simp_all
  ultimately show ?thesis using one(3) by blast
qed

text \<open>
  C15: \<open>close\<close> must not be dropped.  When its caller gives up while another task holds the mutex,
  the closed flag is already set and the subscribers are never told: all other calls return,
  and from then on no run, dropped calls and further calls of \<open>close\<close> included, makes the
  receiver yield a frame or the end of the stream, short of closing that receiver itself;
  every later \<open>close\<close> finds the flag set and reports success at once.
\<close>

theorem dropped_close:
  "\<exists>ls ts s ls2 ts2 s2. conc_run ls conc_start (ts, s) \<and> ts 0 = Shutting \<and> cb_holder s = Some 1 \<and>
     conc_run ls2 (ts(0 := Returned ReplyNone), s) (ts2, s2) \<and> set ls2 = {TaskStep 1} \<and>
     (\<forall>t. \<exists>q. ts2 t = Returned q) \<and> heap_size s2 > 0 \<and>
     \<not> (\<exists>ls3 ts3 s3. cancel_run ls3 (ts2, s2) (ts3, s3) \<and> Normal (CloseReceiver 0) \<notin> set ls3 \<and>
          \<not> (fst (rx_recv 0 (cb_bus s3)) = Pending \<and>
             begin_call now TClose s3 = (Returned (ReplyUnit (Inr ())), s3)))"
proof -
  obtain ls1 ts s ls2 ts2 s2 where
    one: "perform_all before_drop conc_start = Some (ls1, (ts, s))" "ts 0 = Shutting" "cb_holder s = Some 1"
    and two: "perform_all [Run 1 0, Run 1 0, Run 1 0] (ts(0 := Returned ReplyNone), s) = Some (ls2, (ts2, s2))"
      "set ls2 = {TaskStep 1}" "\<forall>t. \<exists>q. ts2 t = Returned q"
    and str: "stranded 0 ts2 s2"
    using before_drop_run by blast
  have "fst (rx_recv 0 (cb_bus s3)) = Pending \<and>
      begin_call now TClose s3 = (Returned (ReplyUnit (Inr ())), s3)"
    if "cancel_run ls3 (ts2, s2) (ts3, s3)" "Normal (CloseReceiver 0) \<notin> set ls3" for ls3 ts3 s3
  proof -
    have "stranded 0 ts3 s3" using stranded_cancel [OF that] str by simp
    then show ?thesis using stranded_pending close_again by (simp add: stranded_def)
  qed
  moreover have "heap_size s2 > 0" using str by (simp add: stranded_def)
  ultimately show ?thesis
    using perform_all_run [OF one(1)] perform_all_run [OF two(1)] one(2,3) two(2,3) by blast
qed

end
