(* ===== verification/Bus_Provenance.thy ===== *)
theory Bus_Provenance
  imports Bus_Concurrency
begin

text \<open>
  Where the frames come from that the receivers of \<open>Bus_Concurrency\<close> get: nothing but what some
  task has published.
\<close>

text \<open>The payloads published by the calls of a run.\<close>

definition published :: "label list \<Rightarrow> u8 \<Rightarrow> bytes \<Rightarrow> bool" where
  "published ls i d \<longleftrightarrow> (\<exists>t ct. NewCall t (TPublish i (Some d) ct) \<in> set ls)"

text \<open>All payloads in the system satisfy \<open>P\<close>, and all frames sent are well formed.\<close>

fun pc_payload :: "(u8 \<Rightarrow> bytes \<Rightarrow> bool) \<Rightarrow> pc \<Rightarrow> bool" where
  "pc_payload P (Begin (TPublish i (Some d) ct)) \<longleftrightarrow> P i d"
| "pc_payload P (Inserting i (Some d) ct) \<longleftrightarrow> P i d"
| "pc_payload P _ \<longleftrightarrow> True"

definition table_payload :: "(u8 \<Rightarrow> bytes \<Rightarrow> bool) \<Rightarrow> virtual_bus \<Rightarrow> bool" where
  "table_payload P b \<longleftrightarrow> (\<forall>i r. vb_responses b i = Some r \<longrightarrow> P i (sr_data r))"

definition provenance :: "(u8 \<Rightarrow> bytes \<Rightarrow> bool) \<Rightarrow> system \<Rightarrow> bool" where
  "provenance P x \<longleftrightarrow> table_payload P (cb_bus (snd x)) \<and> (\<forall>t. pc_payload P (fst x t)) \<and>
     (\<forall>f \<in> set (cb_sent (snd x)). P (fr_id f) (fr_data f) \<and> sendable f)"

lemma pc_payload_mono: "pc_payload P p \<Longrightarrow> (\<And>i d. P i d \<Longrightarrow> Q i d) \<Longrightarrow> pc_payload Q p"
  by (cases "(P, p)" rule: pc_payload.cases) auto

lemma provenance_mono: "provenance P x \<Longrightarrow> (\<And>i d. P i d \<Longrightarrow> Q i d) \<Longrightarrow> provenance Q x"
  unfolding provenance_def table_payload_def using pc_payload_mono by blast

lemma table_payload_frame:
  "vb_inner b = vb_inner c \<Longrightarrow> table_payload P b = table_payload P c"
  by (simp add: table_payload_def)

lemma provenance_micro:
  assumes "micro t now p s = Some (q, s1)" and "table_payload P (cb_bus s)" and "pc_payload P p"
    and "\<forall>f \<in> set (cb_sent s). P (fr_id f) (fr_data f) \<and> sendable f"
  shows "table_payload P (cb_bus s1) \<and> pc_payload P q \<and>
    (\<forall>f \<in> set (cb_sent s1). P (fr_id f) (fr_data f) \<and> sendable f)"
proof (cases "(t, now, p, s)" rule: micro.cases)
  case (1 t' now' c s')
  then have q: "q = fst (begin_call now c s)" "s1 = snd (begin_call now c s)"
    using assms(1) by (simp_all add: prod_eq_iff)
  have "pc_payload P q"
    using assms(3) 1 q by (cases c) (auto simp: Let_def split: option.splits sum.split)
  then show ?thesis
    using assms(2,4) q table_payload_frame [of "cb_bus s1" "cb_bus s" P] by simp
next
  case (2 t' now' i d ct s')
  then show ?thesis
    using assms by (cases d) (auto simp: table_payload_def put_response_def split: if_splits)
next
  case (7 t' now' i s')
  then have "look_up t i s = (q, s1)" using assms(1) by (auto split: if_splits)
  with look_up_cases [of t i s] assms(2,4) show ?thesis
    by (auto simp: table_payload_def count_error_def collected_def sendable_def count_written_def)
next
  case (8 t' now' f sub subs delivered dropped s')
  obtain v b where serve: "serve now f sub (cb_bus s) = (v, b)" by (cases "serve now f sub (cb_bus s)")
  then have "vb_inner b = vb_inner (cb_bus s)" using serve_sel(2) [of now f sub "cb_bus s"] by simp
  then show ?thesis
    using assms 8 serve table_payload_frame [of b "cb_bus s" P]
    by (auto split: option.splits bool.splits)
qed (use assms in \<open>auto simp: table_payload_def add_subscriber_def rx_close_def count_delivered_def split: if_splits\<close>)

lemma provenance_step:
  assumes "conc_step l x y" and "provenance P x"
    and "\<And>t i d ct. l = NewCall t (TPublish i (Some d) ct) \<Longrightarrow> P i d"
  shows "provenance P y"
  using assms(1)
proof cases
  case (conc_task t now ts s p s1)
  have p: "table_payload P (cb_bus s)" "pc_payload P (ts t)"
    "\<forall>f \<in> set (cb_sent s). P (fr_id f) (fr_data f) \<and> sendable f"
    using assms(2) conc_task(2) by (simp_all add: provenance_def)
  show ?thesis
    using provenance_micro [OF conc_task(4) p] assms(2) conc_task(2,3) by (simp add: provenance_def)
next
  case (conc_call ts t r c s)
  have "pc_payload P (Begin c)"
    using assms(3) conc_call(1) by (cases "(P, Begin c)" rule: pc_payload.cases) auto
  then show ?thesis using assms(2) conc_call(2,3) by (simp add: provenance_def)
next
  case (conc_poll r s p b ts)
  then have "vb_inner b = vb_inner (cb_bus s)" by (auto simp: rx_recv_def split: prod.splits)
  then show ?thesis
    using assms(2) conc_poll(2,3) table_payload_frame [of b "cb_bus s" P] by (simp add: provenance_def)
next
  case (conc_rx_close r s ts)
  then show ?thesis
    using assms(2) table_payload_frame [of "rx_close r (cb_bus s)" "cb_bus s" P]
    by (simp add: provenance_def)
qed

lemma provenance_run:
  "conc_run ls x y \<Longrightarrow> x = conc_start \<Longrightarrow> provenance (published ls) y"
proof (induction rule: conc_run.induct)
  case (run_refl x)
  then show ?case
    by (simp add: provenance_def conc_start_def conc_bus_new_def table_payload_def
        virtual_bus_new_def bus_inner_new_def)
next
  case (run_step ls x y l z)
  have "provenance (published (ls @ [l])) y"
    by (rule provenance_mono [OF run_step.IH [OF run_step.prems]]) (auto simp: published_def)
  with run_step.hyps(2) show ?case
    by (rule provenance_step) (auto simp: published_def)
qed

text \<open>
  C9: No receiver gets anything that was not published: under every interleaving each frame
  that any receiver has received or has in its queue carries an identifier and a payload with
  which some task has called \<open>publish\<close>, whole, and it is a valid frame with the checksum of that
  payload.
\<close>

theorem received_was_published:
  assumes "conc_run ls conc_start (ts, s)" and "f \<in> set (cb_received s r @ cell_queue (cb_bus s) r)"
  shows "(\<exists>t ct. NewCall t (TPublish (fr_id f) (Some (fr_data f)) ct) \<in> set ls) \<and>
    validate_frame f = Inr () \<and>
    fr_checksum f = calc_checksum (protect_id (fr_id f)) (fr_data f) (fr_checksum_type f)"
proof -
  have "order_ok ts s"
    using conc_run_inv [OF assms(1) conc_inv_start] by (simp add: conc_inv_def)
  from order_okD(4) [OF this, of r] have "subseq (cb_received s r @ cell_queue (cb_bus s) r) (cb_sent s)"
    by (simp add: history_def)
  then have "f \<in> set (cb_sent s)" by (rule list_emb_set [OF _ assms(2)]) simp
  with provenance_run [OF assms(1) refl] show ?thesis
    by (auto simp: provenance_def published_def sendable_def)
qed

theorem received_was_published_witness:
  "\<exists>ls. (\<exists>t ct. NewCall t (TPublish (fr_id shared_frame) (Some (fr_data shared_frame)) ct) \<in> set ls) \<and>
     validate_frame shared_frame = Inr ()"
proof -
  obtain ls ts s where run: "perform_all shared_schedule conc_start = Some (ls, (ts, s))"
    and "cb_received s 0 = [shared_frame]"
    using shared_schedule_run by blast
  then have "shared_frame \<in> set (cb_received s 0 @ cell_queue (cb_bus s) 0)" by simp
  from received_was_published [OF perform_all_run [OF run] this] show ?thesis by blast
qed

end
