(* ===== verification/Receiver_Sharing.thy ===== *)
theory Receiver_Sharing
  imports Receiver_Wakeup
begin

text \<open>
  One \<open>FrameReceiver\<close> of \<open>src/bus.rs\<close> used by several tasks: \<open>recv\<close> takes \<open>&self\<close>, so tasks
  can share it.  Every task runs the steps of \<open>Receiver_Wakeup\<close> on its own program counter,
  on the one cell and the one notification object.  That object keeps at most one permit
  however many frames are pushed, and this is where sharing differs from a single receiver.
\<close>

section \<open>The notification object with several waiters\<close>

text \<open>
  \<open>N t\<close> are the operations as task \<open>t\<close> calls them.  \<open>notify_one\<close> wakes one of the waiting
  tasks and stores a permit if there is none; the permit goes to the next task that waits.
\<close>

definition many_laws :: "(nat \<Rightarrow> 'n tokio_notify) \<Rightarrow> ('n \<Rightarrow> bool \<times> (nat \<Rightarrow> waiter)) \<Rightarrow> bool" where
  "many_laws N view \<longleftrightarrow>
     (\<forall>n p w t. view n = (p, w) \<longrightarrow>
        (if \<exists>u. w u = Sleeping
         then \<exists>u. w u = Sleeping \<and> view (tn_notify_one (N t) n) = (p, w(u := Woken))
         else view (tn_notify_one (N t) n) = (True, w)) \<and>
        view (tn_notify_waiters (N t) n) = (p, \<lambda>u. if w u = Sleeping then Woken else w u) \<and>
        (w t = NoWaiter \<longrightarrow> fst (tn_notified (N t) n) = p \<and>
           view (snd (tn_notified (N t) n)) = (False, if p then w else w(t := Sleeping))) \<and>
        fst (tn_poll (N t) n) = (w t = Woken) \<and>
        view (snd (tn_poll (N t) n)) = (p, if w t = Woken then w(t := NoWaiter) else w))"

lemma many_lawsD:
  assumes "many_laws N view" and "view n = (p, w)"
  shows "w u = Sleeping \<Longrightarrow> \<exists>u. w u = Sleeping \<and> view (tn_notify_one (N t) n) = (p, w(u := Woken))"
    and "\<forall>u. w u \<noteq> Sleeping \<Longrightarrow> view (tn_notify_one (N t) n) = (True, w)"
    and "view (tn_notify_waiters (N t) n) = (p, \<lambda>u. if w u = Sleeping then Woken else w u)"
    and "w t = NoWaiter \<Longrightarrow> fst (tn_notified (N t) n) = p"
    and "w t = NoWaiter \<Longrightarrow> view (snd (tn_notified (N t) n)) = (False, if p then w else w(t := Sleeping))"
    and "fst (tn_poll (N t) n) = (w t = Woken)"
    and "view (snd (tn_poll (N t) n)) = (p, if w t = Woken then w(t := NoWaiter) else w)"
proof -
  have law: "(if \<exists>u. w u = Sleeping
         then \<exists>u. w u = Sleeping \<and> view (tn_notify_one (N t) n) = (p, w(u := Woken))
         else view (tn_notify_one (N t) n) = (True, w))"
    using assms unfolding many_laws_def by blast
  show "w u = Sleeping \<Longrightarrow> \<exists>u. w u = Sleeping \<and> view (tn_notify_one (N t) n) = (p, w(u := Woken))"
    and "\<forall>u. w u \<noteq> Sleeping \<Longrightarrow> view (tn_notify_one (N t) n) = (True, w)"
    using law by (meson, presburger)
  show "view (tn_notify_waiters (N t) n) = (p, \<lambda>u. if w u = Sleeping then Woken else w u)"
    and "w t = NoWaiter \<Longrightarrow> fst (tn_notified (N t) n) = p"
    and "w t = NoWaiter \<Longrightarrow> view (snd (tn_notified (N t) n)) = (False, if p then w else w(t := Sleeping))"
    and "fst (tn_poll (N t) n) = (w t = Woken)"
    and "view (snd (tn_poll (N t) n)) = (p, if w t = Woken then w(t := NoWaiter) else w)"
    using assms unfolding many_laws_def by blast+
qed

section \<open>The tasks\<close>

record 'n shared_rx =
  sh_pc :: "nat \<Rightarrow> recv_pc"
  sh_cell :: sub_inner
  sh_notify :: 'n
  sh_closers :: nat

text \<open>What task \<open>t\<close> sees of it, and the whole after a step of that task.\<close>

definition focus :: "nat \<Rightarrow> 'n shared_rx \<Rightarrow> 'n recv_task" where
  "focus t x = \<lparr>rt_pc = sh_pc x t, rt_cell = sh_cell x, rt_notify = sh_notify x, rt_closers = sh_closers x\<rparr>"

definition refocus :: "nat \<Rightarrow> 'n shared_rx \<Rightarrow> 'n recv_task \<Rightarrow> 'n shared_rx" where
  "refocus t x y = \<lparr>sh_pc = (sh_pc x)(t := rt_pc y), sh_cell = rt_cell y, sh_notify = rt_notify y,
     sh_closers = rt_closers y\<rparr>"

definition share_step :: "(nat \<Rightarrow> 'n tokio_notify) \<Rightarrow> nat \<times> wake_event \<Rightarrow> 'n shared_rx \<Rightarrow>
    'n shared_rx option" where
  "share_step N te x = map_option (refocus (fst te) x) (wake_step (N (fst te)) (snd te) (focus (fst te) x))"

fun share_run :: "(nat \<Rightarrow> 'n tokio_notify) \<Rightarrow> (nat \<times> wake_event) list \<Rightarrow> 'n shared_rx \<Rightarrow>
    'n shared_rx option" where
  "share_run N [] x = Some x"
| "share_run N (te # es) x =
     (case share_step N te x of None \<Rightarrow> None | Some y \<Rightarrow> share_run N es y)"

definition shared_rx_new :: "sub_inner \<Rightarrow> 'n \<Rightarrow> 'n shared_rx" where
  "shared_rx_new c n = \<lparr>sh_pc = (\<lambda>t. Popping), sh_cell = c, sh_notify = n, sh_closers = 0\<rparr>"

lemma focus_sel [simp]:
  "rt_pc (focus t x) = sh_pc x t" "rt_cell (focus t x) = sh_cell x"
  "rt_notify (focus t x) = sh_notify x" "rt_closers (focus t x) = sh_closers x"
  by (simp_all add: focus_def)

lemma refocus_sel [simp]:
  "sh_pc (refocus t x y) = (sh_pc x)(t := rt_pc y)" "sh_cell (refocus t x y) = rt_cell y"
  "sh_notify (refocus t x y) = rt_notify y" "sh_closers (refocus t x y) = rt_closers y"
  by (simp_all add: refocus_def)

lemma share_run_invariant:
  assumes "\<And>te x y. share_step N te x = Some y \<Longrightarrow> P x \<Longrightarrow> te \<in> A \<Longrightarrow> P y"
    and "share_run N es x = Some y" and "P x" and "set es \<subseteq> A"
  shows "P y"
  using assms(2-4)
proof (induction es arbitrary: x)
  case (Cons e es)
  then obtain z where "share_step N e x = Some z" "share_run N es z = Some y"
    by (auto split: option.splits)
  with Cons assms(1) [of e x z] show ?case by auto
qed simp

section \<open>The tasks never all sleep on a frame\<close>

text \<open>Somebody will look at the queue again.\<close>

definition attended :: "nat set \<Rightarrow> bool \<Rightarrow> (nat \<Rightarrow> waiter) \<Rightarrow> (nat \<Rightarrow> recv_pc) \<Rightarrow> bool" where
  "attended T p w pcs \<longleftrightarrow> p \<or>
     (\<exists>t \<in> T. w t = Woken \<or> pcs t = Popping \<or> pcs t = Draining \<or> (\<exists>r. pcs t = Done r))"

definition share_inv :: "nat set \<Rightarrow> ('n \<Rightarrow> bool \<times> (nat \<Rightarrow> waiter)) \<Rightarrow> 'n shared_rx \<Rightarrow> bool" where
  "share_inv T view x \<longleftrightarrow>
     (\<forall>t. sh_pc x t = Asleep \<longleftrightarrow> snd (view (sh_notify x)) t \<noteq> NoWaiter) \<and>
     (\<forall>t. sh_pc x t = Asleep \<longrightarrow> t \<in> T) \<and>
     (fst (view (sh_notify x)) \<longrightarrow> (\<forall>t. snd (view (sh_notify x)) t \<noteq> Sleeping)) \<and>
     (queue (sh_cell x) \<noteq> [] \<longrightarrow>
        attended T (fst (view (sh_notify x))) (snd (view (sh_notify x))) (sh_pc x))"

lemma share_invI:
  assumes "view (sh_notify x) = (p, w)"
    and "\<And>t. sh_pc x t = Asleep \<longleftrightarrow> w t \<noteq> NoWaiter" and "\<And>t. sh_pc x t = Asleep \<Longrightarrow> t \<in> T"
    and "\<And>t. p \<Longrightarrow> w t \<noteq> Sleeping"
    and "queue (sh_cell x) \<noteq> [] \<Longrightarrow> attended T p w (sh_pc x)"
  shows "share_inv T view x"
  using assms by (simp add: share_inv_def)

lemma share_invD:
  assumes "share_inv T view x" and "view (sh_notify x) = (p, w)"
  shows "sh_pc x u = Asleep \<longleftrightarrow> w u \<noteq> NoWaiter" and "sh_pc x u = Asleep \<Longrightarrow> u \<in> T"
    and "p \<Longrightarrow> w u \<noteq> Sleeping" and "queue (sh_cell x) \<noteq> [] \<Longrightarrow> attended T p w (sh_pc x)"
  using assms by (simp_all add: share_inv_def)

lemma share_inv_new:
  assumes "view n = (p, \<lambda>t. NoWaiter)" and "T \<noteq> {}"
  shows "share_inv T view (shared_rx_new c n)"
proof -
  have "attended T p (\<lambda>t. NoWaiter) (\<lambda>t. Popping)" using assms(2) by (auto simp: attended_def)
  with assms(1) show ?thesis
    by (intro share_invI [of _ _ p "\<lambda>t. NoWaiter"]) (simp_all add: shared_rx_new_def)
qed

text \<open>Task \<open>t\<close> moves on: who attends to the queue afterwards.\<close>

lemma attended_here:
  "t \<in> T \<Longrightarrow> q = Popping \<or> q = Draining \<or> (\<exists>r. q = Done r) \<Longrightarrow> attended T p w (pcs(t := q))"
  unfolding attended_def by auto

lemma attended_mono:
  "attended T p w pcs \<Longrightarrow> (\<And>u. w u = Woken \<Longrightarrow> w' u = Woken) \<Longrightarrow> attended T p w' pcs"
  unfolding attended_def by blast

lemma attended_elsewhere:
  assumes "attended T p w pcs" and "pcs t = Checking \<or> pcs t = Waiting \<or> pcs t = Asleep" and "w t \<noteq> Woken"
    and "p \<Longrightarrow> p'" and "\<And>u. u \<noteq> t \<Longrightarrow> w' u = w u"
  shows "attended T p' w' (pcs(t := q))"
proof -
  have "p' \<or> (\<exists>u \<in> T. u \<noteq> t \<and> (w u = Woken \<or> pcs u = Popping \<or> pcs u = Draining \<or> (\<exists>r. pcs u = Done r)))"
    using assms(1-4) unfolding attended_def by fastforce
  then show ?thesis using assms(5) unfolding attended_def by (metis fun_upd_other)
qed

lemma share_inv_wait:
  assumes laws: "many_laws N view" and inv: "share_inv T view x" and t: "t \<in> T"
    and pc: "sh_pc x t = Waiting"
  shows "share_inv T view (refocus t x (recv_step (N t) (focus t x)))"
proof -
  obtain p w where v: "view (sh_notify x) = (p, w)" by (cases "view (sh_notify x)")
  note law = many_lawsD [OF laws v]
  note sleep = share_invD(1-3) [OF inv v] and att = share_invD(4) [OF inv v]
  have w: "w t = NoWaiter" using sleep(1) [of t] pc by auto
  let ?n = "snd (tn_notified (N t) (sh_notify x))"
  have step: "recv_step (N t) (focus t x) =
      (focus t x)\<lparr>rt_pc := if p then Popping else Asleep, rt_notify := ?n\<rparr>"
    using pc law(4) [of t] w
    by (cases "tn_notified (N t) (sh_notify x)") (auto simp: recv_step_def)
  show ?thesis
  proof (cases p)
    case True
    with law(5) [of t] w sleep t show ?thesis
      by (intro share_invI [of _ _ False w]) (auto simp: step intro: attended_here split: if_splits)
  next
    case False
    with law(5) [of t] w sleep t att pc show ?thesis
      by (intro share_invI [of _ _ False "w(t := Sleeping)"]) (auto simp: step intro: attended_elsewhere split: if_splits)
  qed
qed

lemma share_inv_poll:
  assumes laws: "many_laws N view" and inv: "share_inv T view x" and t: "t \<in> T"
    and pc: "sh_pc x t = Asleep"
  shows "share_inv T view (refocus t x (recv_step (N t) (focus t x)))"
proof -
  obtain p w where v: "view (sh_notify x) = (p, w)" by (cases "view (sh_notify x)")
  note law = many_lawsD [OF laws v]
  note sleep = share_invD(1-3) [OF inv v] and att = share_invD(4) [OF inv v]
  let ?n = "snd (tn_poll (N t) (sh_notify x))"
  have step: "recv_step (N t) (focus t x) =
      (focus t x)\<lparr>rt_pc := if w t = Woken then Popping else Asleep, rt_notify := ?n\<rparr>"
    using pc law(6) [of t]
    by (cases "tn_poll (N t) (sh_notify x)") (auto simp: recv_step_def)
  show ?thesis
  proof (cases "w t = Woken")
    case True
    with law(7) [of t] sleep t show ?thesis
      by (intro share_invI [of _ _ p "w(t := NoWaiter)"]) (auto simp: step intro: attended_here split: if_splits)
  next
    case False
    with law(7) [of t] sleep att pc show ?thesis
      by (intro share_invI [of _ _ p w]) (auto simp: step fun_upd_idem)
  qed
qed

lemma share_inv_turn:
  assumes laws: "many_laws N view" and inv: "share_inv T view x" and t: "t \<in> T"
  shows "share_inv T view (refocus t x (recv_step (N t) (focus t x)))"
proof -
  obtain p w where v: "view (sh_notify x) = (p, w)" by (cases "view (sh_notify x)")
  note sleep = share_invD(1-3) [OF inv v] and att = share_invD(4) [OF inv v]
  show ?thesis
  proof (cases "sh_pc x t")
    case Popping
    then have "w t = NoWaiter" using sleep(1) [of t] by auto
    with Popping v sleep t show ?thesis
      by (cases "queue (sh_cell x)"; intro share_invI [of _ _ p w])
        (auto simp: recv_step_def sub_pop_def intro: attended_here split: if_splits)
  next
    case Checking
    then have w: "w t = NoWaiter" using sleep(1) [of t] by auto
    with Checking v sleep att show ?thesis
      by (intro share_invI [of _ _ p w]) (auto simp: recv_step_def intro: attended_elsewhere split: if_splits)
  next
    case Draining
    then have "w t = NoWaiter" using sleep(1) [of t] by auto
    with Draining v sleep t show ?thesis
      by (cases "queue (sh_cell x)"; intro share_invI [of _ _ p w])
        (auto simp: recv_step_def sub_pop_def intro: attended_here split: if_splits)
  next
    case Waiting
    then show ?thesis by (rule share_inv_wait [OF laws inv t])
  next
    case Asleep
    then show ?thesis by (rule share_inv_poll [OF laws inv t])
  next
    case (Done r)
    with v sleep att show ?thesis
      by (intro share_invI [of _ _ p w]) (auto simp: recv_step_def fun_upd_idem)
  next
    case GivenUp
    with v sleep att show ?thesis
      by (intro share_invI [of _ _ p w]) (auto simp: recv_step_def fun_upd_idem)
  qed
qed

lemma share_inv_push:
  assumes laws: "many_laws N view" and inv: "share_inv T view x"
    and step: "share_step N (t, Pushed now f) x = Some y"
  shows "share_inv T view y"
proof -
  obtain p w where v: "view (sh_notify x) = (p, w)" by (cases "view (sh_notify x)")
  note law = many_lawsD [OF laws v]
  note sleep = share_invD(1-3) [OF inv v] and att = share_invD(4) [OF inv v]
  have y: "sh_pc y = sh_pc x" "sh_cell y = snd (push now f (sh_cell x))"
    "sh_notify y = (if fst (push now f (sh_cell x)) then tn_notify_one (N t) (sh_notify x) else sh_notify x)"
    using step by (auto simp: share_step_def split: prod.splits)
  show ?thesis
  proof (cases "fst (push now f (sh_cell x))")
    case False
    with y v sleep att show ?thesis by (intro share_invI [of _ _ p w]) (auto simp: push_queue)
  next
    case True
    show ?thesis
    proof (cases "\<exists>u. w u = Sleeping")
      case True
      then obtain u where u: "w u = Sleeping" "view (tn_notify_one (N t) (sh_notify x)) = (p, w(u := Woken))"
        using law(1) by blast
      have "u \<in> T" using sleep [of u] u(1) by simp
      with u y v sleep \<open>fst (push now f (sh_cell x))\<close> show ?thesis
        by (intro share_invI [of _ _ p "w(u := Woken)"]) (auto simp: attended_def)
    next
      case False
      with law(2) [of t] y sleep \<open>fst (push now f (sh_cell x))\<close> show ?thesis
        by (intro share_invI [of _ _ True w]) (auto simp: attended_def)
    qed
  qed
qed

lemma share_inv_step:
  assumes laws: "many_laws N view" and step: "share_step N te x = Some y" and inv: "share_inv T view x"
    and t: "fst te \<in> T" and e: "snd te \<noteq> GiveUp"
  shows "share_inv T view y"
proof -
  obtain t e where te: "te = (t, e)" by (cases te)
  obtain p w where v: "view (sh_notify x) = (p, w)" by (cases "view (sh_notify x)")
  note law = many_lawsD [OF laws v]
  note sleep = share_invD(1-3) [OF inv v] and att = share_invD(4) [OF inv v]
  show ?thesis
  proof (cases e)
    case Receiver
    with step te t show ?thesis using share_inv_turn [OF laws inv] by (auto simp: share_step_def)
  next
    case NextRecv
    then have y: "sh_pc y = (sh_pc x)(t := Popping)" "sh_cell y = sh_cell x" "sh_notify y = sh_notify x"
      and "sh_pc x t \<noteq> Asleep"
      using step te by (auto simp: share_step_def split: recv_pc.splits)
    with v sleep t te show ?thesis
      by (intro share_invI [of _ _ p w]) (auto intro: attended_here split: if_splits)
  next
    case GiveUp
    with e te show ?thesis by simp
  next
    case (Pushed now f)
    with step te show ?thesis using share_inv_push [OF laws inv] by blast
  next
    case FlagStored
    with step te v sleep att show ?thesis
      by (intro share_invI [of _ _ p w]) (auto simp: share_step_def fun_upd_idem)
  next
    case WaitersNotified
    then have y: "sh_pc y = sh_pc x" "sh_cell y = sh_cell x"
      "sh_notify y = tn_notify_waiters (N t) (sh_notify x)"
      using step te by (auto simp: share_step_def fun_upd_idem split: nat.splits)
    with law(3) [of t] sleep att show ?thesis
      by (intro share_invI [of _ _ p "\<lambda>u. if w u = Sleeping then Woken else w u"])
        (auto split: if_splits intro: attended_mono)
  qed
qed

lemma share_inv_run:
  assumes "many_laws N view" and "share_run N es x = Some y" and "share_inv T view x"
    and "set es \<subseteq> T \<times> (- {GiveUp})"
  shows "share_inv T view y"
  using share_run_invariant [of N "share_inv T view" "T \<times> (- {GiveUp})" es x y]
    share_inv_step [OF assms(1)] assms(2-4) by force

text \<open>A sleeping task that nobody wakes keeps sleeping.\<close>

definition stranded_at :: "('n \<Rightarrow> bool \<times> (nat \<Rightarrow> waiter)) \<Rightarrow> nat \<Rightarrow> 'n shared_rx \<Rightarrow> bool" where
  "stranded_at view t x \<longleftrightarrow> sh_pc x t = Asleep \<and> snd (view (sh_notify x)) t = Sleeping"

lemma stranded_at_step:
  assumes laws: "many_laws N view" and step: "share_step N te x = Some y" and str: "stranded_at view t x"
    and te: "te \<in> {t} \<times> {Receiver, NextRecv}"
  shows "stranded_at view t y"
proof -
  obtain p w where v: "view (sh_notify x) = (p, w)" by (cases "view (sh_notify x)")
  have asleep: "sh_pc x t = Asleep" "w t = Sleeping" using str v by (simp_all add: stranded_at_def)
  from te consider "te = (t, Receiver)" | "te = (t, NextRecv)" by blast
  then show ?thesis
  proof cases
    case 1
    with step have y: "y = refocus t x (recv_step (N t) (focus t x))" by (simp add: share_step_def)
    show ?thesis
      using many_lawsD(6,7) [OF laws v, of t] asleep
      by (cases "tn_poll (N t) (sh_notify x)") (simp add: y recv_step_def stranded_at_def)
  next
    case 2
    with step asleep show ?thesis by (simp add: share_step_def)
  qed
qed

section \<open>An instance of the laws\<close>

text \<open>Two tasks, the lower number first; used for examples only.\<close>

definition pair_notify :: "nat \<Rightarrow> (bool \<times> (nat \<Rightarrow> waiter)) tokio_notify" where
  "pair_notify t =
     \<lparr>tn_notify_one = (\<lambda>(p, w). if \<exists>u. w u = Sleeping then (p, w((LEAST u. w u = Sleeping) := Woken))
        else (True, w)),
      tn_notify_waiters = (\<lambda>(p, w). (p, \<lambda>u. if w u = Sleeping then Woken else w u)),
      tn_notified = (\<lambda>(p, w). (p, False, if p then w else w(t := Sleeping))),
      tn_poll = (\<lambda>(p, w). (w t = Woken, p, if w t = Woken then w(t := NoWaiter) else w)),
      tn_drop = (\<lambda>(p, w). (p, w(t := NoWaiter)))\<rparr>"

lemma pair_notify_laws: "many_laws pair_notify id"
  unfolding many_laws_def pair_notify_def using LeastI_ex by (auto intro: LeastI)

section \<open>What sharing keeps and what it loses\<close>

text \<open>
  C19: However the tasks that share a receiver, pushes and closings interleave, the tasks never
  all sleep while a frame is queued.
\<close>

theorem shared_receiver_attended:
  assumes "many_laws N view" and "view n = (False, \<lambda>t. NoWaiter)" and "T \<noteq> {}"
    and "share_run N es (shared_rx_new c n) = Some x" and "set es \<subseteq> T \<times> (- {GiveUp})"
    and "\<forall>t \<in> T. sh_pc x t = Asleep \<and> snd (view (sh_notify x)) t \<noteq> Woken"
  shows "queue (sh_cell x) = []"
proof (rule ccontr)
  assume some: "queue (sh_cell x) \<noteq> []"
  obtain p w where v: "view (sh_notify x) = (p, w)" by (cases "view (sh_notify x)")
  have inv: "share_inv T view x"
    using share_inv_run [OF assms(1,4) _ assms(5)] share_inv_new [where view = view, OF assms(2,3)] by blast
  obtain t where t: "t \<in> T" using assms(3) by blast
  then have "w t = Sleeping"
    using assms(6) inv v by (cases "w t") (auto simp: share_inv_def)
  then have "\<not> p" using inv v by (auto simp: share_inv_def)
  moreover have "attended T p w (sh_pc x)" using inv v some by (simp add: share_inv_def)
  ultimately show False using assms(6) v by (auto simp: attended_def)
qed

theorem shared_receiver_attended_witness:
  "\<exists>x. share_run pair_notify [(0, Receiver), (0, Receiver), (0, Receiver)]
      (shared_rx_new demo_cell (False, \<lambda>t. NoWaiter)) = Some x \<and> sh_pc x 0 = Asleep \<and> queue (sh_cell x) = []"
proof -
  let ?es = "[(0, Receiver), (0, Receiver), (0, Receiver)]" and ?s = "shared_rx_new demo_cell (False, \<lambda>t. NoWaiter)"
  obtain x where x: "share_run pair_notify ?es ?s = Some x" "sh_pc x 0 = Asleep"
    "sh_notify x = (False, (\<lambda>t. NoWaiter)(0 := Sleeping))"
    by (simp add: shared_rx_new_def share_step_def recv_step_def sub_pop_def sub_inner_new_def
        pair_notify_def focus_def refocus_def)
  have "queue (sh_cell x) = []"
    by (rule shared_receiver_attended [where T = "{0}", OF pair_notify_laws _ _ x(1)]) (simp_all add: x(2,3))
  with x(1,2) show ?thesis by blast
qed

text \<open>
  C20: But one of them can sleep on a frame.  Two tasks find the queue empty; two frames are
  pushed before either waits, and the object keeps one permit for both; the first task takes
  it and returns the first frame, the second sleeps with the other frame in the queue, and
  without another push, close or call of the first task nothing lets its call return.
\<close>

theorem shared_receiver_strands:
  assumes "many_laws N view" and "view n = (False, \<lambda>t. NoWaiter)"
  shows "\<exists>es x. share_run N es (shared_rx_new (sub_inner_new 2 DropNewest 0 0) n) = Some x \<and>
    sh_pc x 0 = Done (Some f) \<and> sh_pc x 1 = Asleep \<and> queue (sh_cell x) = [g] \<and> sh_closers x = 0 \<and>
    \<not> (\<exists>es' y r. set es' \<subseteq> {1} \<times> {Receiver, NextRecv} \<and> share_run N es' x = Some y \<and>
         sh_pc y 1 = Done r)"
proof -
  let ?c = "sub_inner_new 2 DropNewest 0 0"
  let ?none = "\<lambda>t :: nat. NoWaiter"
  define n1 where "n1 = tn_notify_one (N 0) n"
  define n2 where "n2 = tn_notify_one (N 0) n1"
  define n3 where "n3 = snd (tn_notified (N 0) n2)"
  define n4 where "n4 = snd (tn_notified (N 1) n3)"
  have "view n1 = (True, ?none)" using many_lawsD(2) [OF assms] by (simp add: n1_def)
  then have v2: "view n2 = (True, ?none)" using many_lawsD(2) [OF assms(1), of n1] by (simp add: n2_def)
  have r3: "tn_notified (N 0) n2 = (True, n3)" and v3: "view n3 = (False, ?none)"
    using many_lawsD(4,5) [OF assms(1) v2, of 0] by (simp_all add: n3_def prod_eq_iff)
  have r4: "tn_notified (N 1) n3 = (False, n4)" and v4: "view n4 = (False, ?none(1 := Sleeping))"
    using many_lawsD(4,5) [OF assms(1) v3, of 1] by (simp_all add: n4_def prod_eq_iff)
  define c1 where "c1 = snd (push 0 f ?c)"
  define c2 where "c2 = snd (push 0 g c1)"
  have c1: "push 0 f ?c = (True, c1)" "queue c1 = [f]" "rate_limit c1 = 0" "policy c1 = DropNewest"
    "capacity c1 = 2"
    unfolding c1_def by (simp_all add: push_unlimited enqueue_def sub_inner_new_def)
  then have c2: "push 0 g c1 = (True, c2)" "queue c2 = [f, g]"
    unfolding c2_def by (simp_all add: push_unlimited enqueue_def)
  let ?x = "\<lparr>sh_pc = (\<lambda>t. Popping)(0 := Done (Some f), 1 := Asleep), sh_cell = c2\<lparr>queue := [g]\<rparr>,
    sh_notify = n4, sh_closers = 0\<rparr>"
  let ?es = "[(0, Receiver), (0, Receiver), (1, Receiver), (1, Receiver), (0, Pushed 0 f), (0, Pushed 0 g),
    (0, Receiver), (0, Receiver), (1, Receiver)]"
  have start: "queue ?c = []" "sub_closed ?c = False" by (simp_all add: sub_inner_new_def)
  have run: "share_run N ?es (shared_rx_new ?c n) = Some ?x"
    using r3 r4 c1(1) c2 start unfolding n2_def n1_def
    by (simp add: shared_rx_new_def share_step_def recv_step_def sub_pop_def
        focus_def refocus_def fun_eq_iff)
  have "stranded_at view 1 ?x" using v4 by (simp add: stranded_at_def)
  then have "sh_pc y 1 \<noteq> Done r"
    if "share_run N es' ?x = Some y" "set es' \<subseteq> {1} \<times> {Receiver, NextRecv}" for es' y r
    using share_run_invariant [of N "stranded_at view 1" "{1} \<times> {Receiver, NextRecv}" es' ?x y] that
      stranded_at_step [OF assms(1)] by (auto simp: stranded_at_def)
  then have "\<not> (\<exists>es' y r. set es' \<subseteq> {1} \<times> {Receiver, NextRecv} \<and> share_run N es' ?x = Some y \<and>
      sh_pc y 1 = Done r)"
    by blast
  moreover have "sh_pc ?x 0 = Done (Some f)" "sh_pc ?x 1 = Asleep" "queue (sh_cell ?x) = [g]"
    "sh_closers ?x = 0" by simp_all
  ultimately show ?thesis using run by blast
qed

theorem shared_receiver_strands_witness:
  "\<exists>es x. share_run pair_notify es (shared_rx_new (sub_inner_new 2 DropNewest 0 0) (False, \<lambda>t. NoWaiter)) = Some x \<and>
    sh_pc x 1 = Asleep \<and> queue (sh_cell x) = [demo_frame 2] \<and>
    \<not> (\<exists>es' y r. set es' \<subseteq> {1} \<times> {Receiver, NextRecv} \<and> share_run pair_notify es' x = Some y \<and>
         sh_pc y 1 = Done r)"
proof -
  have "id (False, \<lambda>t :: nat. NoWaiter) = (False, \<lambda>t. NoWaiter)" by simp
  from shared_receiver_strands [OF pair_notify_laws this, of "demo_frame 1" "demo_frame 2"]
  show ?thesis by blast
qed

end
