(* ===== verification/Base64_Serde.thy ===== *)
theory Base64_Serde
  imports Lin_Prelude
begin

text \<open>
  \<open>src/base64_serde.rs\<close>: byte fields as base64 text in JSON.  The base64 engine, the
  serializer of strings and the deserializer of strings are external; they are arguments.
\<close>

definition serialize_bytes :: "(bytes \<Rightarrow> string) \<Rightarrow> (string \<Rightarrow> 's \<Rightarrow> 'e + 'ok) \<Rightarrow> bytes \<Rightarrow> 's \<Rightarrow> 'e + 'ok" where
  "serialize_bytes b64_encode serialize_str xs s = serialize_str (b64_encode xs) s"

text \<open>\<open>custom\<close> is \<open>serde::de::Error::custom\<close>, from the decoder's error to the deserializer's.\<close>

definition deserialize_bytes :: "(string \<Rightarrow> 'b + bytes) \<Rightarrow> ('b \<Rightarrow> 'e) \<Rightarrow> ('d \<Rightarrow> 'e + string) \<Rightarrow> 'd \<Rightarrow> 'e + bytes" where
  "deserialize_bytes b64_decode custom deserialize_string d =
     (case deserialize_string d of
        Inl e \<Rightarrow> Inl e
      | Inr s \<Rightarrow> (case b64_decode s of Inl e \<Rightarrow> Inl (custom e) | Inr xs \<Rightarrow> Inr xs))"

text \<open>
  Bytes written and read back are unchanged, when the engine decodes what it encodes and the
  document format gives back the strings written to it.
\<close>

lemma serde_roundtrip:
  assumes "serialize_bytes b64_encode serialize_str xs s = Inr d"
    and "\<And>x. b64_decode (b64_encode x) = Inr x"
    and "\<And>x d. serialize_str x s = Inr d \<Longrightarrow> deserialize_string d = Inr x"
  shows "deserialize_bytes b64_decode custom deserialize_string d = Inr xs"
  using assms(1,2) assms(3) [of "b64_encode xs" d]
  by (simp add: serialize_bytes_def deserialize_bytes_def)

text \<open>The two error branches: the reader's own error, and the decoder's wrapped.\<close>

lemma deserialize_errors:
  "deserialize_bytes b64_decode custom rd d = Inl e \<longleftrightarrow>
     rd d = Inl e \<or> (\<exists>s b. rd d = Inr s \<and> b64_decode s = Inl b \<and> e = custom b)"
  by (auto simp: deserialize_bytes_def split: sum.split)

end
