(* ===== verification/Mock_Bus.thy ===== *)
theory Mock_Bus
  imports Lin_Bus
begin

text \<open>
  \<open>src/mock/mod.rs\<close>: the recording bus used as a test double.  Its registrations carry
  no checksum type, it records every publication and every header, and \<open>inject\<close> pushes
  to all open subscribers without looking at filters.  It interprets the trait locales.
\<close>

section \<open>State and operations\<close>

record mock_bus =
  mb_responses :: "u8 \<rightharpoonup> bytes"
  mb_published :: "(u8 \<times> bytes option) list"
  mb_sent_headers :: "u8 list"
  mb_subscribers :: "nat list"
  mb_closed :: bool
  mb_heap :: "sub_inner list"

definition mock_bus_new :: mock_bus where
  "mock_bus_new =
     \<lparr>mb_responses = Map.empty, mb_published = [], mb_sent_headers = [], mb_subscribers = [],
      mb_closed = False, mb_heap = []\<rparr>"

definition published_responses :: "mock_bus \<Rightarrow> (u8 \<times> bytes option) list" where
  "published_responses s = mb_published s"

definition sent_header_ids :: "mock_bus \<Rightarrow> u8 list" where
  "sent_header_ids s = mb_sent_headers s"

fun inject_from :: "(nat \<Rightarrow> instant) \<Rightarrow> nat \<Rightarrow> lin_frame \<Rightarrow> nat list \<Rightarrow> sub_inner list \<Rightarrow>
    sub_inner list" where
  "inject_from clk k f [] h = h"
| "inject_from clk k f (r # rs) h =
     (if \<not> sub_closed (h ! r) then
        (case heap_push (clk k) f r h of (_, h1) \<Rightarrow> inject_from clk (Suc k) f rs h1)
      else inject_from clk (Suc k) f rs h)"

definition mb_inject :: "(nat \<Rightarrow> instant) \<Rightarrow> lin_frame \<Rightarrow> mock_bus \<Rightarrow> mock_bus" where
  "mb_inject clk f s = s\<lparr>mb_heap := inject_from clk 0 f (mb_subscribers s) (mb_heap s)\<rparr>"

definition mb_reset :: "mock_bus \<Rightarrow> mock_bus" where
  "mb_reset s = s\<lparr>mb_published := [], mb_sent_headers := []\<rparr>"

definition mb_publish :: "u8 \<Rightarrow> bytes option \<Rightarrow> mock_bus \<Rightarrow> (error + unit) \<times> mock_bus" where
  "mb_publish i data s =
     (if mb_closed s then (Inl Closed, s)
      else if (case data of Some d \<Rightarrow> length d > LIN_MAX_DATA_LEN | None \<Rightarrow> False)
      then (Inl PayloadTooLarge, s)
      else (let s = s\<lparr>mb_published := mb_published s @ [(i, data)]\<rparr>
            in case data of
                 Some d \<Rightarrow> (Inr (), s\<lparr>mb_responses := (mb_responses s)(i \<mapsto> d)\<rparr>)
               | None \<Rightarrow> (Inr (), s\<lparr>mb_responses := (mb_responses s)(i := None)\<rparr>)))"

definition mb_subscribe :: "lin_filter list \<Rightarrow> subscriber_options \<Rightarrow> instant \<Rightarrow>
    mock_bus \<Rightarrow> (error + nat) \<times> mock_bus" where
  "mb_subscribe filters opts now s =
     (if mb_closed s then (Inl Closed, s)
      else (let depth = chan_depth opts 64;
                cell = sub_inner_new depth (back_pressure opts) (rate_limit_per_sec opts) now;
                r = length (mb_heap s)
            in (Inr r, s\<lparr>mb_heap := mb_heap s @ [cell],
                         mb_subscribers := mb_subscribers s @ [r]\<rparr>)))"

fun close_refs :: "nat list \<Rightarrow> sub_inner list \<Rightarrow> sub_inner list" where
  "close_refs [] h = h"
| "close_refs (r # rs) h = close_refs rs (h[r := sub_close (h ! r)])"

definition mb_close :: "mock_bus \<Rightarrow> (error + unit) \<times> mock_bus" where
  "mb_close s =
     (if mb_closed s then (Inr (), s)
      else (Inr (), s\<lparr>mb_closed := True, mb_heap := close_refs (mb_subscribers s) (mb_heap s)\<rparr>))"

definition mb_send_header :: "(nat \<Rightarrow> instant) \<Rightarrow> context_t \<Rightarrow> u8 \<Rightarrow> mock_bus \<Rightarrow>
    (error + lin_frame) \<times> mock_bus" where
  "mb_send_header clk ctx i s =
     (if mb_closed s then (Inl Closed, s)
      else if i > LIN_MAX_ID then
        (Inl (InvalidFrame (''frame ID 0x'' @ hex02 i @ '' exceeds maximum 0x''
               @ hex02 LIN_MAX_ID)), s)
      else (let s = s\<lparr>mb_sent_headers := mb_sent_headers s @ [i]\<rparr>
            in case mb_responses s i of
                 None \<Rightarrow> (Inl NoResponse, s)
               | Some d \<Rightarrow>
                   (let pid = protect_id i;
                        cs = calc_checksum pid d Enhanced;
                        f = \<lparr>fr_id = i, fr_data = d, fr_checksum = cs,
                             fr_checksum_type = Enhanced\<rparr>
                    in (Inr f, mb_inject clk f s))))"

definition mb_set_schedule ::
    "schedule_entry list \<Rightarrow> mock_bus \<Rightarrow> (error + unit) \<times> mock_bus" where
  "mb_set_schedule entries s = (Inr (), s)"

section \<open>Invariant\<close>

definition mock_inv :: "mock_bus \<Rightarrow> bool" where
  "mock_inv s \<longleftrightarrow> (\<forall>r \<in> set (mb_subscribers s). r < length (mb_heap s)) \<and>
     (\<forall>c \<in> set (mb_heap s). sub_ok c)"

lemma mock_inv_new [lin_inv]: "mock_inv mock_bus_new"
  by (simp add: mock_inv_def mock_bus_new_def)

lemma heap_update_ok:
  "\<forall>c \<in> set h. sub_ok c \<Longrightarrow> sub_ok c \<Longrightarrow> \<forall>c \<in> set (h[r := c]). sub_ok c"
  using set_update_subset_insert [of h r c] by auto

lemma inject_from_length [simp]: "length (inject_from clk k f rs h) = length h"
  by (induction rs arbitrary: k h) (auto simp: heap_push_def split: prod.split)

lemma inject_from_ok:
  assumes "\<forall>c \<in> set h. sub_ok c" and "\<forall>r \<in> set rs. r < length h"
  shows "\<forall>c \<in> set (inject_from clk k f rs h). sub_ok c"
  using assms
proof (induction rs arbitrary: k h)
  case (Cons r rs)
  have "\<forall>c \<in> set (h[r := snd (push (clk k) f (h ! r))]). sub_ok c"
    using Cons.prems by (intro heap_update_ok push_sub_ok) auto
  with Cons show ?case by (auto simp: heap_push_def split: prod.split)
qed simp

lemma close_refs_length [simp]: "length (close_refs rs h) = length h"
  by (induction rs arbitrary: h) auto

lemma close_refs_ok:
  assumes "\<forall>c \<in> set h. sub_ok c" and "\<forall>r \<in> set rs. r < length h"
  shows "\<forall>c \<in> set (close_refs rs h). sub_ok c"
  using assms
proof (induction rs arbitrary: h)
  case (Cons r rs)
  have "\<forall>c \<in> set (h[r := sub_close (h ! r)]). sub_ok c"
    using Cons.prems by (intro heap_update_ok close_sub_ok) auto
  with Cons show ?case by simp
qed simp

lemma mock_inject_inv [lin_inv]: "mock_inv s \<Longrightarrow> mock_inv (mb_inject clk f s)"
  using inject_from_ok [of "mb_heap s" "mb_subscribers s" clk 0 f]
  by (simp add: mock_inv_def mb_inject_def)

lemma mock_publish_inv [lin_inv]: "mock_inv s \<Longrightarrow> mock_inv (snd (mb_publish i d s))"
  by (auto simp: mb_publish_def mock_inv_def Let_def split: option.split)

lemma mock_subscribe_inv [lin_inv]: "mock_inv s \<Longrightarrow> mock_inv (snd (mb_subscribe flts opts now s))"
  by (auto simp: mb_subscribe_def mock_inv_def Let_def less_SucI intro!: sub_ok_new chan_depth_pos)

lemma mock_close_inv [lin_inv]: "mock_inv s \<Longrightarrow> mock_inv (snd (mb_close s))"
  using close_refs_ok [of "mb_heap s" "mb_subscribers s"]
  by (simp add: mb_close_def mock_inv_def)

lemma mock_send_inv [lin_inv]: "mock_inv s \<Longrightarrow> mock_inv (snd (mb_send_header clk ctx i s))"
  using mock_inject_inv [of "s\<lparr>mb_sent_headers := mb_sent_headers s @ [i]\<rparr>"]
  by (simp add: mb_send_header_def Let_def mock_inv_def split: option.split)

lemma mb_inject_sel [simp]:
  "mb_responses (mb_inject clk f s) = mb_responses s"
  "mb_closed (mb_inject clk f s) = mb_closed s"
  "mb_published (mb_inject clk f s) = mb_published s"
  "mb_sent_headers (mb_inject clk f s) = mb_sent_headers s"
  by (simp_all add: mb_inject_def)

lemma mb_publish_result:
  "fst (mb_publish i d s) =
     (if mb_closed s then Inl Closed
      else if \<exists>b. d = Some b \<and> length b > LIN_MAX_DATA_LEN then Inl PayloadTooLarge
      else Inr ())"
  by (auto simp: mb_publish_def Let_def split: option.split)

lemma mb_publish_state:
  "snd (mb_publish i d s) =
     (if fst (mb_publish i d s) = Inr () then
        s\<lparr>mb_published := mb_published s @ [(i, d)], mb_responses := (mb_responses s)(i := d)\<rparr>
      else s)"
  by (auto simp: mb_publish_def Let_def split: option.split)

interpretation mock: lin_master_bus mb_publish mb_close mb_responses mb_closed mock_inv
  mb_send_header mb_set_schedule
proof (unfold_locales, goal_cases)
  case (1 s i d)
  then show ?case by (rule mock_publish_inv)
next
  case (2 i d s)
  show ?case by (simp add: mb_publish_state)
next
  case (3 s i d)
  then show ?case by (simp add: mb_publish_result)
next
  case (4 i d s)
  show ?case by (simp add: mb_publish_state)
next
  case (5 s)
  then show ?case by (rule mock_close_inv)
next
  case (6 s)
  show ?case by (simp add: mb_close_def)
next
  case (7 s)
  show ?case by (simp add: mb_close_def)
next
  case (8 s clk ctx i)
  then show ?case by (rule mock_send_inv)
next
  case (9 clk ctx i s)
  show ?case by (auto simp: mb_send_header_def Let_def split: option.split)
next
  case (10 clk ctx i s)
  show ?case by (auto simp: mb_send_header_def Let_def split: option.split)
next
  case (11 s clk ctx i)
  then show ?case by (simp add: mb_send_header_def)
next
  case (12 s i clk ctx)
  then show ?case by (auto simp: mb_send_header_def Let_def)
next
  case (13 clk ctx i s f)
  then show ?case
    by (auto simp: mb_send_header_def Let_def not_less split: option.splits if_splits)
next
  case (14 s es)
  then show ?case by (simp add: mb_set_schedule_def)
next
  case (15 es s)
  show ?case by (simp add: mb_set_schedule_def)
next
  case (16 es s)
  show ?case by (simp add: mb_set_schedule_def)
qed

end
