(* ===== verification/Slave_Node.thy ===== *)
theory Slave_Node
  imports Virtual_Bus Mock_Bus
begin

text \<open>
  \<open>src/slave/mod.rs\<close>: the slave node, a client of any \<open>Bus\<close>.  Its operations take the
  bus operations they call as arguments, as \<open>Arc<dyn Bus>\<close> does; what they guarantee is
  proved once from the bus contract and then read off for the virtual bus.
\<close>

section \<open>Operations\<close>

record slave_node =
  sn_registered :: "u8 set"

definition slave_node_new :: slave_node where
  "slave_node_new = \<lparr>sn_registered = {}\<rparr>"

definition set_response :: "(u8 \<Rightarrow> bytes option \<Rightarrow> 's \<Rightarrow> (error + unit) \<times> 's) \<Rightarrow>
    u8 \<Rightarrow> bytes option \<Rightarrow> 's \<times> slave_node \<Rightarrow> (error + unit) \<times> 's \<times> slave_node" where
  "set_response publish i data sn =
     (case sn of (s, n) \<Rightarrow>
        if i > LIN_MAX_ID then
          (Inl (InvalidFrame (''frame ID 0x'' @ hex02 i @ '' exceeds LIN_MAX_ID 0x''
                 @ hex02 LIN_MAX_ID)), s, n)
        else
          (case publish i data s of
             (Inl e, s1) \<Rightarrow> (Inl e, s1, n)
           | (Inr _, s1) \<Rightarrow>
               (Inr (), s1,
                if data \<noteq> None then n\<lparr>sn_registered := insert i (sn_registered n)\<rparr>
                else n\<lparr>sn_registered := sn_registered n - {i}\<rparr>)))"

definition registered_ids :: "slave_node \<Rightarrow> u8 list" where
  "registered_ids n = sorted_list_of_set (sn_registered n)"

definition slave_subscribe :: "(lin_filter list \<Rightarrow> subscriber_options \<Rightarrow> 's \<Rightarrow> (error + 'r) \<times> 's) \<Rightarrow>
    lin_filter list \<Rightarrow> subscriber_options \<Rightarrow> 's \<times> slave_node \<Rightarrow>
    (error + 'r) \<times> 's \<times> slave_node" where
  "slave_subscribe subscribe filters opts sn =
     (case sn of (s, n) \<Rightarrow> (case subscribe filters opts s of (r, s1) \<Rightarrow> (r, s1, n)))"

text \<open>A run of calls on one node.\<close>

fun set_responses :: "(u8 \<Rightarrow> bytes option \<Rightarrow> 's \<Rightarrow> (error + unit) \<times> 's) \<Rightarrow>
    (u8 \<times> bytes option) list \<Rightarrow> 's \<times> slave_node \<Rightarrow> 's \<times> slave_node" where
  "set_responses publish [] sn = sn"
| "set_responses publish ((i, d) # cs) sn =
     set_responses publish cs (snd (set_response publish i d sn))"

text \<open>What a call does to the table: nothing when its arguments are invalid.\<close>

definition response_update :: "(u8 \<rightharpoonup> bytes) \<Rightarrow> u8 \<times> bytes option \<Rightarrow> u8 \<rightharpoonup> bytes" where
  "response_update m c =
     (case c of (i, d) \<Rightarrow>
        if i \<le> LIN_MAX_ID \<and> (\<forall>b. d = Some b \<longrightarrow> length b \<le> LIN_MAX_DATA_LEN) then m(i := d) else m)"

section \<open>On any bus that keeps the contract\<close>

context lin_bus
begin

definition tracks :: "'s \<times> slave_node \<Rightarrow> bool" where
  "tracks sn \<longleftrightarrow> bus_inv (fst sn) \<and> sn_registered (snd sn) = dom (responses (fst sn)) \<and>
     (\<forall>i \<in> sn_registered (snd sn). i \<le> LIN_MAX_ID)"

lemma set_response_tracks:
  assumes "tracks sn"
  shows "tracks (snd (set_response publish i d sn))"
proof (cases "i > LIN_MAX_ID")
  case True
  with assms show ?thesis by (cases sn) (simp add: set_response_def)
next
  case False
  obtain s n where sn: "sn = (s, n)" by (cases sn)
  obtain r t where pub: "publish i d s = (r, t)" by (cases "publish i d s")
  have inv: "bus_inv t" using publish_inv [of s i d] assms pub sn by (simp add: tracks_def)
  have resp: "responses t = (if r = Inr () then (responses s)(i := d) else responses s)"
    using publish_responses [of i d s] pub by simp
  show ?thesis
  proof (cases r)
    case (Inl e)
    with assms inv resp False sn pub show ?thesis by (simp add: set_response_def tracks_def)
  next
    case (Inr u)
    with assms inv resp False sn pub show ?thesis
      by (cases d) (auto simp: set_response_def tracks_def not_less)
  qed
qed

lemma set_responses_tracks: "tracks sn \<Longrightarrow> tracks (set_responses publish cs sn)"
proof (induction cs arbitrary: sn)
  case (Cons c cs)
  then show ?case by (cases c) (simp add: set_response_tracks)
qed simp

lemma set_responses_closed: "bus_closed (fst (set_responses publish cs (s, n))) = bus_closed s"
proof (induction cs arbitrary: s n)
  case (Cons c cs)
  obtain i d where c: "c = (i, d)" by (cases c)
  obtain t m where t: "snd (set_response publish i d (s, n)) = (t, m)"
    by (cases "snd (set_response publish i d (s, n))")
  have "bus_closed t = bus_closed s"
    using t publish_closed [of i d s]
    by (auto simp: set_response_def split: if_splits prod.splits sum.splits)
  with Cons.IH [of t m] show ?case by (simp add: c t)
qed simp

text \<open>On an open bus the table after a run is the fold of the valid calls.\<close>

lemma set_responses_table:
  assumes "bus_inv s" and "\<not> bus_closed s"
  shows "responses (fst (set_responses publish cs (s, n))) = foldl response_update (responses s) cs"
  using assms
proof (induction cs arbitrary: s n)
  case (Cons c cs)
  obtain i d where c: "c = (i, d)" by (cases c)
  obtain t m where t: "snd (set_response publish i d (s, n)) = (t, m)"
    by (cases "snd (set_response publish i d (s, n))")
  have "bus_inv t \<and> \<not> bus_closed t \<and> responses t = response_update (responses s) (i, d)"
    using t Cons.prems publish_inv [of s i d] publish_closed [of i d s] publish_responses [of i d s]
      publish_result [of s i d]
    by (auto simp: set_response_def response_update_def not_less split: if_splits prod.splits sum.splits)
  with Cons.IH [of t m] show ?case by (simp add: c t)
qed simp

lemma set_response_result:
  assumes "bus_inv s"
  shows "fst (set_response publish i d (s, n)) =
    (if i > LIN_MAX_ID then
       Inl (InvalidFrame (''frame ID 0x'' @ hex02 i @ '' exceeds LIN_MAX_ID 0x''
         @ hex02 LIN_MAX_ID))
     else if bus_closed s then Inl Closed
     else if \<exists>b. d = Some b \<and> length b > LIN_MAX_DATA_LEN then Inl PayloadTooLarge
     else Inr ())"
proof (cases "i > LIN_MAX_ID")
  case False
  then have "fst (set_response publish i d (s, n)) = fst (publish i d s)"
    by (auto simp: set_response_def split: prod.split sum.split)
  with False publish_result [OF assms, of i d] show ?thesis by (simp add: not_less)
qed (simp add: set_response_def)

end

lemma finite_u8 [simp]: "finite (A :: u8 set)"
  by (rule finite_subset [OF subset_UNIV]) simp

lemma registered_ids_set [simp]:
  "set (registered_ids n) = sn_registered n" "sorted_wrt (<) (registered_ids n)"
  by (simp_all add: registered_ids_def)

end
