(* ===== verification/Slave_Concurrency.thy ===== *)
theory Slave_Concurrency
  imports Slave_Node
begin

text \<open>
  \<open>SlaveNode::set_response\<close> of \<open>src/slave/mod.rs\<close> called by several tasks on one node.  The
  call publishes on the bus and then, in a second step, records the identifier under the
  node's own lock; in between the other tasks run.
\<close>

section \<open>Tasks\<close>

datatype slave_pc =
    SlaveIdle
  | Publishing u8 "bytes option"
  | Recording u8 "bytes option"
  | Replied "error + unit"

fun busy_with :: "u8 \<Rightarrow> slave_pc \<Rightarrow> bool" where
  "busy_with i (Publishing j d) \<longleftrightarrow> i = j"
| "busy_with i (Recording j d) \<longleftrightarrow> i = j"
| "busy_with i _ \<longleftrightarrow> False"

fun slave_micro :: "(u8 \<Rightarrow> bytes option \<Rightarrow> 's \<Rightarrow> (error + unit) \<times> 's) \<Rightarrow>
    slave_pc \<Rightarrow> 's \<times> slave_node \<Rightarrow> slave_pc \<times> 's \<times> slave_node" where
  "slave_micro publish (Publishing i d) (s, n) =
     (if i > LIN_MAX_ID then
        (Replied (Inl (InvalidFrame (''frame ID 0x'' @ hex02 i @ '' exceeds LIN_MAX_ID 0x''
           @ hex02 LIN_MAX_ID))), s, n)
      else
        (case publish i d s of
           (Inl e, s1) \<Rightarrow> (Replied (Inl e), s1, n)
         | (Inr _, s1) \<Rightarrow> (Recording i d, s1, n)))"
| "slave_micro publish (Recording i d) (s, n) =
     (Replied (Inr ()), s,
      if d \<noteq> None then n\<lparr>sn_registered := insert i (sn_registered n)\<rparr>
      else n\<lparr>sn_registered := sn_registered n - {i}\<rparr>)"
| "slave_micro publish p sn = (p, sn)"

text \<open>
  The tasks of a node.  With \<open>exclusive\<close>, no call begins for an identifier another task is
  busy with; without it anything goes.
\<close>

inductive slave_conc :: "(u8 \<Rightarrow> bytes option \<Rightarrow> 's \<Rightarrow> (error + unit) \<times> 's) \<Rightarrow> bool \<Rightarrow>
    (nat \<Rightarrow> slave_pc) \<times> 's \<times> slave_node \<Rightarrow> (nat \<Rightarrow> slave_pc) \<times> 's \<times> slave_node \<Rightarrow> bool"
  for publish exclusive where
  slave_call: "\<forall>i. \<not> busy_with i (ts t) \<Longrightarrow> exclusive \<longrightarrow> (\<forall>u. \<not> busy_with i (ts u)) \<Longrightarrow>
    slave_conc publish exclusive (ts, sn) (ts(t := Publishing i d), sn)"
| slave_task: "slave_micro publish (ts t) sn = (p, sn1) \<Longrightarrow>
    slave_conc publish exclusive (ts, sn) (ts(t := p), sn1)"

definition slave_conc_new :: "'s \<Rightarrow> (nat \<Rightarrow> slave_pc) \<times> 's \<times> slave_node" where
  "slave_conc_new s = (\<lambda>t. SlaveIdle, s, slave_node_new)"

text \<open>A task alone does what \<open>set_response\<close> does.\<close>

lemma slave_micro_alone:
  "slave_micro publish (Publishing i d) (s, n) = (p, s1, n1) \<Longrightarrow>
     slave_micro publish p (s1, n1) = (Replied (fst (set_response publish i d (s, n))),
       snd (set_response publish i d (s, n)))"
  by (auto simp: set_response_def split: if_splits prod.splits sum.splits)

section \<open>Exclusive calls keep the book-keeping right\<close>

context lin_bus
begin

definition book_ok :: "(nat \<Rightarrow> slave_pc) \<Rightarrow> 's \<Rightarrow> slave_node \<Rightarrow> bool" where
  "book_ok ts s n \<longleftrightarrow>
     (\<forall>t u i. busy_with i (ts t) \<longrightarrow> busy_with i (ts u) \<longrightarrow> t = u) \<and>
     (\<forall>t i d. ts t = Recording i d \<longrightarrow> responses s i = d) \<and>
     (\<forall>i. (i \<in> sn_registered n \<longleftrightarrow> responses s i \<noteq> None) \<or> (\<exists>t d. ts t = Recording i d))"

lemma book_okD:
  assumes "book_ok ts s n"
  shows "busy_with i (ts t) \<Longrightarrow> busy_with i (ts u) \<Longrightarrow> t = u"
    and "ts t = Recording i d \<Longrightarrow> responses s i = d"
    and "(i \<in> sn_registered n \<longleftrightarrow> responses s i \<noteq> None) \<or> (\<exists>t d. ts t = Recording i d)"
  using assms unfolding book_ok_def by blast+

lemma book_ok_others:
  "book_ok ts s n \<Longrightarrow> (i \<in> sn_registered n \<longleftrightarrow> responses s i \<noteq> None) \<or>
     (\<exists>d. ts t = Recording i d) \<or> (\<exists>u d. u \<noteq> t \<and> ts u = Recording i d)"
  using book_okD(3) by metis

text \<open>Task \<open>t\<close> goes to \<open>p\<close>: what has to be shown.\<close>

lemma book_ok_update:
  assumes ok: "book_ok ts s n"
    and busy: "\<And>i. busy_with i p \<Longrightarrow> busy_with i (ts t) \<or> (\<forall>u. \<not> busy_with i (ts u))"
    and mine: "\<And>i d. p = Recording i d \<Longrightarrow> responses s1 i = d"
    and other: "\<And>u i d. u \<noteq> t \<Longrightarrow> ts u = Recording i d \<Longrightarrow> responses s1 i = d"
    and book: "\<And>i. (i \<in> sn_registered m \<longleftrightarrow> responses s1 i \<noteq> None) \<or>
      (\<exists>d. p = Recording i d) \<or> (\<exists>u d. u \<noteq> t \<and> ts u = Recording i d)"
  shows "book_ok (ts(t := p)) s1 m"
proof -
  have "u = v" if u: "busy_with i ((ts(t := p)) u)" and v: "busy_with i ((ts(t := p)) v)" for u v i
    using u v busy [of i] book_okD(1) [OF ok, of i t u] book_okD(1) [OF ok, of i t v]
      book_okD(1) [OF ok, of i u v]
    by (cases "u = t"; cases "v = t") auto
  moreover have "responses s1 i = d" if "(ts(t := p)) u = Recording i d" for u i d
    using that mine other [of u] by (cases "u = t") simp_all
  moreover have "(i \<in> sn_registered m \<longleftrightarrow> responses s1 i \<noteq> None) \<or>
      (\<exists>u d. (ts(t := p)) u = Recording i d)" for i
    using book [of i] by (metis fun_upd_other fun_upd_same)
  ultimately show ?thesis unfolding book_ok_def by blast
qed

lemma book_ok_call:
  assumes ok: "book_ok ts s n" and t: "\<forall>i. \<not> busy_with i (ts t)" and i: "\<forall>u. \<not> busy_with i (ts u)"
  shows "book_ok (ts(t := Publishing i d)) s n"
proof (rule book_ok_update [OF ok])
  have "ts t \<noteq> Recording j e" for j e using t by (metis busy_with.simps(2))
  then show "(j \<in> sn_registered n \<longleftrightarrow> responses s j \<noteq> None) \<or>
      (\<exists>e. Publishing i d = Recording j e) \<or> (\<exists>u e. u \<noteq> t \<and> ts u = Recording j e)" for j
    using book_ok_others [OF ok, of j t] by simp
qed (use i book_okD(2) [OF ok] in auto)

lemma book_ok_reply:
  assumes ok: "book_ok ts s n" and t: "ts t = Publishing i d" and same: "responses s1 = responses s"
  shows "book_ok (ts(t := Replied r)) s1 n"
proof (rule book_ok_update [OF ok])
  show "(j \<in> sn_registered n \<longleftrightarrow> responses s1 j \<noteq> None) \<or>
      (\<exists>e. Replied r = Recording j e) \<or> (\<exists>u e. u \<noteq> t \<and> ts u = Recording j e)" for j
    using book_ok_others [OF ok, of j t] t same by simp
qed (use same book_okD(2) [OF ok] in auto)

lemma book_ok_publish:
  assumes ok: "book_ok ts s n" and t: "ts t = Publishing i d"
    and new: "responses s1 = (responses s)(i := d)"
  shows "book_ok (ts(t := Recording i d)) s1 n"
proof (rule book_ok_update [OF ok])
  show "responses s1 j = e" if u: "u \<noteq> t" "ts u = Recording j e" for u j e
  proof -
    have "j \<noteq> i" using book_okD(1) [OF ok, of j u t] u t by auto
    with book_okD(2) [OF ok u(2)] new show ?thesis by simp
  qed
  show "(j \<in> sn_registered n \<longleftrightarrow> responses s1 j \<noteq> None) \<or>
      (\<exists>e. Recording i d = Recording j e) \<or> (\<exists>u e. u \<noteq> t \<and> ts u = Recording j e)" for j
    using book_ok_others [OF ok, of j t] t new by (cases "j = i") simp_all
qed (use t new in auto)

lemma book_ok_record:
  assumes ok: "book_ok ts s n" and t: "ts t = Recording i d"
    and m: "sn_registered m = (if d \<noteq> None then insert i (sn_registered n) else sn_registered n - {i})"
  shows "book_ok (ts(t := Replied r)) s m"
proof (rule book_ok_update [OF ok])
  show "(j \<in> sn_registered m \<longleftrightarrow> responses s j \<noteq> None) \<or>
      (\<exists>e. Replied r = Recording j e) \<or> (\<exists>u e. u \<noteq> t \<and> ts u = Recording j e)" for j
    using book_ok_others [OF ok, of j t] book_okD(2) [OF ok t] t m
    by (cases "j = i") (auto split: if_splits)
qed (use book_okD(2) [OF ok] in auto)

lemma slave_micro_book:
  assumes "slave_micro publish p0 (s, n) = (p, s1, n1)" and p0: "ts t = p0" and ok: "book_ok ts s n"
  shows "book_ok (ts(t := p)) s1 n1"
proof (cases p0)
  case (Publishing i d)
  show ?thesis
  proof (cases "i > LIN_MAX_ID")
    case True
    with assms(1) Publishing p0 show ?thesis
      using book_ok_reply [OF ok, of t i d s] by auto
  next
    case False
    obtain r s2 where r: "publish i d s = (r, s2)" by (cases "publish i d s")
    have "responses s2 = (if r = Inr () then (responses s)(i := d) else responses s)"
      using publish_responses [of i d s] r by simp
    then show ?thesis
      using assms(1) Publishing p0 False r book_ok_reply [OF ok, of t i d s2]
        book_ok_publish [OF ok, of t i d s2]
      by (cases r) auto
  qed
next
  case (Recording i d)
  with assms(1) p0 show ?thesis
    using book_ok_record [OF ok, of t i d] by auto
qed (use assms in \<open>auto simp: fun_upd_idem\<close>)

lemma slave_conc_book:
  assumes "(slave_conc publish True)\<^sup>*\<^sup>* x y" and "book_ok (fst x) (fst (snd x)) (snd (snd x))"
  shows "book_ok (fst y) (fst (snd y)) (snd (snd y))"
  using assms
proof (induction rule: rtranclp_induct)
  case (step y z)
  from step(2) show ?case
  proof cases
    case (slave_call ts t i sn d)
    have "book_ok ts (fst sn) (snd sn)" using step(3,4) slave_call(1) by simp
    then have "book_ok (ts(t := Publishing i d)) (fst sn) (snd sn)"
      using slave_call(3,4) by (intro book_ok_call) simp_all
    then show ?thesis unfolding slave_call(2) fst_conv snd_conv .
  next
    case (slave_task ts t sn p sn1)
    have "book_ok ts (fst sn) (snd sn)" using step(3,4) slave_task(1) by simp
    then have "book_ok (ts(t := p)) (fst sn1) (snd sn1)"
      using slave_task(3) by (intro slave_micro_book) simp_all
    then show ?thesis unfolding slave_task(2) fst_conv snd_conv .
  qed
qed

lemma exclusive_book:
  assumes "(slave_conc publish True)\<^sup>*\<^sup>* (slave_conc_new s0) (ts, s, n)" and "responses s0 = Map.empty"
    and "\<forall>t. \<nexists>i d. ts t = Recording i d"
  shows "set (registered_ids n) = {i. responses s i \<noteq> None}"
proof -
  have "book_ok ts s n"
    using slave_conc_book [OF assms(1)] assms(2)
    by (simp add: book_ok_def slave_conc_new_def slave_node_new_def)
  with assms(3) book_okD(3) [of ts s n] show ?thesis by auto
qed

end

section \<open>What the node reports\<close>

text \<open>
  C38: The book-keeping of the slave node with several tasks, over the virtual and over the
  mock bus: as long as no two calls of \<open>set_response\<close> for the same identifier overlap, in
  every state in which no call is between its publication and its record, \<open>registered_ids\<close>
  lists exactly the identifiers that have a response on the bus.
\<close>

theorem slave_tasks_agree:
  assumes "(slave_conc vb_publish True)\<^sup>*\<^sup>* (slave_conc_new virtual_bus_new) (ts, s, n)"
    and "(slave_conc mb_publish True)\<^sup>*\<^sup>* (slave_conc_new mock_bus_new) (ts', s', n')"
    and "\<not> (\<exists>t i d. ts t = Recording i d \<or> ts' t = Recording i d)"
  shows "set (registered_ids n) = {i. vb_responses s i \<noteq> None} \<and>
    set (registered_ids n') = {i. mb_responses s' i \<noteq> None}"
proof -
  have "vb_payloads virtual_bus_new = Map.empty"
    by (simp add: vb_payloads_def fun_eq_iff virtual_bus_new_def bus_inner_new_def)
  from vbus.exclusive_book [OF assms(1) this] assms(3)
  have "set (registered_ids n) = {i. vb_payloads s i \<noteq> None}" by blast
  moreover have "mb_responses mock_bus_new = Map.empty" by (simp add: mock_bus_new_def)
  from mock.exclusive_book [OF assms(2) this] assms(3)
  have "set (registered_ids n') = {i. mb_responses s' i \<noteq> None}" by blast
  ultimately show ?thesis by (simp add: vb_payloads_def)
qed

text \<open>One task alone: publish, then record.\<close>

lemma demo_slave_run:
  assumes "slave_micro publish (Publishing i d) (s0, slave_node_new) = (Recording i d, s1, slave_node_new)"
  shows "(slave_conc publish True)\<^sup>*\<^sup>* (slave_conc_new s0)
    ((\<lambda>t. SlaveIdle)(0 := Replied (Inr ())), s1, snd (snd (slave_micro publish (Recording i d) (s1, slave_node_new))))"
proof -
  let ?ts = "\<lambda>t :: nat. SlaveIdle"
  have "slave_conc publish True (?ts, s0, slave_node_new) (?ts(0 := Publishing i d), s0, slave_node_new)"
    by (rule slave_conc.slave_call) simp_all
  moreover have "slave_conc publish True (?ts(0 := Publishing i d), s0, slave_node_new)
      ((?ts(0 := Publishing i d))(0 := Recording i d), s1, slave_node_new)"
    by (rule slave_conc.slave_task) (simp add: assms del: slave_micro.simps)
  moreover have "slave_conc publish True ((?ts(0 := Publishing i d))(0 := Recording i d), s1, slave_node_new)
      (((?ts(0 := Publishing i d))(0 := Recording i d))(0 := Replied (Inr ())), s1,
        snd (snd (slave_micro publish (Recording i d) (s1, slave_node_new))))"
    by (rule slave_conc.slave_task) simp
  ultimately show ?thesis
    unfolding slave_conc_new_def fun_upd_upd by (meson converse_rtranclp_into_rtranclp rtranclp.rtrancl_refl)
qed

theorem slave_tasks_agree_witness:
  "\<exists>n s. set (registered_ids n) = {i. vb_responses s i \<noteq> None} \<and> 0x11 \<in> set (registered_ids n)"
proof -
  let ?v = "snd (vb_publish 0x11 (Some [1]) virtual_bus_new)"
  let ?m = "snd (mb_publish 0x11 (Some [1]) mock_bus_new)"
  have v: "slave_micro vb_publish (Publishing 0x11 (Some [1])) (virtual_bus_new, slave_node_new) =
      (Recording 0x11 (Some [1]), ?v, slave_node_new)"
    by (simp add: vb_publish_def publish_with_type_def Let_def virtual_bus_new_def lin_defs word_less_nat_alt)
  have m: "slave_micro mb_publish (Publishing 0x11 (Some [1])) (mock_bus_new, slave_node_new) =
      (Recording 0x11 (Some [1]), ?m, slave_node_new)"
    by (simp add: mb_publish_def Let_def mock_bus_new_def lin_defs word_less_nat_alt)
  have "\<not> (\<exists>t i d. ((\<lambda>t. SlaveIdle)(0 := Replied (Inr ()))) t = Recording i d \<or>
      ((\<lambda>t. SlaveIdle)(0 := Replied (Inr ()))) t = Recording i d)"
    by simp
  from slave_tasks_agree [OF demo_slave_run [OF v] demo_slave_run [OF m] this]
  have "set (registered_ids (snd (snd (slave_micro vb_publish (Recording 0x11 (Some [1])) (?v, slave_node_new))))) =
      {i. vb_responses ?v i \<noteq> None}"
    by (rule conjunct1)
  moreover have "0x11 \<in> set (registered_ids (snd (snd (slave_micro vb_publish (Recording 0x11 (Some [1])) (?v, slave_node_new)))))"
    by simp
  ultimately show ?thesis by blast
qed

text \<open>
  C39: Overlapping calls for the same identifier can leave it wrong for good: one task sets a
  response and another removes it, the removal overtakes the record of the first, and when
  both calls have returned successfully the node still reports an identifier as registered
  whose headers are answered with \<open>NoResponse\<close>.
\<close>

theorem slave_tasks_race:
  "\<exists>ts s n. (slave_conc vb_publish False)\<^sup>*\<^sup>* (slave_conc_new virtual_bus_new) (ts, s, n) \<and>
     ts 0 = Replied (Inr ()) \<and> ts 1 = Replied (Inr ()) \<and> 0x11 \<in> set (registered_ids n) \<and>
     fst (vb_send_header clk ctx 0x11 s) = Inl NoResponse"
proof -
  let ?d = "Some [1]"
  have low: "\<not> LIN_MAX_ID < 0x11" by (simp add: LIN_MAX_ID_def word_less_nat_alt)
  obtain s1 where pub1: "vb_publish 0x11 ?d virtual_bus_new = (Inr (), s1)" "\<not> vb_closed s1"
    by (simp add: vb_publish_def publish_with_type_def Let_def virtual_bus_new_def lin_defs word_less_nat_alt)
  obtain s2 where pub2: "vb_publish 0x11 None s1 = (Inr (), s2)" "\<not> vb_closed s2"
    "vb_responses s2 0x11 = None"
    using pub1(2) low by (simp add: vb_publish_def publish_with_type_def Let_def)
  let ?t0 = "\<lambda>t :: nat. SlaveIdle" and ?n = slave_node_new
  let ?t1 = "?t0(0 := Publishing 0x11 ?d)"
  let ?t2 = "?t1(0 := Recording 0x11 ?d)"
  let ?t3 = "?t2(1 := Publishing 0x11 None)"
  let ?t4 = "?t3(1 := Recording 0x11 None)"
  let ?t5 = "?t4(1 := Replied (Inr ()))"
  let ?t6 = "?t5(0 := Replied (Inr ()))"
  let ?m = "slave_node_new\<lparr>sn_registered := insert 0x11 {}\<rparr>"
  note run = slave_conc.slave_task [where publish = vb_publish and exclusive = False]
    slave_conc.slave_call [where publish = vb_publish and exclusive = False]
  have "slave_conc vb_publish False (?t0, virtual_bus_new, ?n) (?t1, virtual_bus_new, ?n)"
    by (rule run(2)) simp_all
  moreover have "slave_conc vb_publish False (?t1, virtual_bus_new, ?n) (?t2, s1, ?n)"
    by (rule run(1)) (simp add: low pub1)
  moreover have "slave_conc vb_publish False (?t2, s1, ?n) (?t3, s1, ?n)"
    by (rule run(2)) simp_all
  moreover have "slave_conc vb_publish False (?t3, s1, ?n) (?t4, s2, ?n)"
    by (rule run(1)) (simp add: low pub2)
  moreover have "slave_conc vb_publish False (?t4, s2, ?n) (?t5, s2, ?n)"
    by (rule run(1)) (simp add: slave_node_new_def)
  moreover have "slave_conc vb_publish False (?t5, s2, ?n) (?t6, s2, ?m)"
    by (rule run(1)) (simp add: slave_node_new_def)
  ultimately have "(slave_conc vb_publish False)\<^sup>*\<^sup>* (slave_conc_new virtual_bus_new) (?t6, s2, ?m)"
    unfolding slave_conc_new_def by (meson converse_rtranclp_into_rtranclp rtranclp.rtrancl_refl)
  moreover have "fst (vb_send_header clk ctx 0x11 s2) = Inl NoResponse"
    using pub2 low by (simp add: vb_send_header_eq)
  moreover have "?t6 0 = Replied (Inr ())" "?t6 1 = Replied (Inr ())" "0x11 \<in> set (registered_ids ?m)"
    by simp_all
  ultimately show ?thesis by blast
qed

end
