(* ===== verification/Mock_Concurrency.thy ===== *)
theory Mock_Concurrency
  imports Mock_Bus Virtual_Bus_Spec
begin

text \<open>
  The methods of \<open>src/mock/mod.rs\<close> as interleaved tasks.  The mock bus keeps its responses,
  its two records and its subscribers under a mutex each, and a method takes them one after the
  other: between the check of the closed flag, the record, the response and the subscribers any
  other task may run.  A section under one mutex is one step, since nothing awaits inside.

  The replies are those of an atomic bus (linearizability); the record of publications and the
  order in which subscribers get frames are not.
\<close>

section \<open>Tasks\<close>

datatype mock_call =
    MPublish u8 "bytes option"
  | MSubscribe "lin_filter list" subscriber_options
  | MClose
  | MSend u8

datatype mock_pc =
    MAbsent
  | MBegin mock_call
  | MLogging u8 "bytes option"
  | MStoring u8 "bytes option"
  | MJoining sub_inner
  | MShutting
  | MNoting u8
  | MFetching u8
  | MInjecting lin_frame
  | MReturned bus_reply

definition mock_frame :: "u8 \<Rightarrow> bytes \<Rightarrow> lin_frame" where
  "mock_frame i d = \<lparr>fr_id = i, fr_data = d, fr_checksum = calc_checksum (protect_id i) d Enhanced,
     fr_checksum_type = Enhanced\<rparr>"

text \<open>Up to the first mutex.\<close>

fun mock_begin :: "instant \<Rightarrow> mock_call \<Rightarrow> mock_bus \<Rightarrow> mock_pc \<times> mock_bus" where
  "mock_begin now (MPublish i data) b =
     (if mb_closed b then (MReturned (ReplyUnit (Inl Closed)), b)
      else if (case data of Some d \<Rightarrow> length d > LIN_MAX_DATA_LEN | None \<Rightarrow> False)
      then (MReturned (ReplyUnit (Inl PayloadTooLarge)), b)
      else (MLogging i data, b))"
| "mock_begin now (MSubscribe filters opts) b =
     (if mb_closed b then (MReturned (ReplyCell (Inl Closed)), b)
      else (MJoining (sub_inner_new (chan_depth opts 64) (back_pressure opts)
              (rate_limit_per_sec opts) now), b))"
| "mock_begin now MClose b =
     (if mb_closed b then (MReturned (ReplyUnit (Inr ())), b) else (MShutting, b\<lparr>mb_closed := True\<rparr>))"
| "mock_begin now (MSend i) b =
     (if mb_closed b then (MReturned (ReplyFrame (Inl Closed)), b)
      else if i > LIN_MAX_ID then
        (MReturned (ReplyFrame (Inl (InvalidFrame (''frame ID 0x'' @ hex02 i @ '' exceeds maximum 0x''
           @ hex02 LIN_MAX_ID)))), b)
      else (MNoting i, b))"

fun mock_micro :: "(nat \<Rightarrow> instant) \<Rightarrow> mock_pc \<Rightarrow> mock_bus \<Rightarrow> mock_pc \<times> mock_bus" where
  "mock_micro clk (MBegin c) b = mock_begin (clk 0) c b"
| "mock_micro clk (MLogging i d) b = (MStoring i d, b\<lparr>mb_published := mb_published b @ [(i, d)]\<rparr>)"
| "mock_micro clk (MStoring i d) b =
     (MReturned (ReplyUnit (Inr ())), b\<lparr>mb_responses := (mb_responses b)(i := d)\<rparr>)"
| "mock_micro clk (MJoining c) b =
     (MReturned (ReplyCell (Inr (length (mb_heap b)))),
      b\<lparr>mb_heap := mb_heap b @ [c], mb_subscribers := mb_subscribers b @ [length (mb_heap b)]\<rparr>)"
| "mock_micro clk MShutting b =
     (MReturned (ReplyUnit (Inr ())), b\<lparr>mb_heap := close_refs (mb_subscribers b) (mb_heap b)\<rparr>)"
| "mock_micro clk (MNoting i) b = (MFetching i, b\<lparr>mb_sent_headers := mb_sent_headers b @ [i]\<rparr>)"
| "mock_micro clk (MFetching i) b =
     (case mb_responses b i of
        None \<Rightarrow> (MReturned (ReplyFrame (Inl NoResponse)), b)
      | Some d \<Rightarrow> (MInjecting (mock_frame i d), b))"
| "mock_micro clk (MInjecting f) b = (MReturned (ReplyFrame (Inr f)), mb_inject clk f b)"
| "mock_micro clk p b = (p, b)"

section \<open>The system\<close>

text \<open>
  Task \<open>t\<close> makes the one call \<open>calls t\<close>; a task of the program that makes several stands for
  several here.  Beside the tasks and the bus the state records which calls had returned when
  a call was made.  Receivers are polled at any time.
\<close>

type_synonym mock_system = "(nat \<Rightarrow> mock_pc) \<times> mock_bus \<times> (nat \<Rightarrow> nat set)"

definition returned :: "(nat \<Rightarrow> mock_pc) \<Rightarrow> nat set" where
  "returned ts = {u. \<exists>r. ts u = MReturned r}"

inductive mock_reach :: "(nat \<Rightarrow> mock_call) \<Rightarrow> mock_system \<Rightarrow> bool" for calls where
  mock_start: "mock_reach calls (\<lambda>_. MAbsent, mock_bus_new, \<lambda>_. {})"
| mock_invoke: "mock_reach calls (ts, b, before) \<Longrightarrow> ts t = MAbsent \<Longrightarrow>
    mock_reach calls (ts(t := MBegin (calls t)), b, before(t := returned ts))"
| mock_task: "mock_reach calls (ts, b, before) \<Longrightarrow> mock_micro clk (ts t) b = (p, b1) \<Longrightarrow>
    mock_reach calls (ts(t := p), b1, before)"
| mock_poll: "mock_reach calls (ts, b, before) \<Longrightarrow>
    mock_reach calls (ts, b\<lparr>mb_heap := (mb_heap b)[r := snd (recv_poll (mb_heap b ! r))]\<rparr>, before)"

section \<open>The atomic bus\<close>

fun mock_apply :: "(nat \<Rightarrow> instant) \<Rightarrow> mock_call \<Rightarrow> mock_bus \<Rightarrow> bus_reply \<times> mock_bus" where
  "mock_apply clk (MPublish i d) b = map_prod ReplyUnit id (mb_publish i d b)"
| "mock_apply clk (MSubscribe filters opts) b = map_prod ReplyCell id (mb_subscribe filters opts (clk 0) b)"
| "mock_apply clk MClose b = map_prod ReplyUnit id (mb_close b)"
| "mock_apply clk (MSend i) b = map_prod ReplyFrame id (mb_send_header clk context_background i b)"

primrec mock_seq :: "(nat \<Rightarrow> instant) \<Rightarrow> mock_call list \<Rightarrow> mock_bus \<Rightarrow> bus_reply list \<times> mock_bus" where
  "mock_seq clk [] b = ([], b)"
| "mock_seq clk (c # cs) b =
     (fst (mock_apply clk c b) # fst (mock_seq clk cs (snd (mock_apply clk c b))),
      snd (mock_seq clk cs (snd (mock_apply clk c b))))"

text \<open>A task left alone does what the method does as one step.\<close>

lemma four_steps: "(f ^^ 4) x = f (f (f (f x)))"
  by (simp add: eval_nat_numeral)

lemma mock_alone:
  "((\<lambda>(p, b). mock_micro clk p b) ^^ 4) (MBegin c, b) =
     (MReturned (fst (mock_apply clk c b)), snd (mock_apply clk c b))"
proof (cases c)
  case (MPublish i d)
  then show ?thesis unfolding four_steps by (simp add: mb_publish_def Let_def split: option.split)
next
  case (MSubscribe filters opts)
  then show ?thesis unfolding four_steps by (simp add: mb_subscribe_def Let_def)
next
  case MClose
  then show ?thesis unfolding four_steps by (simp add: mb_close_def)
next
  case (MSend i)
  then show ?thesis
    unfolding four_steps by (simp add: mb_send_header_def mock_frame_def Let_def split: option.split)
qed

section \<open>Linearizability\<close>

text \<open>
  A linearization is a list of tasks with the replies of their calls.  It keeps the order of
  calls that do not overlap: who had returned when a call was made stands before it.
\<close>

primrec in_order :: "(nat \<Rightarrow> nat set) \<Rightarrow> nat set \<Rightarrow> nat list \<Rightarrow> bool" where
  "in_order before seen [] \<longleftrightarrow> True"
| "in_order before seen (t # ts) \<longleftrightarrow> before t \<subseteq> seen \<and> in_order before (insert t seen) ts"

lemma in_order_mono: "in_order before seen ts \<Longrightarrow> seen \<subseteq> seen' \<Longrightarrow> in_order before seen' ts"
proof (induction ts arbitrary: seen seen')
  case (Cons t ts)
  from Cons.IH [of "insert t seen" "insert t seen'"] Cons.prems show ?case by auto
qed simp

lemma in_order_append:
  "in_order before seen (ts @ us) \<longleftrightarrow> in_order before seen ts \<and> in_order before (seen \<union> set ts) us"
  by (induction ts arbitrary: seen) auto

lemma in_order_insert:
  assumes "in_order before {} (ts @ us)" and "before t \<subseteq> set ts"
  shows "in_order before {} (ts @ t # us)"
  using assms in_order_mono [of before "set ts" us "insert t (set ts)"] by (auto simp: in_order_append)

lemma in_order_cong: "(\<And>t. t \<in> set ts \<Longrightarrow> before t = before' t) \<Longrightarrow>
    in_order before seen ts = in_order before' seen ts"
  by (induction ts arbitrary: seen) auto

lemma mock_seq_append:
  "fst (mock_seq clk (cs @ ds) b) = fst (mock_seq clk cs b) @ fst (mock_seq clk ds (snd (mock_seq clk cs b)))"
  "snd (mock_seq clk (cs @ ds) b) = snd (mock_seq clk ds (snd (mock_seq clk cs b)))"
  by (induction cs arbitrary: b) simp_all

text \<open>What a closed bus answers.\<close>

fun closed_reply :: "mock_call \<Rightarrow> bus_reply" where
  "closed_reply (MPublish i d) = ReplyUnit (Inl Closed)"
| "closed_reply (MSubscribe filters opts) = ReplyCell (Inl Closed)"
| "closed_reply MClose = ReplyUnit (Inr ())"
| "closed_reply (MSend i) = ReplyFrame (Inl Closed)"

lemma mock_apply_closed: "mb_closed b \<Longrightarrow> mock_apply clk c b = (closed_reply c, b)"
  by (cases c) (simp_all add: mb_publish_def mb_subscribe_def mb_close_def mb_send_header_def)

lemma mock_seq_closed: "mb_closed b \<Longrightarrow> mock_seq clk cs b = (map closed_reply cs, b)"
  by (induction cs) (simp_all add: mock_apply_closed prod_eq_iff)

lemma mock_begin_closed: "mb_closed b \<Longrightarrow> mock_begin now c b = (MReturned (closed_reply c), b)"
  by (cases c) simp_all

text \<open>
  The accepted calls in the order of their decisive step, then the call of \<open>close\<close> that set
  the flag, then the calls that found it set.  Calls that saw the flag clear may still take
  effect after it is set: they are put before the \<open>close\<close>.
\<close>

type_synonym answered = "(nat \<times> bus_reply) list"

definition mock_after :: "(nat \<Rightarrow> mock_call) \<Rightarrow> (nat \<Rightarrow> instant) \<Rightarrow> answered \<Rightarrow> mock_bus" where
  "mock_after calls clk A = snd (mock_seq clk (map (calls \<circ> fst) A) mock_bus_new)"

definition explained :: "(nat \<Rightarrow> mock_call) \<Rightarrow> (nat \<Rightarrow> instant) \<Rightarrow> answered \<Rightarrow> answered \<Rightarrow> mock_bus \<Rightarrow> bool" where
  "explained calls clk A R b \<longleftrightarrow>
     fst (mock_seq clk (map (calls \<circ> fst) A) mock_bus_new) = map snd A \<and>
     \<not> mb_closed (mock_after calls clk A) \<and>
     mb_responses (mock_after calls clk A) = mb_responses b \<and>
     length (mb_heap (mock_after calls clk A)) = length (mb_heap b) \<and>
     (R = [] \<longleftrightarrow> \<not> mb_closed b) \<and> (R \<noteq> [] \<longrightarrow> calls (fst (hd R)) = MClose) \<and>
     (\<forall>(t, r) \<in> set R. r = closed_reply (calls t))"

text \<open>A call that has seen the flag clear and has not taken effect.\<close>

definition under_way :: "answered \<Rightarrow> answered \<Rightarrow> (nat \<Rightarrow> nat set) \<Rightarrow> nat \<Rightarrow> bool" where
  "under_way A R before t \<longleftrightarrow> t \<notin> fst ` set (A @ R) \<and> before t \<subseteq> fst ` set A"

fun mock_link :: "(nat \<Rightarrow> mock_call) \<Rightarrow> answered \<Rightarrow> answered \<Rightarrow> (nat \<Rightarrow> nat set) \<Rightarrow> nat \<Rightarrow> mock_pc \<Rightarrow> bool" where
  "mock_link calls A R before t MAbsent \<longleftrightarrow> t \<notin> fst ` set (A @ R)"
| "mock_link calls A R before t (MBegin c) \<longleftrightarrow> c = calls t \<and> t \<notin> fst ` set (A @ R) \<and>
     before t \<subseteq> fst ` set (A @ R)"
| "mock_link calls A R before t (MLogging i d) \<longleftrightarrow> calls t = MPublish i d \<and> under_way A R before t \<and>
     \<not> (\<exists>x. d = Some x \<and> length x > LIN_MAX_DATA_LEN)"
| "mock_link calls A R before t (MStoring i d) \<longleftrightarrow> calls t = MPublish i d \<and> under_way A R before t \<and>
     \<not> (\<exists>x. d = Some x \<and> length x > LIN_MAX_DATA_LEN)"
| "mock_link calls A R before t (MJoining c) \<longleftrightarrow> (\<exists>filters opts. calls t = MSubscribe filters opts) \<and>
     under_way A R before t"
| "mock_link calls A R before t MShutting \<longleftrightarrow> (t, ReplyUnit (Inr ())) \<in> set (A @ R)"
| "mock_link calls A R before t (MNoting i) \<longleftrightarrow> calls t = MSend i \<and> under_way A R before t \<and> \<not> i > LIN_MAX_ID"
| "mock_link calls A R before t (MFetching i) \<longleftrightarrow> calls t = MSend i \<and> under_way A R before t \<and> \<not> i > LIN_MAX_ID"
| "mock_link calls A R before t (MInjecting f) \<longleftrightarrow> (t, ReplyFrame (Inr f)) \<in> set (A @ R)"
| "mock_link calls A R before t (MReturned r) \<longleftrightarrow> (t, r) \<in> set (A @ R)"

definition mock_linked :: "(nat \<Rightarrow> mock_call) \<Rightarrow> (nat \<Rightarrow> instant) \<Rightarrow> answered \<Rightarrow> answered \<Rightarrow> mock_system \<Rightarrow> bool" where
  "mock_linked calls clk A R x \<longleftrightarrow> (case x of (ts, b, before) \<Rightarrow>
     explained calls clk A R b \<and> distinct (map fst (A @ R)) \<and> in_order before {} (map fst (A @ R)) \<and>
     (\<forall>t. mock_link calls A R before t (ts t)))"

text \<open>A longer linearization keeps the links of the other tasks.\<close>

lemma mock_link_grow:
  assumes "mock_link calls A R before u p" and "set A \<subseteq> set A1" and "set (A @ R) \<subseteq> set (A1 @ R1)"
    and "set (A1 @ R1) \<subseteq> insert (t, r) (set (A @ R))" and "u \<noteq> t"
  shows "mock_link calls A1 R1 before u p"
proof -
  have fresh: "u \<notin> fst ` set (A1 @ R1)" if "u \<notin> fst ` set (A @ R)"
    using that assms(4,5) by fastforce
  have seen: "fst ` set A \<subseteq> fst ` set A1" "fst ` set (A @ R) \<subseteq> fst ` set (A1 @ R1)"
    using assms(2,3) by (auto intro!: image_mono)
  have way: "under_way A1 R1 before u" if "under_way A R before u"
    using that fresh seen(1) unfolding under_way_def by blast
  show ?thesis
    using assms(1) fresh seen way assms(3) by (cases p) (auto simp del: set_append)
qed

text \<open>The three ways to be answered, and a step that answers nobody.\<close>

lemma mock_accept:
  assumes link: "mock_linked calls clk A R (ts, b, before)" and way: "under_way A R before t"
    and eff: "mock_apply clk (calls t) (mock_after calls clk A) = (r, S)"
    and S: "\<not> mb_closed S" "mb_responses S = mb_responses b1" "length (mb_heap S) = length (mb_heap b1)"
    and b1: "mb_closed b1 = mb_closed b" and p: "mock_link calls (A @ [(t, r)]) R before t p"
  shows "mock_linked calls clk (A @ [(t, r)]) R (ts(t := p), b1, before)"
proof -
  have ex: "explained calls clk A R b" and d: "distinct (map fst (A @ R))"
    and o: "in_order before {} (map fst (A @ R))" and l: "\<And>u. mock_link calls A R before u (ts u)"
    using link by (simp_all add: mock_linked_def)
  have "explained calls clk (A @ [(t, r)]) R b1"
    using ex eff S b1 by (auto simp: explained_def mock_after_def mock_seq_append)
  moreover have "distinct (map fst ((A @ [(t, r)]) @ R))"
    using d way by (auto simp: under_way_def)
  moreover have "in_order before {} (map fst ((A @ [(t, r)]) @ R))"
    using in_order_insert [of before "map fst A" "map fst R" t] o way by (simp add: under_way_def)
  moreover have "mock_link calls (A @ [(t, r)]) R before u ((ts(t := p)) u)" for u
    using p mock_link_grow [OF l [of u], of "A @ [(t, r)]" R t r] by (cases "u = t") auto
  ultimately show ?thesis by (simp add: mock_linked_def)
qed

lemma mock_refuse:
  assumes link: "mock_linked calls clk A R (ts, b, before)" and t: "ts t = MBegin c"
    and b1: "mb_responses b1 = mb_responses b" "length (mb_heap b1) = length (mb_heap b)" "mb_closed b1"
    and close: "\<not> mb_closed b \<Longrightarrow> c = MClose"
    and p: "mock_link calls A (R @ [(t, closed_reply c)]) before t p"
  shows "mock_linked calls clk A (R @ [(t, closed_reply c)]) (ts(t := p), b1, before)"
proof -
  have ex: "explained calls clk A R b" and d: "distinct (map fst (A @ R))"
    and o: "in_order before {} (map fst (A @ R))" and l: "\<And>u. mock_link calls A R before u (ts u)"
    using link by (simp_all add: mock_linked_def)
  from l [of t] t have c: "c = calls t" "t \<notin> fst ` set (A @ R)" "before t \<subseteq> fst ` set (A @ R)" by simp_all
  have "explained calls clk A (R @ [(t, closed_reply c)]) b1"
    using ex b1 close c(1) by (auto simp: explained_def hd_append)
  moreover have "distinct (map fst (A @ R @ [(t, closed_reply c)]))" using d c(2) by auto
  moreover have "in_order before {} (map fst (A @ R @ [(t, closed_reply c)]))"
    using in_order_insert [of before "map fst (A @ R)" "[]" t] o c(3) by (simp add: image_Un)
  moreover have "mock_link calls A (R @ [(t, closed_reply c)]) before u ((ts(t := p)) u)" for u
    using p mock_link_grow [OF l [of u], of A "R @ [(t, closed_reply c)]" t "closed_reply c"] by (cases "u = t") auto
  ultimately show ?thesis by (simp add: mock_linked_def)
qed

lemma mock_stay:
  assumes "mock_linked calls clk A R (ts, b, before)"
    and "mb_responses b1 = mb_responses b" and "length (mb_heap b1) = length (mb_heap b)"
    and "mb_closed b1 = mb_closed b" and "mock_link calls A R before t p"
  shows "mock_linked calls clk A R (ts(t := p), b1, before)"
  using assms by (auto simp: mock_linked_def explained_def)

lemma linked_explained:
  assumes "mock_linked calls clk A R (ts, b, before)"
  shows "\<not> mb_closed (mock_after calls clk A)" "mb_responses (mock_after calls clk A) = mb_responses b"
    "length (mb_heap (mock_after calls clk A)) = length (mb_heap b)" "R = [] \<longleftrightarrow> \<not> mb_closed b"
    "mock_link calls A R before t (ts t)"
  using assms by (simp_all add: mock_linked_def explained_def)

text \<open>What a call that takes effect on the atomic bus has to bring about.\<close>

definition matches :: "(nat \<Rightarrow> instant) \<Rightarrow> mock_call \<Rightarrow> mock_bus \<Rightarrow> bus_reply \<Rightarrow> mock_bus \<Rightarrow> bool" where
  "matches clk c S r b1 \<longleftrightarrow> (\<exists>T. mock_apply clk c S = (r, T) \<and> \<not> mb_closed T \<and>
     mb_responses T = mb_responses b1 \<and> length (mb_heap T) = length (mb_heap b1))"

lemma mock_accept_returned:
  assumes "mock_linked calls clk A R (ts, b, before)" and "under_way A R before t"
    and "matches clk (calls t) (mock_after calls clk A) r b1" and "mb_closed b1 = mb_closed b"
    and "p = MReturned r \<or> (\<exists>f. p = MInjecting f \<and> r = ReplyFrame (Inr f))"
  shows "\<exists>A1 R1. mock_linked calls clk A1 R1 (ts(t := p), b1, before)"
proof -
  have "mock_link calls (A @ [(t, r)]) R before t p" using assms(5) by auto
  with mock_accept [OF assms(1,2) _ _ _ _ assms(4)] assms(3) show ?thesis unfolding matches_def by blast
qed

text \<open>The check at the start, on an open bus: refused for its arguments, or let in.\<close>

lemma mock_begin_open:
  assumes link: "mock_linked calls clk A R (ts, b, before)" and t: "ts t = MBegin c"
    and step: "mock_begin now c b = (p, b1)" and clear: "\<not> mb_closed b" and c: "c \<noteq> MClose"
  shows "\<exists>A1 R1. mock_linked calls clk A1 R1 (ts(t := p), b1, before)"
proof (cases "\<exists>r. p = MReturned r")
  case True
  note S = linked_explained(1-3) [OF link]
  from True obtain r where r: "p = MReturned r" by blast
  have me: "R = []" "mock_link calls A R before t (MBegin c)"
    using linked_explained(4) [OF link] linked_explained(5) [OF link, of t] clear unfolding t by auto
  have ct: "calls t = c" using me(2) by simp
  have "matches clk c (mock_after calls clk A) r b1 \<and> b1 = b"
    using step clear c r S
    by (cases c) (auto simp: matches_def mb_publish_def mb_send_header_def split: option.splits if_splits)
  then show ?thesis using me r by (intro mock_accept_returned [OF link]) (auto simp: under_way_def ct)
next
  case False
  have me: "R = []" "mock_link calls A R before t (MBegin c)"
    using linked_explained(4) [OF link] linked_explained(5) [OF link, of t] clear unfolding t by auto
  then have ct: "calls t = c" and way: "under_way A R before t" by (simp_all add: under_way_def)
  have "mock_link calls A R before t p \<and> b1 = b"
    using step clear c way False by (cases c) (auto simp: ct split: option.splits if_splits)
  then have "mock_linked calls clk A R (ts(t := p), b1, before)" using mock_stay [OF link, of b t p] by simp
  then show ?thesis by blast
qed

lemma mock_begin_linked:
  assumes link: "mock_linked calls clk A R (ts, b, before)" and t: "ts t = MBegin c"
    and step: "mock_begin now c b = (p, b1)"
  shows "\<exists>A1 R1. mock_linked calls clk A1 R1 (ts(t := p), b1, before)"
proof -
  consider "mb_closed b" | "\<not> mb_closed b" "c = MClose" | "\<not> mb_closed b" "c \<noteq> MClose" by blast
  then show ?thesis
  proof cases
    case 1
    then have "p = MReturned (closed_reply c)" "b1 = b" using step mock_begin_closed [of b now c] by simp_all
    then show ?thesis using mock_refuse [OF link t, of b p] 1 by auto
  next
    case 2
    then have "p = MShutting" "b1 = b\<lparr>mb_closed := True\<rparr>" using step by auto
    then show ?thesis using mock_refuse [OF link t, of b1 p] 2 by auto
  next
    case 3
    with mock_begin_open [OF link t step] show ?thesis by blast
  qed
qed

text \<open>The steps that decide a reply; all others leave the linearization alone.\<close>

fun decisive :: "mock_pc \<Rightarrow> bool" where
  "decisive (MBegin c) \<longleftrightarrow> True"
| "decisive (MStoring i d) \<longleftrightarrow> True"
| "decisive (MJoining c) \<longleftrightarrow> True"
| "decisive (MFetching i) \<longleftrightarrow> True"
| "decisive _ \<longleftrightarrow> False"

lemma mock_micro_quiet:
  assumes "mock_micro clk q b = (p, b1)" and "\<not> decisive q" and "mock_link calls A R before t q"
  shows "mock_link calls A R before t p" and "mb_responses b1 = mb_responses b"
    and "length (mb_heap b1) = length (mb_heap b)" and "mb_closed b1 = mb_closed b"
  using assms by (cases q; auto simp: mb_inject_def)+

lemma mock_micro_stays:
  assumes "mock_linked calls clk A R (ts, b, before)" and "mock_micro clk1 (ts t) b = (p, b1)"
    and "\<not> decisive (ts t)"
  shows "mock_linked calls clk A R (ts(t := p), b1, before)"
  using mock_micro_quiet [OF assms(2,3) linked_explained(5) [OF assms(1)]]
  by (intro mock_stay [OF assms(1)])

text \<open>Looking up the response.\<close>

lemma mock_fetch_linked:
  assumes link: "mock_linked calls clk A R (ts, b, before)" and t: "ts t = MFetching i"
    and step: "mock_micro clk1 (MFetching i) b = (p, b1)"
  shows "\<exists>A1 R1. mock_linked calls clk A1 R1 (ts(t := p), b1, before)"
proof -
  note S = linked_explained(1-3) [OF link]
  have me: "calls t = MSend i" "under_way A R before t" "\<not> i > LIN_MAX_ID"
    using linked_explained(5) [OF link, of t] t by simp_all
  show ?thesis
  proof (cases "mb_responses b i")
    case None
    then have "matches clk (calls t) (mock_after calls clk A) (ReplyFrame (Inl NoResponse)) b1"
      using me S step by (auto simp: matches_def mb_send_header_def Let_def)
    then show ?thesis using me step None by (intro mock_accept_returned [OF link]) auto
  next
    case (Some d)
    then have "matches clk (calls t) (mock_after calls clk A) (ReplyFrame (Inr (mock_frame i d))) b1"
      using me S step by (auto simp: matches_def mb_send_header_def Let_def mock_frame_def mb_inject_def)
    then show ?thesis using me step Some by (intro mock_accept_returned [OF link]) auto
  qed
qed

lemma mock_micro_linked:
  assumes link: "mock_linked calls clk A R (ts, b, before)" and step: "mock_micro clk1 (ts t) b = (p, b1)"
  shows "\<exists>A1 R1. mock_linked calls clk A1 R1 (ts(t := p), b1, before)"
proof (cases "decisive (ts t)")
  case False
  from mock_micro_stays [OF link step this] show ?thesis by blast
next
  case True
  note S = linked_explained(1-3) [OF link] and me = linked_explained(5) [OF link, of t]
  from True consider c where "ts t = MBegin c" | i d where "ts t = MStoring i d"
    | c where "ts t = MJoining c" | i where "ts t = MFetching i"
    by (cases "ts t") simp_all
  then show ?thesis
  proof cases
    case (1 c)
    with mock_begin_linked [OF link 1] step show ?thesis by simp
  next
    case (2 i d)
    then have "matches clk (calls t) (mock_after calls clk A) (ReplyUnit (Inr ())) b1"
      using me S step by (auto simp: matches_def mb_publish_def Let_def split: option.split)
    then show ?thesis using me step 2 by (intro mock_accept_returned [OF link]) auto
  next
    case (3 c)
    then have "matches clk (calls t) (mock_after calls clk A) (ReplyCell (Inr (length (mb_heap b)))) b1"
      using me S step by (auto simp: matches_def mb_subscribe_def Let_def)
    then show ?thesis using me step 3 by (intro mock_accept_returned [OF link]) auto
  next
    case (4 i)
    with mock_fetch_linked [OF link 4] step show ?thesis by simp
  qed
qed

text \<open>A new call comes after all that have returned.\<close>

lemma mock_invoke_linked:
  assumes link: "mock_linked calls clk A R (ts, b, before)" and t: "ts t = MAbsent"
  shows "mock_linked calls clk A R
    (ts(t := MBegin (calls t)), b, before(t := returned ts))"
proof -
  let ?new = "before(t := returned ts)"
  have l: "\<And>u. mock_link calls A R before u (ts u)" using link by (simp add: mock_linked_def)
  have fresh: "t \<notin> fst ` set (A @ R)" using l [of t] t by simp
  have "u \<in> fst ` set (A @ R)" if "ts u = MReturned r" for u r
    using l [of u] that by force
  then have "mock_link calls A R ?new t (MBegin (calls t))" using fresh by (auto simp: returned_def)
  moreover have "mock_link calls A R ?new u (ts u)" if "u \<noteq> t" for u
    using l [of u] that by (cases "ts u") (simp_all add: under_way_def)
  moreover have "in_order ?new {} (map fst (A @ R)) = in_order before {} (map fst (A @ R))"
    using fresh by (intro in_order_cong) auto
  ultimately show ?thesis using link unfolding mock_linked_def by auto
qed

lemma mock_reach_linked:
  assumes "mock_reach calls x"
  shows "\<exists>A R. mock_linked calls clk A R x"
  using assms
proof (induction rule: mock_reach.induct)
  case mock_start
  have "mock_linked calls clk [] [] (\<lambda>_. MAbsent, mock_bus_new, \<lambda>_. {})"
    by (simp add: mock_linked_def explained_def mock_after_def mock_bus_new_def)
  then show ?case by blast
next
  case (mock_invoke ts b before t)
  then show ?case using mock_invoke_linked by blast
next
  case (mock_task ts b before clk1 t p b1)
  then show ?case using mock_micro_linked by blast
next
  case (mock_poll ts b before r)
  then obtain A R where "mock_linked calls clk A R (ts, b, before)" by blast
  then have "mock_linked calls clk A R (ts, b\<lparr>mb_heap := (mb_heap b)[r := snd (recv_poll (mb_heap b ! r))]\<rparr>, before)"
    by (simp add: mock_linked_def explained_def)
  then show ?case by blast
qed

text \<open>
  C35: The replies of the mock bus are linearizable, although its methods take several locks in
  turn.  However the tasks interleave, the calls that have taken effect can be put into one
  order that respects which call had returned before another was made, and in which the bus,
  run one whole call after the other, gives every returned call the reply it got and ends with
  the same responses and the same closed flag.
\<close>

theorem mock_linearizable:
  assumes "mock_reach calls (ts, b, before)"
  shows "\<exists>lin. distinct (map fst lin) \<and> in_order before {} (map fst lin) \<and>
    {(t, r). ts t = MReturned r} \<subseteq> set lin \<and>
    fst (mock_seq clk (map (calls \<circ> fst) lin) mock_bus_new) = map snd lin \<and>
    mb_responses (snd (mock_seq clk (map (calls \<circ> fst) lin) mock_bus_new)) = mb_responses b \<and>
    mb_closed (snd (mock_seq clk (map (calls \<circ> fst) lin) mock_bus_new)) = mb_closed b"
proof -
  obtain A R where link: "mock_linked calls clk A R (ts, b, before)"
    using mock_reach_linked [OF assms] by blast
  note S = linked_explained [OF link]
  have ex: "explained calls clk A R b" using link by (simp add: mock_linked_def)
  have "(t, r) \<in> set (A @ R)" if "ts t = MReturned r" for t r
    using S(5) [of t] that by simp
  then have "{(t, r). ts t = MReturned r} \<subseteq> set (A @ R)" by blast
  moreover have "fst (mock_seq clk (map (calls \<circ> fst) R) (mock_after calls clk A)) = map snd R \<and>
      mb_responses (snd (mock_seq clk (map (calls \<circ> fst) R) (mock_after calls clk A))) = mb_responses b \<and>
      mb_closed (snd (mock_seq clk (map (calls \<circ> fst) R) (mock_after calls clk A))) = mb_closed b"
  proof (cases R)
    case Nil
    with S show ?thesis by simp
  next
    case (Cons e es)
    then have "calls (fst e) = MClose" "mb_closed b" "\<forall>(t, r) \<in> set R. r = closed_reply (calls t)"
      using ex by (auto simp: explained_def)
    moreover from this(3) have "map (closed_reply \<circ> (calls \<circ> fst)) R = map snd R" by auto
    ultimately show ?thesis
      using S(1,2) by (simp add: Cons mb_close_def mock_seq_closed comp_def)
  qed
  ultimately show ?thesis
    using link ex unfolding mock_linked_def explained_def mock_after_def
    by (intro exI [of _ "A @ R"]) (simp add: mock_seq_append)
qed

section \<open>What is not linearizable\<close>

text \<open>Runs as lists of steps.\<close>

datatype mock_label = MInvoke nat | MStep nat

fun mock_do :: "(nat \<Rightarrow> mock_call) \<Rightarrow> mock_label \<Rightarrow> mock_system \<Rightarrow> mock_system" where
  "mock_do calls (MInvoke t) (ts, b, before) =
     (if ts t = MAbsent then (ts(t := MBegin (calls t)), b, before(t := returned ts)) else (ts, b, before))"
| "mock_do calls (MStep t) (ts, b, before) =
     (case mock_micro (\<lambda>_. 0) (ts t) b of (p, b1) \<Rightarrow> (ts(t := p), b1, before))"

primrec mock_play :: "(nat \<Rightarrow> mock_call) \<Rightarrow> mock_label list \<Rightarrow> mock_system \<Rightarrow> mock_system" where
  "mock_play calls [] x = x"
| "mock_play calls (l # ls) x = mock_play calls ls (mock_do calls l x)"

definition mock_begun :: mock_system where
  "mock_begun = (\<lambda>_. MAbsent, mock_bus_new, \<lambda>_. {})"

lemma mock_do_reach: "mock_reach calls x \<Longrightarrow> mock_reach calls (mock_do calls l x)"
proof (induction calls l x rule: mock_do.induct)
  case (1 calls t ts b before)
  then show ?case using mock_invoke [of calls ts b before t] by simp
next
  case (2 calls t ts b before)
  then show ?case
    using mock_task [of calls ts b before "\<lambda>_. 0" t] by (cases "mock_micro (\<lambda>_. 0) (ts t) b") simp
qed

lemma mock_play_reach: "mock_reach calls (mock_play calls ls mock_begun)"
proof -
  have "mock_reach calls x \<Longrightarrow> mock_reach calls (mock_play calls ls x)" for x
    by (induction ls arbitrary: x) (simp_all add: mock_do_reach)
  then show ?thesis using mock_start [of calls] unfolding mock_begun_def by blast
qed

lemma returned_update [simp]:
  "returned (\<lambda>_. MAbsent) = {}"
  "returned (ts(t := p)) = (case p of MReturned r \<Rightarrow> insert t (returned ts) | _ \<Rightarrow> returned ts - {t})"
  by (auto simp: returned_def split: mock_pc.split)

text \<open>A subscriber, two publications and two headers, all for one identifier.\<close>

definition race_calls :: "u8 \<Rightarrow> bytes \<Rightarrow> bytes \<Rightarrow> nat \<Rightarrow> mock_call" where
  "race_calls i d e t =
     (if t = 0 then MSubscribe [] subscriber_options_default
      else if t = 1 then MPublish i (Some d) else if t = 2 then MPublish i (Some e) else MSend i)"

definition log_race :: "mock_label list" where
  "log_race = [MInvoke 1, MInvoke 2, MStep 1, MStep 1, MStep 2, MStep 2, MStep 2, MStep 1]"

lemma log_race_end:
  assumes "length d \<le> LIN_MAX_DATA_LEN" and "length e \<le> LIN_MAX_DATA_LEN"
  shows "mock_play (race_calls i d e) log_race mock_begun =
    ((\<lambda>_. MAbsent)(1 := MReturned (ReplyUnit (Inr ())), 2 := MReturned (ReplyUnit (Inr ()))),
     mock_bus_new\<lparr>mb_published := [(i, Some d), (i, Some e)], mb_responses := [i \<mapsto> d]\<rparr>, \<lambda>_. {})"
  using assms
  by (simp add: log_race_def mock_begun_def race_calls_def mock_bus_new_def fun_upd_twist not_less)
    (simp add: fun_eq_iff)

text \<open>The first header fetches the first payload and injects it after everything else.\<close>

definition stale_race :: "mock_label list" where
  "stale_race = [MInvoke 0, MStep 0, MStep 0, MInvoke 1, MStep 1, MStep 1, MStep 1,
     MInvoke 3, MStep 3, MStep 3, MStep 3, MInvoke 2, MStep 2, MStep 2, MStep 2,
     MInvoke 4, MStep 4, MStep 4, MStep 4, MStep 4, MStep 3]"

definition stale_cell :: "lin_frame list \<Rightarrow> sub_inner" where
  "stale_cell fs = (sub_inner_new 64 DropNewest 0 0)
     \<lparr>queue := fs, notify := map (\<lambda>_. NotifyOne) fs\<rparr>"

definition stale_replies :: "u8 \<Rightarrow> bytes \<Rightarrow> bytes \<Rightarrow> nat \<Rightarrow> mock_pc" where
  "stale_replies i d e = (\<lambda>_. MAbsent)(0 := MReturned (ReplyCell (Inr 0)),
     1 := MReturned (ReplyUnit (Inr ())), 2 := MReturned (ReplyUnit (Inr ())),
     3 := MReturned (ReplyFrame (Inr (mock_frame i d))), 4 := MReturned (ReplyFrame (Inr (mock_frame i e))))"

lemma new_cell_stale: "sub_inner_new (chan_depth subscriber_options_default 64)
    (back_pressure subscriber_options_default) (rate_limit_per_sec subscriber_options_default) 0 = stale_cell []"
  by (simp add: stale_cell_def subscriber_options_default_def chan_depth_def sub_inner_new_def
      default_back_pressure_policy_def)

lemma stale_push:
  assumes "length fs < 64"
  shows "push now f (stale_cell fs) = (True, stale_cell (fs @ [f]))" "\<not> sub_closed (stale_cell fs)"
  using assms by (simp_all add: stale_cell_def push_unlimited enqueue_def sub_inner_new_def)

lemma stale_race_end:
  assumes "i \<le> LIN_MAX_ID" and "length d \<le> LIN_MAX_DATA_LEN" and "length e \<le> LIN_MAX_DATA_LEN"
  shows "\<exists>ts b before. mock_play (race_calls i d e) stale_race mock_begun = (ts, b, before) \<and>
    ts = stale_replies i d e \<and> mb_heap b = [stale_cell [mock_frame i e, mock_frame i d]] \<and>
    mb_responses b = [i \<mapsto> e] \<and> before = (\<lambda>_. {})(1 := {0}, 3 := {0, 1}, 2 := {0, 1}, 4 := {0, 1, 2})"
  using assms [THEN leD]
  by (simp add: stale_race_def mock_begun_def race_calls_def mock_bus_new_def new_cell_stale
      mb_inject_def heap_push_def stale_push)
    (auto simp: fun_eq_iff stale_replies_def)

text \<open>Only three orders of the five calls respect who had returned before whom.\<close>

definition stale_before :: "nat \<Rightarrow> nat set" where
  "stale_before = (\<lambda>_. {})(1 := {0}, 3 := {0, 1}, 2 := {0, 1}, 4 := {0, 1, 2})"

lemma stale_before_simps:
  "stale_before 0 = {}" "stale_before 1 = {0}" "stale_before (Suc 0) = {0}" "stale_before 2 = {0, 1}"
  "stale_before 3 = {0, 1}" "stale_before 4 = {0, 1, 2}"
  by (simp_all add: stale_before_def)

lemma returned_stale: "returned (stale_replies i d e) = {0, 1, 2, 3, 4}"
  by (auto simp: stale_replies_def)

lemma list_of_five: "length xs = 5 \<Longrightarrow> \<exists>a b c x y. xs = [a, b, c, x, y]"
  by (auto simp: eval_nat_numeral length_Suc_conv)

lemma stale_orders:
  assumes "distinct lin" and "set lin = {0, 1, 2, 3, 4}" and "in_order stale_before {} lin"
  shows "lin = [0, 1, 2, 3, 4] \<or> lin = [0, 1, 2, 4, 3] \<or> lin = [0, 1, 3, 2, 4]"
proof -
  have "length lin = 5" using distinct_card [OF assms(1)] assms(2) by simp
  then obtain a b c x y where lin: "lin = [a, b, c, x, y]" using list_of_five by blast
  have mem: "{a, b, c, x, y} = {0, 1, 2, 3, 4 :: nat}" and dis: "distinct [a, b, c, x, y]"
    and ord: "stale_before a \<subseteq> {}" "stale_before b \<subseteq> {a}" "stale_before c \<subseteq> {a, b}"
      "stale_before x \<subseteq> {a, b, c}" "stale_before y \<subseteq> {a, b, c, x}"
    using assms unfolding lin by auto
  have "a \<in> {0, 1, 2, 3, 4}" "b \<in> {0, 1, 2, 3, 4}" "c \<in> {0, 1, 2, 3, 4}" "x \<in> {0, 1, 2, 3, 4}"
    "y \<in> {0, 1, 2, 3, 4}" using mem by blast+
  note range = this
  have a: "a = 0" using range(1) ord(1) by (auto simp: stale_before_simps)
  have b: "b = 1" using range(2) ord(2) dis by (auto simp: a stale_before_simps)
  have "c = 2 \<or> c = 3" using range(3) ord(3) dis by (auto simp: a b stale_before_simps)
  then show ?thesis
  proof
    assume c: "c = 2"
    then have "(x = 3 \<and> y = 4) \<or> (x = 4 \<and> y = 3)" using range(4,5) dis by (auto simp: a b)
    then show ?thesis by (auto simp: lin a b c)
  next
    assume c: "c = 3"
    then have "x = 2" using range(4) ord(4) dis by (auto simp: a b stale_before_simps)
    then show ?thesis using range(5) dis by (auto simp: lin a b c)
  qed
qed

lemma send_open:
  assumes "i \<le> LIN_MAX_ID" and "\<not> mb_closed b" and "mb_responses b i = Some d"
  shows "mock_apply clk (MSend i) b = (ReplyFrame (Inr (mock_frame i d)),
    mb_inject clk (mock_frame i d) (b\<lparr>mb_sent_headers := mb_sent_headers b @ [i]\<rparr>))"
  using assms by (simp add: mb_send_header_def Let_def mock_frame_def)

lemma publish_open:
  assumes "length d \<le> LIN_MAX_DATA_LEN" and "\<not> mb_closed b"
  shows "mock_apply clk (MPublish i (Some d)) b = (ReplyUnit (Inr ()),
    b\<lparr>mb_published := mb_published b @ [(i, Some d)], mb_responses := (mb_responses b)(i \<mapsto> d)\<rparr>)"
  using assms by (simp add: mb_publish_def Let_def)

lemma subscribe_open:
  assumes "\<not> mb_closed b"
  shows "mock_apply (\<lambda>_. 0) (MSubscribe filters subscriber_options_default) b =
    (ReplyCell (Inr (length (mb_heap b))), b\<lparr>mb_heap := mb_heap b @ [stale_cell []],
       mb_subscribers := mb_subscribers b @ [length (mb_heap b)]\<rparr>)"
  using assms by (simp add: mb_subscribe_def Let_def new_cell_stale)

lemma stale_orders_fail:
  assumes "i \<le> LIN_MAX_ID" and "length d \<le> LIN_MAX_DATA_LEN" and "length e \<le> LIN_MAX_DATA_LEN"
    and "d \<noteq> e" and "lin = [0, 1, 2, 3, 4] \<or> lin = [0, 1, 2, 4, 3] \<or> lin = [0, 1, 3, 2, 4]"
    and replies: "map MReturned (fst (mock_seq (\<lambda>_. 0) (map (race_calls i d e) lin) mock_bus_new)) =
      map (stale_replies i d e) lin"
  shows "queue (mb_heap (snd (mock_seq (\<lambda>_. 0) (map (race_calls i d e) lin) mock_bus_new)) ! 0) \<noteq>
    [mock_frame i e, mock_frame i d]"
proof -
  have ne: "mock_frame i d \<noteq> mock_frame i e" using assms(4) by (simp add: mock_frame_def)
  have new: "\<not> mb_closed mock_bus_new" "mb_heap mock_bus_new = []" "mb_subscribers mock_bus_new = []"
    by (simp_all add: mock_bus_new_def)
  note run = race_calls_def send_open publish_open subscribe_open mb_inject_def heap_push_def stale_push
  from assms(5) consider "lin = [0, 1, 2, 3, 4] \<or> lin = [0, 1, 2, 4, 3]" | "lin = [0, 1, 3, 2, 4]" by blast
  then show ?thesis
  proof cases
    case 1
    then have "mock_frame i e = mock_frame i d"
      using replies assms(1-3) new by (auto simp: run stale_replies_def simp del: mock_apply.simps)
    with ne show ?thesis by simp
  next
    case 2
    then have "mb_heap (snd (mock_seq (\<lambda>_. 0) (map (race_calls i d e) lin) mock_bus_new)) =
        [stale_cell [mock_frame i d, mock_frame i e]]"
      using assms(1-3) new by (simp add: run del: mock_apply.simps)
    with ne show ?thesis by (simp add: stale_cell_def)
  qed
qed

text \<open>
  C36: The methods of the mock bus are not atomic for its records and subscribers.  Two
  publications of one identifier can both succeed and be recorded in one order and stored in
  the other, so that the last one recorded is not the one answered.  And a header that has
  fetched its payload can deliver it after a later publication and its exchange: the
  subscriber gets the new frame first and the old one last, which no order of the calls with
  these replies gives.
\<close>

theorem mock_bus_races:
  assumes "i \<le> LIN_MAX_ID" and "length d \<le> LIN_MAX_DATA_LEN" and "length e \<le> LIN_MAX_DATA_LEN"
    and "d \<noteq> e"
  shows "(\<exists>ts b before. mock_reach (race_calls i d e) (ts, b, before) \<and>
      ts 1 = MReturned (ReplyUnit (Inr ())) \<and> ts 2 = MReturned (ReplyUnit (Inr ())) \<and>
      mb_published b = [(i, Some d), (i, Some e)] \<and> mb_responses b i = Some d) \<and>
    (\<exists>ts b before. mock_reach (race_calls i d e) (ts, b, before) \<and> ts = stale_replies i d e \<and>
      queue (mb_heap b ! 0) = [mock_frame i e, mock_frame i d] \<and>
      \<not> (\<exists>lin. distinct lin \<and> set lin = returned ts \<and> in_order before {} lin \<and>
        map MReturned (fst (mock_seq (\<lambda>_. 0) (map (race_calls i d e) lin) mock_bus_new)) = map ts lin \<and>
        queue (mb_heap (snd (mock_seq (\<lambda>_. 0) (map (race_calls i d e) lin) mock_bus_new)) ! 0) =
          [mock_frame i e, mock_frame i d]))"
proof -
  have "\<exists>ts b before. mock_reach (race_calls i d e) (ts, b, before) \<and>
      ts 1 = MReturned (ReplyUnit (Inr ())) \<and> ts 2 = MReturned (ReplyUnit (Inr ())) \<and>
      mb_published b = [(i, Some d), (i, Some e)] \<and> mb_responses b i = Some d"
    using mock_play_reach [of "race_calls i d e" log_race] unfolding log_race_end [OF assms(2,3)]
    by (intro exI conjI) (assumption | simp)+
  moreover obtain ts b before where fin: "mock_play (race_calls i d e) stale_race mock_begun = (ts, b, before)"
    "ts = stale_replies i d e" "mb_heap b = [stale_cell [mock_frame i e, mock_frame i d]]"
    "before = stale_before"
    using stale_race_end [OF assms(1-3)] unfolding stale_before_def by blast
  moreover have "mock_reach (race_calls i d e) (ts, b, before)"
    using mock_play_reach [of "race_calls i d e" stale_race] unfolding fin(1) .
  moreover have "\<not> (\<exists>lin. distinct lin \<and> set lin = returned ts \<and> in_order before {} lin \<and>
        map MReturned (fst (mock_seq (\<lambda>_. 0) (map (race_calls i d e) lin) mock_bus_new)) = map ts lin \<and>
        queue (mb_heap (snd (mock_seq (\<lambda>_. 0) (map (race_calls i d e) lin) mock_bus_new)) ! 0) =
          [mock_frame i e, mock_frame i d])"
    unfolding fin(2,4) returned_stale using stale_orders stale_orders_fail [OF assms] by blast
  moreover have "queue (mb_heap b ! 0) = [mock_frame i e, mock_frame i d]"
    by (simp add: fin(3) stale_cell_def)
  ultimately show ?thesis by blast
qed

theorem mock_bus_races_witness:
  "\<exists>ts b before. mock_reach (race_calls 0x10 [1] [2]) (ts, b, before) \<and> ts = stale_replies 0x10 [1] [2] \<and>
     queue (mb_heap b ! 0) = [mock_frame 0x10 [2], mock_frame 0x10 [1]]"
  using mock_bus_races [of "0x10" "[1]" "[2]"] by (simp add: LIN_MAX_ID_def LIN_MAX_DATA_LEN_def) blast

text \<open>Both publications succeed; their order is that of the responses, not of the record.\<close>

theorem mock_linearizable_witness:
  "\<exists>lin. {(1, ReplyUnit (Inr ())), (2, ReplyUnit (Inr ()))} \<subseteq> set lin \<and> distinct (map fst lin) \<and>
     mb_responses (snd (mock_seq (\<lambda>_. 7) (map (race_calls 0x10 [1] [2] \<circ> fst) lin) mock_bus_new)) 0x10 = Some [1]"
proof -
  let ?c = "race_calls 0x10 [1] [2]"
  have "mock_play ?c log_race mock_begun =
    ((\<lambda>_. MAbsent)(1 := MReturned (ReplyUnit (Inr ())), 2 := MReturned (ReplyUnit (Inr ()))),
     mock_bus_new\<lparr>mb_published := [(0x10, Some [1]), (0x10, Some [2])], mb_responses := [0x10 \<mapsto> [1]]\<rparr>, \<lambda>_. {})"
    by (rule log_race_end) (simp_all add: LIN_MAX_DATA_LEN_def)
  with mock_play_reach [of ?c log_race]
  have "mock_reach ?c ((\<lambda>_. MAbsent)(1 := MReturned (ReplyUnit (Inr ())), 2 := MReturned (ReplyUnit (Inr ()))),
     mock_bus_new\<lparr>mb_published := [(0x10, Some [1]), (0x10, Some [2])], mb_responses := [0x10 \<mapsto> [1]]\<rparr>, \<lambda>_. {})"
    by simp
  from mock_linearizable [OF this, of "\<lambda>_. 7"] obtain lin where
    lin: "distinct (map fst lin)"
      "{(t, r). ((\<lambda>_. MAbsent)(1 := MReturned (ReplyUnit (Inr ())), 2 := MReturned (ReplyUnit (Inr ())))) t
          = MReturned r} \<subseteq> set lin"
      "mb_responses (snd (mock_seq (\<lambda>_. 7) (map (?c \<circ> fst) lin) mock_bus_new)) =
        mb_responses (mock_bus_new\<lparr>mb_published := [(0x10, Some [1]), (0x10, Some [2])], mb_responses := [0x10 \<mapsto> [1]]\<rparr>)"
    by blast
  have "{(1, ReplyUnit (Inr ())), (2, ReplyUnit (Inr ()))} \<subseteq> {(t, r). ((\<lambda>_. MAbsent)(1 := MReturned
      (ReplyUnit (Inr ())), 2 := MReturned (ReplyUnit (Inr ())))) t = MReturned r}" by auto
  then have "{(1, ReplyUnit (Inr ())), (2, ReplyUnit (Inr ()))} \<subseteq> set lin" using lin(2) by (rule subset_trans)
  with lin(1,3) show ?thesis by (intro exI [of _ lin]) simp
qed

end
