(* ===== verification/Master_Node.thy ===== *)
theory Master_Node
  imports Virtual_Bus Mock_Bus
begin

text \<open>
  \<open>src/master/mod.rs\<close>: the master node, a client of any \<open>MasterBus\<close>.  \<open>run\<close> may go on
  for ever, so it is a partial function: \<open>None\<close> is "does not return".  The order of the
  callback calls and of the sleeps is kept as a list of events.
\<close>

section \<open>Operations\<close>

record master_node =
  mn_schedule :: "schedule_entry list"

definition master_node_new :: master_node where
  "master_node_new = \<lparr>mn_schedule = []\<rparr>"

definition master_set_schedule ::
    "(schedule_entry list \<Rightarrow> 's \<Rightarrow> (error + unit) \<times> 's) \<Rightarrow> schedule_entry list \<Rightarrow>
     's \<times> master_node \<Rightarrow> (error + unit) \<times> 's \<times> master_node" where
  "master_set_schedule bus_set_schedule entries mn =
     (case mn of (s, n) \<Rightarrow>
        if entries = [] then (Inl (Other ''schedule must not be empty''), s, n)
        else
          (case check_entries entries of
             Inl e \<Rightarrow> (Inl e, s, n)
           | Inr _ \<Rightarrow>
               (case bus_set_schedule entries s of
                  (Inl e, s1) \<Rightarrow> (Inl e, s1, n)
                | (Inr _, s1) \<Rightarrow> (Inr (), s1, n\<lparr>mn_schedule := entries\<rparr>))))"

definition master_send_header :: "(context_t \<Rightarrow> u8 \<Rightarrow> 's \<Rightarrow> (error + lin_frame) \<times> 's) \<Rightarrow>
    context_t \<Rightarrow> u8 \<Rightarrow> 's \<times> master_node \<Rightarrow> (error + lin_frame) \<times> 's \<times> master_node" where
  "master_send_header send ctx i mn =
     (case mn of (s, n) \<Rightarrow> (case send ctx i s of (r, s1) \<Rightarrow> (r, s1, n)))"

datatype master_event = OnFrame lin_frame | OnError u8 error | Slept u32

text \<open>
  The loop.  \<open>send k\<close> is the \<open>k\<close>-th call of \<open>send_header\<close>, \<open>env k\<close> what the other tasks
  do to the bus while the node sleeps after it, \<open>expired m\<close> the result of the \<open>m\<close>-th call
  of \<open>ctx.done()\<close> (two in each turn), \<open>i\<close> the index into the table.
\<close>

partial_function (option) run_loop ::
    "(nat \<Rightarrow> u8 \<Rightarrow> 's \<Rightarrow> (error + lin_frame) \<times> 's) \<Rightarrow> (nat \<Rightarrow> 's \<Rightarrow> 's) \<Rightarrow> (nat \<Rightarrow> bool) \<Rightarrow>
     schedule_entry list \<Rightarrow> nat \<Rightarrow> nat \<Rightarrow> 's \<times> master_event list \<Rightarrow>
     ((error + unit) \<times> 's \<times> master_event list) option" where
  "run_loop send env expired sched k i st =
     (if expired (2 * k) then Some (Inl Timeout, st)
      else
        (let entry = sched ! i;
             st = (case send k (se_id entry) (fst st) of
                     (Inr f, s1) \<Rightarrow> (s1, snd st @ [OnFrame f])
                   | (Inl e, s1) \<Rightarrow> (s1, snd st @ [OnError (se_id entry) e]));
             st = (env k (fst st), snd st @ [Slept (se_delay_ms entry)])
         in if expired (2 * k + 1) then Some (Inl Timeout, st)
            else run_loop send env expired sched (Suc k) ((i + 1) mod length sched) st))"

definition master_run ::
    "(nat \<Rightarrow> u8 \<Rightarrow> 's \<Rightarrow> (error + lin_frame) \<times> 's) \<Rightarrow> (nat \<Rightarrow> 's \<Rightarrow> 's) \<Rightarrow> (nat \<Rightarrow> bool) \<Rightarrow>
     's \<times> master_node \<Rightarrow> ((error + unit) \<times> 's \<times> master_event list) option" where
  "master_run send env expired mn =
     (case mn of (s, n) \<Rightarrow>
        if mn_schedule n = [] then Some (Inl (Other ''master node: schedule is empty''), s, [])
        else run_loop send env expired (mn_schedule n) 0 0 (s, []))"

section \<open>The reference: whole turns of the table\<close>

definition slot :: "(nat \<Rightarrow> u8 \<Rightarrow> 's \<Rightarrow> (error + lin_frame) \<times> 's) \<Rightarrow> (nat \<Rightarrow> 's \<Rightarrow> 's) \<Rightarrow>
    nat \<Rightarrow> schedule_entry \<Rightarrow> 's \<times> master_event list \<Rightarrow> 's \<times> master_event list" where
  "slot send env k entry st =
     (let (r, s1) = send k (se_id entry) (fst st)
      in (env k s1,
          snd st @ [case r of Inr f \<Rightarrow> OnFrame f | Inl e \<Rightarrow> OnError (se_id entry) e,
                    Slept (se_delay_ms entry)]))"

text \<open>\<open>slots n\<close> is the state after \<open>n\<close> slots, visiting the table round and round.\<close>

primrec slots :: "(nat \<Rightarrow> u8 \<Rightarrow> 's \<Rightarrow> (error + lin_frame) \<times> 's) \<Rightarrow> (nat \<Rightarrow> 's \<Rightarrow> 's) \<Rightarrow>
    schedule_entry list \<Rightarrow> 's \<Rightarrow> nat \<Rightarrow> 's \<times> master_event list" where
  "slots send env sched s 0 = (s, [])"
| "slots send env sched s (Suc n) =
     slot send env n (sched ! (n mod length sched)) (slots send env sched s n)"

lemma run_loop_turn:
  "run_loop send env expired sched k i st =
     (if expired (2 * k) then Some (Inl Timeout, st)
      else if expired (2 * k + 1) then Some (Inl Timeout, slot send env k (sched ! i) st)
      else run_loop send env expired sched (Suc k) ((i + 1) mod length sched)
        (slot send env k (sched ! i) st))"
  by (subst run_loop.simps) (auto simp: slot_def Let_def split: prod.split sum.split)

lemma run_loop_slots:
  assumes "expired m" and "\<forall>j < m. \<not> expired j" and "2 * k \<le> m"
  shows "run_loop send env expired sched k (k mod length sched) (slots send env sched s k) =
    Some (Inl Timeout, slots send env sched s (Suc m div 2))"
  using assms(3)
proof (induction "Suc m div 2 - k" arbitrary: k)
  case 0
  then have m: "m = 2 * k" by linarith
  with assms(1) show ?case by (subst run_loop_turn) simp
next
  case (Suc d)
  have pre: "\<not> expired (2 * k)" using Suc assms(2) by (intro assms(2) [rule_format]) linarith
  show ?case
  proof (cases "m = 2 * k + 1")
    case True
    with assms(1) pre show ?thesis by (subst run_loop_turn) simp
  next
    case False
    with Suc(2) have m: "2 * Suc k \<le> m" by presburger
    then have "\<not> expired (2 * k + 1)" using assms(2) by simp
    with pre have "run_loop send env expired sched k (k mod length sched) (slots send env sched s k) =
        run_loop send env expired sched (Suc k) (Suc k mod length sched)
          (slots send env sched s (Suc k))"
      by (subst run_loop_turn) (simp add: mod_Suc_eq)
    also have "\<dots> = Some (Inl Timeout, slots send env sched s (Suc m div 2))"
      using Suc m by (intro Suc.hyps(1)) linarith+
    finally show ?thesis .
  qed
qed

lemma run_loop_returns:
  assumes "run_loop send env expired sched k i st = Some r"
  shows "\<exists>m. expired m"
proof (rule run_loop.raw_induct
    [where P = "\<lambda>send env expired sched k i st r. \<exists>m. expired m", OF _ assms])
  fix f send env expired sched k i st r
  assume IH: "\<And>send env expired sched k i st r. f send env expired sched k i st = Some r \<Longrightarrow>
      \<exists>m. expired m"
    and eq: "(if expired (2 * k) then Some (Inl Timeout, st)
      else
        (let entry = sched ! i;
             st = (case send k (se_id entry) (fst st) of
                     (Inr f, s1) \<Rightarrow> (s1, snd st @ [OnFrame f])
                   | (Inl e, s1) \<Rightarrow> (s1, snd st @ [OnError (se_id entry) e]));
             st = (env k (fst st), snd st @ [Slept (se_delay_ms entry)])
         in if expired (2 * k + 1) then Some (Inl Timeout, st)
            else f send env expired sched (Suc k) ((i + 1) mod length sched) st)) = Some r"
  from eq have "expired (2 * k) \<or> expired (2 * k + 1) \<or>
      (\<exists>k i st. f send env expired sched k i st = Some r)"
    by (simp add: Let_def del: split_paired_Ex split: if_splits) blast
  with IH show "\<exists>m. expired m" by blast
qed

text \<open>\<open>run\<close> in closed form.\<close>

lemma master_run_eq:
  assumes "mn_schedule n \<noteq> []"
  shows "master_run send env expired (s, n) =
    (if \<exists>m. expired m
     then Some (Inl Timeout, slots send env (mn_schedule n) s (Suc (LEAST m. expired m) div 2))
     else None)"
proof (cases "\<exists>m. expired m")
  case True
  then have "expired (LEAST m. expired m)" "\<forall>j < (LEAST m. expired m). \<not> expired j"
    by (auto intro: LeastI_ex dest: not_less_Least)
  from run_loop_slots [OF this, of 0 send env "mn_schedule n" s] True assms show ?thesis
    by (simp add: master_run_def)
next
  case False
  then have "run_loop send env expired (mn_schedule n) 0 0 (s, []) = None"
    using run_loop_returns by fastforce
  with False assms show ?thesis by (simp add: master_run_def)
qed

section \<open>The events of a run\<close>

lemma length_slots: "length (snd (slots send env sched s n)) = 2 * n"
  by (induction n) (auto simp: slot_def split: prod.split)

lemma slots_prefix:
  "m \<le> n \<Longrightarrow> \<exists>tl. snd (slots send env sched s n) = snd (slots send env sched s m) @ tl"
proof (induction n)
  case (Suc n)
  then show ?case
    by (cases "m = Suc n") (auto simp: slot_def le_Suc_eq split: prod.split)
qed simp

lemma slots_nth:
  fixes sched :: "schedule_entry list"
  assumes "j < n"
  defines "entry \<equiv> sched ! (j mod length sched)"
  shows "snd (slots send env sched s n) ! (2 * j) =
      (case fst (send j (se_id entry) (fst (slots send env sched s j))) of
         Inr f \<Rightarrow> OnFrame f | Inl e \<Rightarrow> OnError (se_id entry) e)"
    and "snd (slots send env sched s n) ! (2 * j + 1) = Slept (se_delay_ms entry)"
proof -
  obtain tl where tl: "snd (slots send env sched s n) = snd (slots send env sched s (Suc j)) @ tl"
    using slots_prefix [of "Suc j" n send env sched s] assms(1) by auto
  show "snd (slots send env sched s n) ! (2 * j) =
      (case fst (send j (se_id entry) (fst (slots send env sched s j))) of
         Inr f \<Rightarrow> OnFrame f | Inl e \<Rightarrow> OnError (se_id entry) e)"
    "snd (slots send env sched s n) ! (2 * j + 1) = Slept (se_delay_ms entry)"
    unfolding tl entry_def using length_slots [of send env sched s j]
    by (simp_all add: slot_def nth_append split: prod.split)
qed

lemma slots_invariant:
  assumes "\<And>k i t. P t \<Longrightarrow> P (snd (send k i t))" and "\<And>k t. P t \<Longrightarrow> P (env k t)" and "P s"
  shows "P (fst (slots send env sched s n))"
proof (induction n)
  case (Suc n)
  then show ?case
    using assms(1) [of "fst (slots send env sched s n)" n "se_id (sched ! (n mod length sched))"] assms(2)
    by (simp add: slot_def split_beta)
qed (use assms(3) in simp)

section \<open>On any bus that keeps the contract\<close>

context lin_master_bus
begin

lemma slots_keep:
  assumes "bus_inv s" and env: "\<forall>k t. bus_inv t \<longrightarrow> bus_inv (env k t) \<and>
      responses (env k t) = responses t \<and> bus_closed (env k t) = bus_closed t"
  shows "bus_inv (fst (slots (\<lambda>k. send_header (clk k) ctx) env sched s n)) \<and>
    responses (fst (slots (\<lambda>k. send_header (clk k) ctx) env sched s n)) = responses s \<and>
    bus_closed (fst (slots (\<lambda>k. send_header (clk k) ctx) env sched s n)) = bus_closed s"
  by (rule slots_invariant [where P = "\<lambda>t. bus_inv t \<and> responses t = responses s \<and> bus_closed t = bus_closed s"])
    (use assms in \<open>simp_all add: send_inv send_responses send_closed\<close>)

text \<open>
  A slot whose identifier has no registration reports \<open>NoResponse\<close>; a slot that delivers
  a frame delivers the registered payload.
\<close>

lemma slot_outcome:
  fixes sched :: "schedule_entry list" and clk :: "nat \<Rightarrow> nat \<Rightarrow> instant" and ctx :: context_t
    and env :: "nat \<Rightarrow> 's \<Rightarrow> 's"
  assumes "bus_inv s" and "\<not> bus_closed s" and "j < n"
    and env: "\<forall>k t. bus_inv t \<longrightarrow> bus_inv (env k t) \<and>
      responses (env k t) = responses t \<and> bus_closed (env k t) = bus_closed t"
  defines "entry \<equiv> sched ! (j mod length sched)"
    and "ev \<equiv> snd (slots (\<lambda>k. send_header (clk k) ctx) env sched s n) ! (2 * j)"
  shows "responses s (se_id entry) = None \<Longrightarrow> se_id entry \<le> LIN_MAX_ID \<Longrightarrow>
      ev = OnError (se_id entry) NoResponse"
    and "ev = OnFrame f \<Longrightarrow> fr_id f = se_id entry \<and>
      responses s (se_id entry) = Some (fr_data f)"
proof -
  let ?t = "fst (slots (\<lambda>k. send_header (clk k) ctx) env sched s j)"
  have "bus_inv ?t \<and> responses ?t = responses s \<and> bus_closed ?t = bus_closed s"
    by (rule slots_keep [OF assms(1) env])
  then have t: "bus_inv ?t" "responses ?t = responses s" "bus_closed ?t = bus_closed s"
    by simp_all
  have ev: "ev = (case fst (send_header (clk j) ctx (se_id entry) ?t) of
      Inr f \<Rightarrow> OnFrame f | Inl e \<Rightarrow> OnError (se_id entry) e)"
    unfolding ev_def entry_def by (rule slots_nth(1) [OF assms(3)])
  show "responses s (se_id entry) = None \<Longrightarrow> se_id entry \<le> LIN_MAX_ID \<Longrightarrow>
      ev = OnError (se_id entry) NoResponse"
    using send_no_response [of ?t "se_id entry"] t assms(2) by (simp add: ev)
  show "ev = OnFrame f \<Longrightarrow> fr_id f = se_id entry \<and>
      responses s (se_id entry) = Some (fr_data f)"
    using send_frame [of "clk j" ctx "se_id entry" ?t f] t
    by (auto simp: ev split: sum.splits)
qed

end

end
