(* ===== verification/Relay_Node.thy ===== *)
theory Relay_Node
  imports Relay_Types
begin

text \<open>
  The trait \<open>Node\<close> of \<open>src/relay.rs\<close>: sending messages and closing, with what a client may
  rely on.  The adapter of \<open>src/adapt.rs\<close> is the implementation in this repository.
\<close>

text \<open>A client sends several messages, one after the other.\<close>

fun relay_sends :: "('ts message \<Rightarrow> 's \<Rightarrow> (relay_error + unit) \<times> 's) \<Rightarrow>
    'ts message list \<Rightarrow> 's \<Rightarrow> (relay_error + unit) list \<times> 's" where
  "relay_sends send [] s = ([], s)"
| "relay_sends send (m # ms) s =
     (case send m s of (r, s1) \<Rightarrow> (case relay_sends send ms s1 of (rs, s2) \<Rightarrow> (r # rs, s2)))"

locale relay_node =
  fixes node_send :: "'ts message \<Rightarrow> 's \<Rightarrow> (relay_error + unit) \<times> 's"
    and node_close :: "'s \<Rightarrow> (relay_error + unit) \<times> 's"
    and node_closed :: "'s \<Rightarrow> bool"
    and node_inv :: "'s \<Rightarrow> bool"
  assumes node_send_inv: "node_inv s \<Longrightarrow> node_inv (snd (node_send m s))"
    and node_send_closed: "node_closed (snd (node_send m s)) = node_closed s"
    and node_send_on_closed: "node_inv s \<Longrightarrow> node_closed s \<Longrightarrow> \<exists>e. fst (node_send m s) = Inl e"
    and node_close_inv: "node_inv s \<Longrightarrow> node_inv (snd (node_close s))"
    and node_close_result: "fst (node_close s) = Inr ()"
    and node_close_closed: "node_closed (snd (node_close s))"
begin

lemma sends_on_closed:
  "node_inv s \<Longrightarrow> node_closed s \<Longrightarrow>
     (\<forall>r \<in> set (fst (relay_sends node_send ms s)). \<exists>e. r = Inl e) \<and>
     node_closed (snd (relay_sends node_send ms s))"
proof (induction ms arbitrary: s)
  case (Cons m ms)
  have "node_inv (snd (node_send m s))" "node_closed (snd (node_send m s))"
    using Cons.prems node_send_inv node_send_closed by simp_all
  with Cons.IH [of "snd (node_send m s)"] node_send_on_closed [OF Cons.prems] show ?case
    by (auto simp: split_beta)
qed simp

text \<open>Closing is final: it succeeds, and every later message is refused.\<close>

lemma sends_after_close:
  assumes "node_inv s"
  shows "fst (node_close s) = Inr () \<and>
    (\<forall>r \<in> set (fst (relay_sends node_send ms (snd (node_close s)))). \<exists>e. r = Inl e)"
  using sends_on_closed [OF node_close_inv [OF assms] node_close_closed] node_close_result by blast

end

end
