(* ===== verification/Relay_Adapter.thy ===== *)
theory Relay_Adapter
  imports Virtual_Bus Mock_Bus Relay_Node
begin

text \<open>
  \<open>src/adapt.rs\<close>: the conversion between LIN frames and RELAY messages, and the adapter
  that offers any \<open>Bus\<close> as a RELAY node.  The bus operations are arguments, as for the
  other clients.  The clock (\<open>Utc::now()\<close>) and the \<open>tokio\<close> channel are external: a
  reading of the one and the success of a \<open>send\<close> on the other are arguments too.
\<close>

section \<open>Conversion\<close>

definition to_message :: "'ts \<Rightarrow> lin_frame \<Rightarrow> 'ts message" where
  "to_message now f =
     (let ct_str = (case fr_checksum_type f of
                      Classic \<Rightarrow> ''classic'' | Enhanced \<Rightarrow> ''enhanced'')
      in \<lparr>msg_protocol = Lin, msg_version = version_default,
          msg_id = dec_string (unat (fr_id f)), msg_payload = fr_data f, msg_timestamp = now,
          msg_seq = 0,
          msg_meta = [''lin.checksum_type'' \<mapsto> ct_str,
                      ''lin.checksum'' \<mapsto> dec_string (unat (fr_checksum f))]\<rparr>)"

definition from_message :: "'ts message \<Rightarrow> error + lin_frame" where
  "from_message m =
     (if msg_protocol m \<noteq> Lin then
        Inl (InvalidFrame (''protocol '' @ protocol_debug (msg_protocol m)
              @ '' is not LIN (expected Protocol::Lin = 3)''))
      else
        (case parse_u8 (msg_id m) of
           None \<Rightarrow> Inl (InvalidFrame (''invalid LIN ID: '' @ [CHR 0x27] @ msg_id m @ [CHR 0x27]))
         | Some i \<Rightarrow>
             if i > LIN_MAX_ID then
               Inl (InvalidFrame (''LIN ID '' @ dec_string (unat i) @ '' exceeds maximum ''
                     @ dec_string (unat LIN_MAX_ID)))
             else
               (let ct = (if msg_meta m ''lin.checksum_type'' = Some ''enhanced'' then Enhanced
                          else Classic);
                    checksum = (case msg_meta m ''lin.checksum'' of
                                  None \<Rightarrow> 0
                                | Some v \<Rightarrow> (case parse_u8 v of None \<Rightarrow> 0 | Some c \<Rightarrow> c))
                in Inr \<lparr>fr_id = i, fr_data = msg_payload m, fr_checksum = checksum,
                        fr_checksum_type = ct\<rparr>)))"

section \<open>The adapter\<close>

definition adapter_protocol :: protocol where
  "adapter_protocol = Lin"

text \<open>\<open>e.kind().unwrap_or(Closed)\<close>.\<close>

definition relay_kind :: "error \<Rightarrow> relay_error" where
  "relay_kind e = (case error_kind e of Some k \<Rightarrow> k | None \<Rightarrow> RClosed)"

definition adapter_send :: "(u8 \<Rightarrow> bytes option \<Rightarrow> 's \<Rightarrow> (error + unit) \<times> 's) \<Rightarrow>
    'ts message \<Rightarrow> 's \<Rightarrow> (relay_error + unit) \<times> 's" where
  "adapter_send publish m s =
     (if length (msg_payload m) > LIN_MAX_DATA_LEN then (Inl RPayloadTooLarge, s)
      else
        (case map_err relay_kind (from_message m) of
           Inl e \<Rightarrow> (Inl e, s)
         | Inr f \<Rightarrow>
             (case publish (fr_id f) (Some (fr_data f)) s of
                (r, s1) \<Rightarrow> (map_err relay_kind r, s1))))"

text \<open>The result is the bus receiver and the capacity of the message channel.\<close>

definition adapter_subscribe ::
    "(lin_filter list \<Rightarrow> subscriber_options \<Rightarrow> 's \<Rightarrow> (error + 'r) \<times> 's) \<Rightarrow>
     subscriber_options \<Rightarrow> 's \<Rightarrow> (relay_error + 'r \<times> usize) \<times> 's" where
  "adapter_subscribe subscribe opts s =
     (let depth = chan_depth opts 64
      in case subscribe []
             \<lparr>channel_depth = depth, back_pressure = back_pressure opts,
              rate_limit_per_sec = rate_limit_per_sec opts\<rparr> s of
           (Inl _, s1) \<Rightarrow> (Inl RClosed, s1)
         | (Inr rx, s1) \<Rightarrow> (Inr (rx, max depth 1), s1))"

definition adapter_close :: "('s \<Rightarrow> (error + unit) \<times> 's) \<Rightarrow> 's \<Rightarrow> (relay_error + unit) \<times> 's" where
  "adapter_close close_bus s = (case close_bus s of (r, s1) \<Rightarrow> (map_err (\<lambda>_. RClosed) r, s1))"

text \<open>
  The forwarding task: its counter, whether its loop still runs, and what it has put into
  the channel.  One turn is one poll of the receiver; \<open>now\<close> are the two clock readings,
  \<open>tx_ok\<close> the result of \<open>tx.send\<close>.
\<close>

record 'ts forwarder =
  fw_seq :: u64
  fw_running :: bool
  fw_out :: "'ts message list"

definition forwarder_new :: "'ts forwarder" where
  "forwarder_new = \<lparr>fw_seq = 0, fw_running = True, fw_out = []\<rparr>"

definition forward_turn :: "'ts \<times> 'ts \<Rightarrow> bool \<Rightarrow> lin_frame option poll \<Rightarrow> 'ts forwarder \<Rightarrow>
    'ts forwarder" where
  "forward_turn now tx_ok p w =
     (if \<not> fw_running w then w
      else
        (case p of
           Pending \<Rightarrow> w
         | Ready None \<Rightarrow> w\<lparr>fw_running := False\<rparr>
         | Ready (Some f) \<Rightarrow>
             (let msg = (to_message (fst now) f)\<lparr>msg_timestamp := snd now, msg_seq := fw_seq w\<rparr>;
                  w = w\<lparr>fw_seq := fw_seq w + 1\<rparr>
              in if tx_ok then w\<lparr>fw_out := fw_out w @ [msg]\<rparr> else w\<lparr>fw_running := False\<rparr>)))"

section \<open>Facts\<close>

lemma to_message_sel [simp]:
  "msg_protocol (to_message now f) = Lin" "msg_payload (to_message now f) = fr_data f"
  "msg_id (to_message now f) = dec_string (unat (fr_id f))"
  "msg_seq (to_message now f) = 0" "msg_timestamp (to_message now f) = now"
  by (simp_all add: to_message_def Let_def)

lemma from_message_update [simp]:
  "from_message (m\<lparr>msg_timestamp := t, msg_seq := n\<rparr>) = from_message m"
  by (simp add: from_message_def Let_def split: option.split)

lemma from_to_message:
  "from_message (to_message now f) =
     (if fr_id f > LIN_MAX_ID then
        Inl (InvalidFrame (''LIN ID '' @ dec_string (unat (fr_id f)) @ '' exceeds maximum ''
              @ dec_string (unat LIN_MAX_ID)))
      else Inr f)"
  by (cases f; cases "fr_checksum_type f") (auto simp: from_message_def to_message_def Let_def)

lemma from_message_Inr:
  "from_message m = Inr f \<Longrightarrow> msg_protocol m = Lin \<and> parse_u8 (msg_id m) = Some (fr_id f) \<and>
     fr_id f \<le> LIN_MAX_ID \<and> fr_data f = msg_payload m"
  by (auto simp: from_message_def Let_def split: if_splits option.splits)

lemma from_message_Inl: "from_message m = Inl e \<Longrightarrow> \<exists>reason. e = InvalidFrame reason"
  by (auto simp: from_message_def Let_def split: if_splits option.splits)

text \<open>
  The turns of one task.  \<open>fw_stream\<close> lists the frames it forwards, with the times of their
  messages: it stops at the end of the stream and when the channel is gone.
\<close>

primrec forward_run :: "(('ts \<times> 'ts) \<times> bool \<times> lin_frame option poll) list \<Rightarrow> 'ts forwarder \<Rightarrow>
    'ts forwarder" where
  "forward_run [] w = w"
| "forward_run (t # ts) w = forward_run ts (forward_turn (fst t) (fst (snd t)) (snd (snd t)) w)"

fun fw_stream :: "(('ts \<times> 'ts) \<times> bool \<times> lin_frame option poll) list \<Rightarrow> ('ts \<times> lin_frame) list" where
  "fw_stream [] = []"
| "fw_stream ((now, tx_ok, Pending) # ts) = fw_stream ts"
| "fw_stream ((now, tx_ok, Ready None) # ts) = []"
| "fw_stream ((now, tx_ok, Ready (Some f)) # ts) = (if tx_ok then (snd now, f) # fw_stream ts else [])"

definition numbered :: "nat \<Rightarrow> ('ts \<times> lin_frame) list \<Rightarrow> 'ts message list" where
  "numbered k fs = map2 (\<lambda>j (t, f). (to_message t f)\<lparr>msg_seq := of_nat j\<rparr>) [k..<k + length fs] fs"

lemma numbered_simps [simp]:
  "numbered k [] = []"
  "numbered k ((t, f) # fs) = (to_message t f)\<lparr>msg_seq := of_nat k\<rparr> # numbered (Suc k) fs"
  by (simp_all add: numbered_def upt_conv_Cons del: upt_Suc)

lemma to_message_stamp:
  "(to_message t f)\<lparr>msg_timestamp := u, msg_seq := n\<rparr> = (to_message u f)\<lparr>msg_seq := n\<rparr>"
  by (simp add: to_message_def Let_def)

lemma forward_run_stopped: "\<not> fw_running w \<Longrightarrow> forward_run ts w = w"
  by (induction ts arbitrary: w) (simp_all add: forward_turn_def)

lemma forward_run_out:
  "fw_running w \<Longrightarrow> fw_seq w = of_nat k \<Longrightarrow>
     fw_out (forward_run ts w) = fw_out w @ numbered k (fw_stream ts)"
proof (induction ts arbitrary: k w rule: fw_stream.induct)
  case (2 now tx_ok ts)
  then show ?case by (simp add: forward_turn_def)
next
  case (3 now tx_ok ts)
  then show ?case by (simp add: forward_turn_def forward_run_stopped)
next
  case (4 now tx_ok f ts)
  let ?w = "w\<lparr>fw_seq := fw_seq w + 1,
    fw_out := fw_out w @ [(to_message (snd now) f)\<lparr>msg_seq := fw_seq w\<rparr>]\<rparr>"
  show ?case
  proof (cases tx_ok)
    case True
    with 4 have "fw_out (forward_run ts ?w) = fw_out ?w @ numbered (Suc k) (fw_stream ts)"
      by (intro "4.IH") (simp_all add: add.commute)
    with 4 True show ?thesis
      by (simp add: forward_turn_def Let_def to_message_stamp)
  next
    case False
    with 4 show ?thesis by (simp add: forward_turn_def Let_def forward_run_stopped)
  qed
qed simp

lemma from_message_stamp [simp]:
  "from_message (m\<lparr>msg_seq := n\<rparr>) = from_message m"
  "from_message (m\<lparr>msg_timestamp := u\<rparr>) = from_message m"
  by (simp_all add: from_message_def Let_def split: option.split)

lemma from_message_numbered:
  "\<forall>f \<in> set (map snd fs). fr_id f \<le> LIN_MAX_ID \<Longrightarrow>
     map from_message (numbered k fs) = map Inr (map snd fs)"
  by (induction fs arbitrary: k) (auto simp: from_to_message not_less)

lemma seq_numbered: "map msg_seq (numbered k fs) = map of_nat [k..<k + length fs]"
  by (induction fs arbitrary: k) (auto simp: upt_conv_Cons simp del: upt_Suc)

text \<open>A receiver whose bus has been closed is drained and then the task stops.\<close>

definition turns :: "('ts \<times> 'ts) list \<Rightarrow> lin_frame option poll list \<Rightarrow>
    (('ts \<times> 'ts) \<times> bool \<times> lin_frame option poll) list" where
  "turns nows polls = map2 (\<lambda>now p. (now, True, p)) nows polls"

lemma fw_stream_drain:
  "length nows = Suc (length fs) \<Longrightarrow>
     fw_stream (turns nows (map (\<lambda>f. Ready (Some f)) fs @ [Ready None])) = zip (map snd nows) fs"
proof (induction fs arbitrary: nows)
  case Nil
  then show ?case by (cases nows) (auto simp: turns_def)
next
  case (Cons f fs)
  then show ?case by (cases nows) (auto simp: turns_def)
qed

lemma forward_run_drained:
  "length nows = Suc (length fs) \<Longrightarrow>
     \<not> fw_running (forward_run (turns nows (map (\<lambda>f. Ready (Some f)) fs @ [Ready None])) w)"
proof (induction fs arbitrary: nows w)
  case Nil
  then show ?case by (cases nows) (auto simp: turns_def forward_turn_def)
next
  case (Cons f fs)
  then show ?case by (cases nows) (auto simp: turns_def)
qed

lemma sent_frame_ids: "\<forall>f \<in> set (sent_frames (fst (send_all hs s))). fr_id f \<le> LIN_MAX_ID"
proof (induction hs arbitrary: s)
  case (Cons h hs)
  obtain clk i where h: "h = (clk, i)" by (cases h)
  show ?case
  proof (cases "fst (vb_send_header clk context_background i s)")
    case (Inl e)
    with Cons show ?thesis by (simp add: h)
  next
    case (Inr f)
    then have "fr_id f \<le> LIN_MAX_ID" by (auto simp: send_header_ok_iff)
    with Inr Cons show ?thesis by (simp add: h)
  qed
qed simp

lemma set_keep: "set (keep p cap q fs) \<subseteq> set q \<union> set fs"
  by (cases p) (auto dest: in_set_takeD in_set_dropD)

section \<open>The adapter is a node\<close>

lemma adapter_send_state:
  "snd (adapter_send publish m s) = s \<or> (\<exists>i d. snd (adapter_send publish m s) = snd (publish i d s))"
proof (cases "map_err relay_kind (from_message m)")
  case (Inr f)
  then have "snd (adapter_send publish m s) =
      (if length (msg_payload m) > LIN_MAX_DATA_LEN then s
       else snd (publish (fr_id f) (Some (fr_data f)) s))"
    by (simp add: adapter_send_def split: prod.split)
  then show ?thesis by auto
qed (simp add: adapter_send_def)

text \<open>Over any bus that keeps the contract of \<open>Bus\<close>, so over the virtual and the mock bus.\<close>

sublocale lin_bus \<subseteq> node: relay_node "adapter_send publish" "adapter_close close_bus" bus_closed bus_inv
proof (unfold_locales, goal_cases)
  case (1 s m)
  then show ?case
    using publish_inv adapter_send_state [of publish m s] by auto
next
  case (2 m s)
  then show ?case
    using publish_closed adapter_send_state [of publish m s] by auto
next
  case (3 s m)
  show ?case
  proof (cases "from_message m")
    case (Inl e)
    then show ?thesis by (simp add: adapter_send_def)
  next
    case (Inr f)
    then have "fst (publish (fr_id f) (Some (fr_data f)) s) = Inl Closed"
      using publish_result [OF 3(1)] 3(2) from_message_Inr [OF Inr] by simp
    with Inr show ?thesis by (auto simp: adapter_send_def split: prod.split)
  qed
next
  case (4 s)
  then show ?case using close_inv [of s] by (cases "close_bus s") (simp add: adapter_close_def)
next
  case (5 s)
  then show ?case
    using close_result [of s] by (cases "close_bus s") (simp add: adapter_close_def)
next
  case (6 s)
  then show ?case using close_closed [of s] by (cases "close_bus s") (simp add: adapter_close_def)
qed

lemma adapter_closed_nodes:
  "vbus_inv s \<Longrightarrow> fst (adapter_close vb_close s) = Inr () \<and>
     (\<forall>r \<in> set (fst (relay_sends (adapter_send vb_publish) ms (snd (adapter_close vb_close s)))). \<exists>e. r = Inl e)"
  "mock_inv m \<Longrightarrow> fst (adapter_close mb_close m) = Inr () \<and>
     (\<forall>r \<in> set (fst (relay_sends (adapter_send mb_publish) ms (snd (adapter_close mb_close m)))). \<exists>e. r = Inl e)"
  by (fact vbus.node.sends_after_close, fact mock.node.sends_after_close)

end
