(* ===== verification/Relay_Bridge.thy ===== *)
theory Relay_Bridge
  imports Relay_Adapter Virtual_Bus_Spec
begin

text \<open>
  Two LIN buses joined through the RELAY adapter of \<open>src/adapt.rs\<close>: the messages that the
  forwarding task of one adapter emits are sent through another.
\<close>

section \<open>The stream of one adapter\<close>

lemma forwarded_stream:
  assumes "vbus_reachable s"
    and "adapter_subscribe (\<lambda>flts o'. vb_subscribe flts o' now) opts s = (Inr (r, cap), t)"
    and "rate_limit_per_sec opts = 0"
    and "kept = keep (back_pressure opts)
        (unat (if channel_depth opts = 0 then 64 else channel_depth opts)) []
        (sent_frames (fst (send_all hs t)))"
    and "length nows = Suc (length kept)"
  defines "w \<equiv> forward_run (turns nows (fst (poll_times (Suc (length kept))
        (vb_heap (snd (vb_close (snd (send_all hs t)))) ! r)))) forwarder_new"
  shows "fw_out w = numbered 0 (zip (map snd nows) kept)"
    and "\<not> fw_running w \<and> map from_message (fw_out w) = map Inr kept \<and>
      map msg_seq (fw_out w) = map of_nat [0..<length kept]"
proof -
  let ?o = "\<lparr>channel_depth = chan_depth opts 64, back_pressure = back_pressure opts,
    rate_limit_per_sec = rate_limit_per_sec opts\<rparr>"
  let ?u = "snd (send_all hs t)"
  have sub: "vb_subscribe [] ?o now s = (Inr r, t)"
    using assms(2) by (auto simp: adapter_subscribe_def Let_def split: prod.splits sum.splits)
  have depth: "chan_depth opts 64 = (if channel_depth opts = 0 then 64 else channel_depth opts)"
    by (simp add: chan_depth_def word_neq_0_conv [symmetric])
  have queue: "queue (vb_heap ?u ! r) = kept"
    unfolding assms(4) using subscription_queue [OF assms(1) sub, of hs] assms(3)
    by (simp add: depth split: if_splits)
  have step: "vbus_step s t"
    using step_subscribe [of s "[]" ?o now] sub by simp
  have reach: "vbus_reachable ?u"
    using send_all_reachable [OF steps_step [OF assms(1) step]] .
  have "r < length (vb_heap t)" using sub by (auto simp: vb_subscribe_def Let_def split: if_splits)
  then have "r < length (vb_heap ?u)" by (simp add: send_all_heap)
  from close_polls [OF reach this, of 1] queue
  have polls: "fst (poll_times (Suc (length kept)) (vb_heap (snd (vb_close ?u)) ! r)) =
      map (\<lambda>f. Ready (Some f)) kept @ [Ready None]"
    by simp
  have ids: "\<forall>f \<in> set kept. fr_id f \<le> LIN_MAX_ID"
    using set_keep [of "back_pressure opts" _ "[]" "sent_frames (fst (send_all hs t))"]
      sent_frame_ids [of hs t] unfolding assms(4) by fastforce
  show out: "fw_out w = numbered 0 (zip (map snd nows) kept)"
    unfolding w_def polls
    by (subst forward_run_out [where k = 0]) (simp_all add: forwarder_new_def fw_stream_drain assms(5))
  have "map snd (zip (map snd nows) kept) = kept" using assms(5) by (simp add: map_snd_zip_take)
  moreover have "length (zip (map snd nows) kept) = length kept" using assms(5) by simp
  ultimately have "map from_message (fw_out w) = map Inr kept"
    "map msg_seq (fw_out w) = map of_nat [0..<length kept]"
    unfolding out using from_message_numbered [of "zip (map snd nows) kept" 0] ids
    by (simp_all add: seq_numbered)
  moreover have "\<not> fw_running w" unfolding w_def polls by (rule forward_run_drained [OF assms(5)])
  ultimately show "\<not> fw_running w \<and> map from_message (fw_out w) = map Inr kept \<and>
      map msg_seq (fw_out w) = map of_nat [0..<length kept]" by blast
qed

section \<open>Sending a stream of messages\<close>

abbreviation adapter_sends :: "(u8 \<Rightarrow> bytes option \<Rightarrow> 's \<Rightarrow> (error + unit) \<times> 's) \<Rightarrow>
    'ts message list \<Rightarrow> 's \<Rightarrow> (relay_error + unit) list \<times> 's" where
  "adapter_sends publish \<equiv> relay_sends (adapter_send publish)"

text \<open>What a frame that arrives as a message is registered as.\<close>

definition bridged :: "lin_frame \<Rightarrow> slave_response" where
  "bridged f = \<lparr>sr_data = fr_data f, sr_checksum_type = stored_type (fr_id f) Enhanced\<rparr>"

text \<open>The registrations after a stream of frames.\<close>

fun bridge_table :: "(u8 \<rightharpoonup> slave_response) \<Rightarrow> lin_frame list \<Rightarrow> u8 \<rightharpoonup> slave_response" where
  "bridge_table m [] = m"
| "bridge_table m (f # fs) = bridge_table (m(fr_id f \<mapsto> bridged f)) fs"

lemma bridge_table_other: "\<forall>g \<in> set gs. fr_id g \<noteq> i \<Longrightarrow> bridge_table m gs i = m i"
  by (induction gs arbitrary: m) auto

lemma bridge_table_last:
  "\<forall>g \<in> set gs. fr_id g \<noteq> fr_id f \<Longrightarrow> bridge_table m (fs @ f # gs) (fr_id f) = Some (bridged f)"
  by (induction fs arbitrary: m) (simp_all add: bridge_table_other)

lemma adapter_send_message:
  assumes "from_message m = Inr f" and "length (fr_data f) \<le> LIN_MAX_DATA_LEN" and "\<not> vb_closed b"
  shows "adapter_send vb_publish m b = (Inr (), b\<lparr>vb_inner := (vb_inner b)\<lparr>bi_responses :=
    (vb_responses b)(fr_id f \<mapsto> bridged f)\<rparr>\<rparr>)"
proof -
  note f = from_message_Inr [OF assms(1)]
  have ok: "fst (publish_with_type (fr_id f) (Some (fr_data f)) Enhanced b) = Inr ()"
    using assms f by (simp add: publish_with_type_result not_less)
  then have "vb_publish (fr_id f) (Some (fr_data f)) b = (Inr (), b\<lparr>vb_inner := (vb_inner b)\<lparr>bi_responses :=
    (vb_responses b)(fr_id f \<mapsto> bridged f)\<rparr>\<rparr>)"
    using publish_with_type_state [of "fr_id f" "Some (fr_data f)" Enhanced b]
    by (simp add: vb_publish_def prod_eq_iff bridged_def)
  then show ?thesis
    using assms(1,2) f by (simp add: adapter_send_def map_err_def not_less)
qed

lemma adapter_sends_messages:
  "map from_message ms = map Inr fs \<Longrightarrow> \<forall>f \<in> set fs. length (fr_data f) \<le> LIN_MAX_DATA_LEN \<Longrightarrow>
     \<not> vb_closed b \<Longrightarrow>
     fst (adapter_sends vb_publish ms b) = replicate (length fs) (Inr ()) \<and>
     \<not> vb_closed (snd (adapter_sends vb_publish ms b)) \<and>
     vb_responses (snd (adapter_sends vb_publish ms b)) =
       bridge_table (vb_responses b) fs"
proof (induction ms arbitrary: fs b)
  case (Cons m ms)
  then obtain f gs where fs: "fs = f # gs" "from_message m = Inr f" "map from_message ms = map Inr gs"
    by (cases fs) auto
  let ?b = "b\<lparr>vb_inner := (vb_inner b)\<lparr>bi_responses := (vb_responses b)(fr_id f \<mapsto> bridged f)\<rparr>\<rparr>"
  have "adapter_send vb_publish m b = (Inr (), ?b)"
    using Cons.prems fs by (intro adapter_send_message) simp_all
  moreover have "fst (adapter_sends vb_publish ms ?b) = replicate (length gs) (Inr ()) \<and>
     \<not> vb_closed (snd (adapter_sends vb_publish ms ?b)) \<and>
     vb_responses (snd (adapter_sends vb_publish ms ?b)) =
       bridge_table (vb_responses ?b) gs"
    using Cons.prems fs by (intro Cons.IH) simp_all
  ultimately show ?case by (simp add: fs(1) split_beta)
qed simp

text \<open>The frame the other bus answers with.\<close>

definition bridged_frame :: "lin_frame \<Rightarrow> lin_frame" where
  "bridged_frame f =
     (if is_diagnostic (fr_id f) \<or> fr_checksum_type f = Enhanced then f
      else f\<lparr>fr_checksum := calc_checksum (protect_id (fr_id f)) (fr_data f) Enhanced,
             fr_checksum_type := Enhanced\<rparr>)"

lemma header_after_bridge:
  assumes "sendable f" and "vb_responses b (fr_id f) = Some (bridged f)" and "\<not> vb_closed b"
  shows "fst (vb_send_header clk ctx (fr_id f) b) = Inr (bridged_frame f)"
proof -
  have f: "fr_id f \<le> LIN_MAX_ID" "fr_data f \<noteq> []" "length (fr_data f) \<le> LIN_MAX_DATA_LEN"
    "is_diagnostic (fr_id f) \<longrightarrow> fr_checksum_type f = Classic"
    using assms(1) by (auto simp: sendable_def validate_frame_ok)
  then have "response_ok (fr_id f) (bridged f)"
    by (simp add: response_ok_def bridged_def stored_type_def)
  then have "fst (vb_send_header clk ctx (fr_id f) b) = Inr (response_frame (fr_id f) (bridged f))"
    using assms(2,3) f validate_response_frame [of "fr_id f" "bridged f"]
    by (simp add: vb_send_header_eq bridged_def not_less)
  moreover have "response_frame (fr_id f) (bridged f) = bridged_frame f"
    using assms(1) f(4)
    by (cases f; cases "fr_checksum_type f")
      (auto simp: response_frame_def bridged_def bridged_frame_def stored_type_def sendable_def)
  ultimately show ?thesis by simp
qed

lemma bridge_last_frame:
  assumes "map from_message ms = map Inr (fs @ f # gs)" and "\<forall>g \<in> set (fs @ f # gs). sendable g"
    and "\<forall>g \<in> set gs. fr_id g \<noteq> fr_id f" and "\<not> vb_closed b"
  shows "fst (adapter_sends vb_publish ms b) = replicate (length ms) (Inr ()) \<and>
    fst (vb_send_header clk ctx (fr_id f) (snd (adapter_sends vb_publish ms b))) = Inr (bridged_frame f)"
proof -
  have "\<forall>g \<in> set (fs @ f # gs). length (fr_data g) \<le> LIN_MAX_DATA_LEN"
    using assms(2) by (auto simp: sendable_def validate_frame_ok)
  note sends = adapter_sends_messages [OF assms(1) this assms(4)]
  have "vb_responses (snd (adapter_sends vb_publish ms b)) (fr_id f) = Some (bridged f)"
    using sends bridge_table_last [OF assms(3)] by simp
  moreover have "sendable f" using assms(2) by simp
  moreover have "length ms = length (fs @ f # gs)" using assms(1) by (metis length_map)
  ultimately show ?thesis using sends header_after_bridge by auto
qed

lemma demo_adapter_subscribe:
  "adapter_subscribe (\<lambda>flts o'. vb_subscribe flts o' 0) demo_options demo_bus =
     (Inr (0, 1), snd (vb_subscribe [] demo_options 0 demo_bus))"
  by (simp add: adapter_subscribe_def demo_options_def chan_depth_def vb_subscribe_def Let_def)

lemma demo_send_all:
  "sent_frames (fst (send_all [(\<lambda>k. 0, 0x10)] (snd (vb_subscribe [] demo_options 0 demo_bus)))) =
     [response_frame 0x10 \<lparr>sr_data = [1, 2], sr_checksum_type = Enhanced\<rparr>]"
  by (simp add: vb_subscribe_def Let_def vb_send_header_eq validate_frame_def
      lin_defs word_less_nat_alt)

section \<open>From bus to bus\<close>

text \<open>
  C33: A bridge of two adapters carries payloads faithfully and in order, but not the checksum
  model.  Subscribe through one adapter without a rate limit, exchange any headers, close
  that bus, let the forwarding task run, and send its messages through a second adapter on an
  open bus: every send succeeds, and a header for the last frame of an identifier that the
  back-pressure policy kept is answered there with the same identifier and payload; a frame
  with the classic checksum comes back with the enhanced one, unless it is diagnostic.
\<close>

theorem bridge_carries_stream:
  assumes "vbus_reachable s"
    and "adapter_subscribe (\<lambda>flts o'. vb_subscribe flts o' now) opts s = (Inr (r, cap), t)"
    and "rate_limit_per_sec opts = 0"
    and "fs @ f # gs = keep (back_pressure opts)
        (unat (if channel_depth opts = 0 then 64 else channel_depth opts)) []
        (sent_frames (fst (send_all hs t)))"
    and "length nows = Suc (length (fs @ f # gs))"
    and "\<forall>g \<in> set gs. fr_id g \<noteq> fr_id f" and "\<not> vb_closed b"
    and "w = forward_run (turns nows (fst (poll_times (Suc (length (fs @ f # gs)))
        (vb_heap (snd (vb_close (snd (send_all hs t)))) ! r)))) forwarder_new"
  shows "fst (adapter_sends vb_publish (fw_out w) b) = replicate (length (fw_out w)) (Inr ()) \<and>
    fst (vb_send_header clk ctx (fr_id f) (snd (adapter_sends vb_publish (fw_out w) b))) =
      Inr (bridged_frame f)"
proof (rule bridge_last_frame [OF _ _ assms(6,7)])
  show "map from_message (fw_out w) = map Inr (fs @ f # gs)"
    using forwarded_stream(2) [OF assms(1-5)] unfolding assms(8) by blast
  show "\<forall>g \<in> set (fs @ f # gs). sendable g"
    using sent_sendable [of hs t] set_keep [of "back_pressure opts" _ "[]" "sent_frames (fst (send_all hs t))"]
    unfolding assms(4) by fastforce
qed

theorem bridge_carries_stream_witness:
  "fst (vb_send_header (\<lambda>k. 0) context_background 0x10 (snd (adapter_sends vb_publish
      (fw_out (forward_run (turns [(0, 0), (1, 1 :: nat)] (fst (poll_times 2
        (vb_heap (snd (vb_close (snd (send_all [(\<lambda>k. 0, 0x10)]
          (snd (vb_subscribe [] demo_options 0 demo_bus)))))) ! 0)))) forwarder_new)) virtual_bus_new))) =
    Inr (response_frame 0x10 \<lparr>sr_data = [1, 2], sr_checksum_type = Enhanced\<rparr>)"
proof -
  let ?f = "response_frame 0x10 \<lparr>sr_data = [1, 2], sr_checksum_type = Enhanced\<rparr>"
  have kept: "[] @ ?f # [] = keep (back_pressure demo_options)
      (unat (if channel_depth demo_options = 0 then 64 else channel_depth demo_options)) []
      (sent_frames (fst (send_all [(\<lambda>k. 0, 0x10)] (snd (vb_subscribe [] demo_options 0 demo_bus)))))"
    unfolding demo_send_all by (simp add: demo_options_def)
  have len: "length [(0, 0), (1, 1 :: nat)] = Suc (length ([] @ ?f # []))" by simp
  have "rate_limit_per_sec demo_options = 0" by (simp add: demo_options_def)
  moreover have "\<forall>g \<in> set []. fr_id g \<noteq> fr_id ?f" "\<not> vb_closed virtual_bus_new"
    by (simp_all add: virtual_bus_new_def)
  moreover have "bridged_frame ?f = ?f" by (simp add: bridged_frame_def)
  ultimately show ?thesis
    using bridge_carries_stream [OF demo_bus_reachable demo_adapter_subscribe _ kept len _ _ refl,
        of virtual_bus_new "\<lambda>k. 0" context_background]
    by (simp add: numeral_2_eq_2 del: poll_times.simps)
qed

end
