(* ===== verification/Adapter_Pipeline.thy ===== *)
theory Adapter_Pipeline
  imports Relay_Adapter
begin

text \<open>
  A subscription through the adapter of \<open>src/adapt.rs\<close> as a pipeline: the bus pushes frames
  into the subscriber's queue, the forwarding task takes them, numbers them and sends them into
  a bounded channel, and the client reads the channel.  The three run independently; the task
  waits in \<open>recv\<close> when the queue is empty and in \<open>tx.send\<close> when the channel is full, with the
  message it has taken in hand.  \<open>Relay_Adapter\<close> has one turn of the task, poll and send
  together, as \<open>forward_turn\<close>.

  A step of the task in \<open>recv\<close> is one poll of it, and may come at any time: the notification
  object of the cell, which tells the program when to poll, is left out.  That allows every run
  of the program and more, so that what holds of all runs here holds of the program; the runs
  shown to exist poll only after a push or at the start.  Whether the task is woken at all,
  and so whether closing ends it, is the matter of \<open>Adapter_Wakeup\<close>.

  The channel is \<open>tokio::sync::mpsc\<close>, which is not part of the program: its operations are an
  argument, and what its documentation promises is the hypothesis \<open>channel_laws\<close>.
\<close>

section \<open>The channel\<close>

datatype send_result = Sent | Full | Gone

text \<open>\<open>ch_send\<close> is one poll of the future of \<open>send\<close>, \<open>ch_recv\<close> one of \<open>recv\<close>.\<close>

record ('c, 'm) mpsc =
  ch_send :: "'m \<Rightarrow> 'c \<Rightarrow> send_result \<times> 'c"
  ch_recv :: "'c \<Rightarrow> 'm option poll \<times> 'c"
  ch_drop_tx :: "'c \<Rightarrow> 'c"
  ch_drop_rx :: "'c \<Rightarrow> 'c"

text \<open>What can be observed: the messages, and whether the sender and the receiver still exist.\<close>

record 'm channel_view =
  cv_msgs :: "'m list"
  cv_tx :: bool
  cv_rx :: bool

definition channel_laws :: "('c, 'm) mpsc \<Rightarrow> ('c \<Rightarrow> 'm channel_view) \<Rightarrow> nat \<Rightarrow> bool" where
  "channel_laws C view cap \<longleftrightarrow>
     (\<forall>c m. fst (ch_send C m c) =
        (if \<not> cv_rx (view c) then Gone else if length (cv_msgs (view c)) < cap then Sent else Full)) \<and>
     (\<forall>c m. view (snd (ch_send C m c)) =
        (if fst (ch_send C m c) = Sent then (view c)\<lparr>cv_msgs := cv_msgs (view c) @ [m]\<rparr> else view c)) \<and>
     (\<forall>c. fst (ch_recv C c) =
        (case cv_msgs (view c) of
           m # ms \<Rightarrow> Ready (Some m)
         | [] \<Rightarrow> if cv_tx (view c) then Pending else Ready None)) \<and>
     (\<forall>c. view (snd (ch_recv C c)) = (view c)\<lparr>cv_msgs := tl (cv_msgs (view c))\<rparr>) \<and>
     (\<forall>c. view (ch_drop_tx C c) = (view c)\<lparr>cv_tx := False\<rparr>) \<and>
     (\<forall>c. cv_rx (view (ch_drop_rx C c)) = False \<and> cv_tx (view (ch_drop_rx C c)) = cv_tx (view c))"

lemma channel_lawsD:
  assumes "channel_laws C view cap"
  shows "fst (ch_send C m c) =
      (if \<not> cv_rx (view c) then Gone else if length (cv_msgs (view c)) < cap then Sent else Full)"
    and "view (snd (ch_send C m c)) =
      (if fst (ch_send C m c) = Sent then (view c)\<lparr>cv_msgs := cv_msgs (view c) @ [m]\<rparr> else view c)"
    and "fst (ch_recv C c) = (case cv_msgs (view c) of
        m # ms \<Rightarrow> Ready (Some m) | [] \<Rightarrow> if cv_tx (view c) then Pending else Ready None)"
    and "view (snd (ch_recv C c)) = (view c)\<lparr>cv_msgs := tl (cv_msgs (view c))\<rparr>"
    and "view (ch_drop_tx C c) = (view c)\<lparr>cv_tx := False\<rparr>"
    and "cv_rx (view (ch_drop_rx C c)) = False" and "cv_tx (view (ch_drop_rx C c)) = cv_tx (view c)"
  using assms unfolding channel_laws_def by blast+

section \<open>The pipeline\<close>

text \<open>The task: in \<open>recv\<close>, in \<open>send\<close> with a message, or ended, its sender dropped.\<close>

datatype 'ts fw_pc = Receiving | Sending "'ts message" | Ended

text \<open>With the past: the frames the queue accepted and the messages the client got.\<close>

record ('c, 'ts) pipeline =
  pl_cell :: sub_inner
  pl_pc :: "'ts fw_pc"
  pl_seq :: u64
  pl_chan :: 'c
  pl_accepted :: "lin_frame list"
  pl_received :: "'ts message list"

definition pipeline_new :: "sub_inner \<Rightarrow> 'c \<Rightarrow> ('c, 'ts) pipeline" where
  "pipeline_new cell c = \<lparr>pl_cell = cell, pl_pc = Receiving, pl_seq = 0, pl_chan = c,
     pl_accepted = [], pl_received = []\<rparr>"

text \<open>One step of the forwarding task; \<open>now\<close> are the two readings of the calendar clock.\<close>

definition forward_step :: "('c, 'ts message) mpsc \<Rightarrow> 'ts \<times> 'ts \<Rightarrow> ('c, 'ts) pipeline \<Rightarrow>
    ('c, 'ts) pipeline" where
  "forward_step C now x =
     (case pl_pc x of
        Receiving \<Rightarrow>
          (case recv_poll (pl_cell x) of
             (Pending, c) \<Rightarrow> x\<lparr>pl_cell := c\<rparr>
           | (Ready None, c) \<Rightarrow> x\<lparr>pl_cell := c, pl_pc := Ended, pl_chan := ch_drop_tx C (pl_chan x)\<rparr>
           | (Ready (Some f), c) \<Rightarrow>
               x\<lparr>pl_cell := c,
                 pl_pc := Sending ((to_message (fst now) f)\<lparr>msg_timestamp := snd now, msg_seq := pl_seq x\<rparr>),
                 pl_seq := pl_seq x + 1\<rparr>)
      | Sending m \<Rightarrow>
          (case ch_send C m (pl_chan x) of
             (Sent, c) \<Rightarrow> x\<lparr>pl_pc := Receiving, pl_chan := c\<rparr>
           | (Full, c) \<Rightarrow> x\<lparr>pl_chan := c\<rparr>
           | (Gone, c) \<Rightarrow> x\<lparr>pl_pc := Ended, pl_chan := ch_drop_tx C c\<rparr>)
      | Ended \<Rightarrow> x)"

datatype 'ts pipe_event =
  BusPush instant lin_frame | BusClose | Forward "'ts \<times> 'ts" | ClientRecv | ClientDrop

fun pipe_step :: "('c, 'ts message) mpsc \<Rightarrow> 'ts pipe_event \<Rightarrow> ('c, 'ts) pipeline \<Rightarrow>
    ('c, 'ts) pipeline" where
  "pipe_step C (BusPush now f) x =
     (case push now f (pl_cell x) of
        (ok, c) \<Rightarrow> x\<lparr>pl_cell := c, pl_accepted := pl_accepted x @ (if ok then [f] else [])\<rparr>)"
| "pipe_step C BusClose x = x\<lparr>pl_cell := sub_close (pl_cell x)\<rparr>"
| "pipe_step C (Forward now) x = forward_step C now x"
| "pipe_step C ClientRecv x =
     (case ch_recv C (pl_chan x) of
        (Ready (Some m), c) \<Rightarrow> x\<lparr>pl_chan := c, pl_received := pl_received x @ [m]\<rparr>
      | (_, c) \<Rightarrow> x\<lparr>pl_chan := c\<rparr>)"
| "pipe_step C ClientDrop x = x\<lparr>pl_chan := ch_drop_rx C (pl_chan x)\<rparr>"

primrec pipe_run :: "('c, 'ts message) mpsc \<Rightarrow> 'ts pipe_event list \<Rightarrow> ('c, 'ts) pipeline \<Rightarrow>
    ('c, 'ts) pipeline" where
  "pipe_run C [] x = x"
| "pipe_run C (e # es) x = pipe_run C es (pipe_step C e x)"

text \<open>A poll and a send in two steps are one turn of \<open>Relay_Adapter\<close>.\<close>

lemma forward_turn_steps:
  fixes x :: "('c, 'ts) pipeline" and out :: "'ts message list"
  assumes "pl_pc x = Receiving" and "recv_poll (pl_cell x) = (Ready (Some f), c)"
    and "fst (ch_send C ((to_message (fst now) f)\<lparr>msg_timestamp := snd now, msg_seq := pl_seq x\<rparr>) (pl_chan x)) = r"
    and "r \<noteq> Full"
  defines "y \<equiv> forward_step C now (forward_step C now x)"
    and "w \<equiv> forward_turn now (r = Sent) (Ready (Some f)) \<lparr>fw_seq = pl_seq x, fw_running = True, fw_out = out\<rparr>"
  shows "pl_seq y = fw_seq w \<and> (pl_pc y = Receiving \<longleftrightarrow> fw_running w)"
  using assms(1-4) unfolding y_def w_def
  by (cases r) (auto simp: forward_step_def forward_turn_def Let_def split: prod.splits)

section \<open>What the client gets\<close>

text \<open>The message the task holds while it waits for room in the channel.\<close>

fun in_hand :: "'ts fw_pc \<Rightarrow> 'ts message list" where
  "in_hand (Sending m) = [m]"
| "in_hand _ = []"

lemma numbered_append:
  "numbered k (fs @ [(t, f)]) = numbered k fs @ [(to_message t f)\<lparr>msg_seq := of_nat (k + length fs)\<rparr>]"
  by (induction fs arbitrary: k) auto

text \<open>
  \<open>fs\<close> are the frames taken from the queue so far with the times of their messages.
\<close>

definition flow :: "('c \<Rightarrow> 'ts message channel_view) \<Rightarrow> ('c, 'ts) pipeline \<Rightarrow> ('ts \<times> lin_frame) list \<Rightarrow> bool" where
  "flow view x fs \<longleftrightarrow>
     pl_received x @ cv_msgs (view (pl_chan x)) @ in_hand (pl_pc x) = numbered 0 fs \<and>
     pl_seq x = of_nat (length fs) \<and>
     subseq (map snd fs @ queue (pl_cell x)) (pl_accepted x) \<and>
     (policy (pl_cell x) \<noteq> DropOldest \<longrightarrow> map snd fs @ queue (pl_cell x) = pl_accepted x)"

definition pipe_inv :: "('c \<Rightarrow> 'ts message channel_view) \<Rightarrow> nat \<Rightarrow> ('c, 'ts) pipeline \<Rightarrow> bool" where
  "pipe_inv view cap x \<longleftrightarrow> sub_ok (pl_cell x) \<and> length (cv_msgs (view (pl_chan x))) \<le> cap \<and>
     (cv_rx (view (pl_chan x)) \<longrightarrow> (\<exists>fs. flow view x fs)) \<and>
     (pl_pc x = Ended \<longleftrightarrow> \<not> cv_tx (view (pl_chan x)))"

lemma flow_push:
  assumes "flow view x fs" and "push now f (pl_cell x) = (ok, c)"
  shows "flow view (x\<lparr>pl_cell := c, pl_accepted := pl_accepted x @ (if ok then [f] else [])\<rparr>) fs"
proof -
  have c: "queue c = (if ok then admitted_queue f (pl_cell x) else queue (pl_cell x))"
    "policy c = policy (pl_cell x)"
    using push_queue [of now f "pl_cell x"] push_frame(2) [of now f "pl_cell x"] assms(2) by simp_all
  have old: "subseq (map snd fs @ queue (pl_cell x)) (pl_accepted x)"
    using assms(1) by (simp add: flow_def)
  have "subseq (map snd fs @ admitted_queue f (pl_cell x)) (pl_accepted x @ [f])"
  proof -
    have "subseq (admitted_queue f (pl_cell x)) (queue (pl_cell x) @ [f])"
      using subseq_admitted [of f "pl_cell x" "[]"] by simp
    then have "subseq (map snd fs @ admitted_queue f (pl_cell x)) ((map snd fs @ queue (pl_cell x)) @ [f])"
      by (simp add: list_emb_append_mono)
    then show ?thesis using old by (meson list_emb_append_mono subseq_order.refl subseq_order.trans)
  qed
  then show ?thesis
    using assms(1) c by (auto simp: flow_def admitted_queue_def)
qed

lemma flow_forward:
  assumes laws: "channel_laws C view cap" and inv: "flow view x fs"
    and rx: "cv_rx (view (pl_chan (forward_step C now x)))"
  shows "\<exists>gs. flow view (forward_step C now x) gs"
proof (cases "pl_pc x")
  case Receiving
  show ?thesis
  proof (cases "queue (pl_cell x)")
    case Nil
    with Receiving inv channel_lawsD(5) [OF laws] have "flow view (forward_step C now x) fs"
      by (simp add: forward_step_def recv_poll_eq flow_def)
    then show ?thesis ..
  next
    case (Cons f q)
    have "flow view (forward_step C now x) (fs @ [(snd now, f)])"
      using Receiving Cons inv
      by (simp add: forward_step_def recv_poll_eq flow_def numbered_append to_message_stamp)
    then show ?thesis ..
  qed
next
  case (Sending m)
  have "fst (ch_send C m (pl_chan x)) \<noteq> Gone"
  proof
    assume gone: "fst (ch_send C m (pl_chan x)) = Gone"
    then have "view (snd (ch_send C m (pl_chan x))) = view (pl_chan x)" "\<not> cv_rx (view (pl_chan x))"
      using channel_lawsD(1,2) [OF laws, of m "pl_chan x"] by (auto split: if_splits)
    with rx Sending gone channel_lawsD(5) [OF laws] show False
      by (cases "ch_send C m (pl_chan x)") (simp add: forward_step_def)
  qed
  with Sending inv channel_lawsD(2) [OF laws, of m "pl_chan x"]
  have "flow view (forward_step C now x) fs"
    by (cases "ch_send C m (pl_chan x)"; cases "fst (ch_send C m (pl_chan x))")
      (simp_all add: forward_step_def flow_def)
  then show ?thesis ..
next
  case Ended
  with inv have "flow view (forward_step C now x) fs" by (simp add: forward_step_def flow_def)
  then show ?thesis ..
qed

lemma forward_step_frame:
  fixes x :: "('c, 'ts) pipeline" and now :: "'ts \<times> 'ts"
  assumes laws: "channel_laws C view cap" and inv: "pipe_inv view cap x"
  defines "y \<equiv> forward_step C now x"
  shows "sub_ok (pl_cell y)" and "length (cv_msgs (view (pl_chan y))) \<le> cap"
    and "cv_rx (view (pl_chan y)) = cv_rx (view (pl_chan x))"
    and "pl_pc y = Ended \<longleftrightarrow> \<not> cv_tx (view (pl_chan y))"
proof -
  have ok: "sub_ok (pl_cell x)" "length (cv_msgs (view (pl_chan x))) \<le> cap"
    "pl_pc x = Ended \<longleftrightarrow> \<not> cv_tx (view (pl_chan x))"
    using inv by (simp_all add: pipe_inv_def)
  have "sub_ok (pl_cell y) \<and> length (cv_msgs (view (pl_chan y))) \<le> cap \<and>
    cv_rx (view (pl_chan y)) = cv_rx (view (pl_chan x)) \<and>
    (pl_pc y = Ended \<longleftrightarrow> \<not> cv_tx (view (pl_chan y)))"
  proof (cases "pl_pc x")
    case Receiving
    with ok channel_lawsD(5) [OF laws] show ?thesis
      by (cases "queue (pl_cell x)") (auto simp: y_def forward_step_def recv_poll_eq sub_ok_def)
  next
    case (Sending m)
    with ok channel_lawsD(1,2) [OF laws, of m "pl_chan x"] channel_lawsD(5) [OF laws] show ?thesis
      by (cases "ch_send C m (pl_chan x)"; cases "fst (ch_send C m (pl_chan x))")
        (auto simp: y_def forward_step_def split: if_splits)
  next
    case Ended
    with ok show ?thesis by (simp add: y_def forward_step_def)
  qed
  then show "sub_ok (pl_cell y)" and "length (cv_msgs (view (pl_chan y))) \<le> cap"
    and "cv_rx (view (pl_chan y)) = cv_rx (view (pl_chan x))"
    and "pl_pc y = Ended \<longleftrightarrow> \<not> cv_tx (view (pl_chan y))" by blast+
qed

lemma client_recv_eq:
  assumes "channel_laws C view cap"
  shows "pipe_step C ClientRecv x = x\<lparr>pl_chan := snd (ch_recv C (pl_chan x)),
    pl_received := pl_received x @ (case cv_msgs (view (pl_chan x)) of [] \<Rightarrow> [] | m # ms \<Rightarrow> [m])\<rparr>"
  using channel_lawsD(3) [OF assms, of "pl_chan x"]
  by (cases "ch_recv C (pl_chan x)"; cases "cv_msgs (view (pl_chan x))")
    (auto split: if_splits)

lemma pipe_inv_flow:
  assumes "pipe_inv view cap x" and "sub_ok (pl_cell y)" and "length (cv_msgs (view (pl_chan y))) \<le> cap"
    and "cv_rx (view (pl_chan y)) = cv_rx (view (pl_chan x))"
    and "pl_pc y = Ended \<longleftrightarrow> \<not> cv_tx (view (pl_chan y))"
    and "\<And>fs. flow view x fs \<Longrightarrow> cv_rx (view (pl_chan y)) \<Longrightarrow> \<exists>gs. flow view y gs"
  shows "pipe_inv view cap y"
  using assms unfolding pipe_inv_def by blast

lemma pipe_inv_step:
  assumes laws: "channel_laws C view cap" and inv: "pipe_inv view cap x" and drop: "e \<noteq> ClientDrop"
  shows "pipe_inv view cap (pipe_step C e x)"
proof -
  have ok: "sub_ok (pl_cell x)" "length (cv_msgs (view (pl_chan x))) \<le> cap"
    "pl_pc x = Ended \<longleftrightarrow> \<not> cv_tx (view (pl_chan x))"
    using inv by (simp_all add: pipe_inv_def)
  show ?thesis
  proof (cases e)
    case (BusPush now f)
    obtain v c where push: "push now f (pl_cell x) = (v, c)" by (cases "push now f (pl_cell x)")
    have "sub_ok c" using push_sub_ok [OF ok(1), of now f] push by simp
    moreover have "\<exists>gs. flow view (pipe_step C e x) gs" if "flow view x fs" for fs
      using flow_push [OF that push] unfolding BusPush by (auto simp: push simp del: append_Nil2)
    ultimately show ?thesis
      using ok by (intro pipe_inv_flow [OF inv]) (simp_all add: BusPush push)
  next
    case BusClose
    have "flow view (pipe_step C e x) fs" if "flow view x fs" for fs
      using that by (simp add: flow_def BusClose)
    with ok close_sub_ok show ?thesis
      by (intro pipe_inv_flow [OF inv]) (auto simp: BusClose)
  next
    case (Forward now)
    show ?thesis
      using forward_step_frame [OF laws inv, of now] flow_forward [OF laws, of x _ now]
      unfolding Forward pipe_step.simps by (intro pipe_inv_flow [OF inv])
  next
    case ClientRecv
    note view = channel_lawsD(4) [OF laws, of "pl_chan x"]
    let ?y = "x\<lparr>pl_chan := snd (ch_recv C (pl_chan x)),
      pl_received := pl_received x @ (case cv_msgs (view (pl_chan x)) of [] \<Rightarrow> [] | m # ms \<Rightarrow> [m])\<rparr>"
    have "flow view ?y fs" if "flow view x fs" for fs
      using that view by (cases "cv_msgs (view (pl_chan x))") (simp_all add: flow_def)
    then have "pipe_inv view cap ?y"
      using ok view by (intro pipe_inv_flow [OF inv]) auto
    then show ?thesis unfolding ClientRecv client_recv_eq [OF laws] .
  qed (use drop in simp)
qed

lemma pipe_run_append: "pipe_run C (es @ es1) x = pipe_run C es1 (pipe_run C es x)"
  by (induction es arbitrary: x) (simp_all del: pipe_step.simps)

lemma pipe_run_invariant:
  "(\<And>e x. e \<in> set es \<Longrightarrow> P x \<Longrightarrow> P (pipe_step C e x)) \<Longrightarrow> P x \<Longrightarrow> P (pipe_run C es x)"
  by (induction es arbitrary: x) (simp_all del: pipe_step.simps)

lemma pipe_inv_run:
  assumes "channel_laws C view cap" and "pipe_inv view cap x" and "ClientDrop \<notin> set es"
  shows "pipe_inv view cap (pipe_run C es x)"
proof (rule pipe_run_invariant [where P = "pipe_inv view cap", OF _ assms(2)])
  fix e y
  assume "e \<in> set es" and "pipe_inv view cap y"
  moreover from this(1) assms(3) have "e \<noteq> ClientDrop" by blast
  ultimately show "pipe_inv view cap (pipe_step C e y)" using pipe_inv_step [OF assms(1)] by blast
qed

lemma cv_rx_step:
  assumes laws: "channel_laws C view cap" and "e \<noteq> ClientDrop"
  shows "cv_rx (view (pl_chan (pipe_step C e x))) = cv_rx (view (pl_chan x))"
proof (cases e)
  case (Forward now)
  show ?thesis
  proof (cases "pl_pc x")
    case Receiving
    with channel_lawsD(5) [OF laws] show ?thesis
      by (cases "queue (pl_cell x)") (auto simp: Forward forward_step_def recv_poll_eq)
  next
    case (Sending m)
    with channel_lawsD(2) [OF laws, of m "pl_chan x"] channel_lawsD(5) [OF laws] show ?thesis
      by (cases "ch_send C m (pl_chan x)"; cases "fst (ch_send C m (pl_chan x))")
        (auto simp: Forward forward_step_def)
  qed (simp add: Forward forward_step_def)
next
  case ClientRecv
  then show ?thesis
    using channel_lawsD(4) [OF laws, of "pl_chan x"] by (simp only: client_recv_eq [OF laws]) simp
qed (use assms(2) in \<open>auto split: prod.split\<close>)

lemma policy_step: "policy (pl_cell (pipe_step C e x)) = policy (pl_cell x)"
proof (cases e)
  case (BusPush now f)
  obtain v c where push: "push now f (pl_cell x) = (v, c)" by (cases "push now f (pl_cell x)")
  then have "policy c = policy (pl_cell x)" using push_frame(2) [of now f "pl_cell x"] by simp
  with push show ?thesis by (simp add: BusPush)
next
  case (Forward now)
  then show ?thesis
    by (cases "pl_pc x"; cases "queue (pl_cell x)")
      (auto simp: forward_step_def recv_poll_eq split: prod.split send_result.split)
next
  case BusClose
  then show ?thesis by (simp add: sub_close_def)
next
  case ClientRecv
  show ?thesis unfolding ClientRecv by (simp split: prod.split poll.split option.split)
next
  case ClientDrop
  then show ?thesis by simp
qed

lemma policy_run: "policy (pl_cell (pipe_run C es x)) = policy (pl_cell x)"
  by (rule pipe_run_invariant) (simp_all add: policy_step del: pipe_step.simps)

lemma cv_rx_run:
  fixes x :: "('c, 'ts) pipeline"
  assumes "channel_laws C view cap" and "ClientDrop \<notin> set es"
  shows "cv_rx (view (pl_chan (pipe_run C es x))) = cv_rx (view (pl_chan x))"
proof (rule pipe_run_invariant [where P = "\<lambda>y. cv_rx (view (pl_chan y)) = cv_rx (view (pl_chan x))"])
  fix e and y :: "('c, 'ts) pipeline"
  assume "e \<in> set es" and y: "cv_rx (view (pl_chan y)) = cv_rx (view (pl_chan x))"
  then have "e \<noteq> ClientDrop" using assms(2) by blast
  from cv_rx_step [OF assms(1) this, of y] y
  show "cv_rx (view (pl_chan (pipe_step C e y))) = cv_rx (view (pl_chan x))" by (rule trans)
qed simp

abbreviation empty_channel :: "'m channel_view" where
  "empty_channel \<equiv> \<lparr>cv_msgs = [], cv_tx = True, cv_rx = True\<rparr>"

lemma pipe_inv_new:
  assumes "sub_ok cell" and "queue cell = []" and "view c = empty_channel"
  shows "pipe_inv view cap (pipeline_new cell c)"
proof -
  have "flow view (pipeline_new cell c) []" using assms by (simp add: flow_def pipeline_new_def)
  with assms show ?thesis by (auto simp: pipe_inv_def pipeline_new_def)
qed

section \<open>An open subscription\<close>

text \<open>As long as the client is there and the cell open, the task goes on.\<close>

definition alive :: "('c \<Rightarrow> 'ts message channel_view) \<Rightarrow> nat \<Rightarrow> ('c, 'ts) pipeline \<Rightarrow> bool" where
  "alive view cap x \<longleftrightarrow> pipe_inv view cap x \<and> cv_rx (view (pl_chan x)) \<and>
     \<not> sub_closed (pl_cell x) \<and> pl_pc x \<noteq> Ended"

lemma forward_sends:
  assumes laws: "channel_laws C view cap" and pc: "pl_pc x = Sending m" and rx: "cv_rx (view (pl_chan x))"
  shows "length (cv_msgs (view (pl_chan x))) < cap \<Longrightarrow> forward_step C now x =
      x\<lparr>pl_pc := Receiving, pl_chan := snd (ch_send C m (pl_chan x))\<rparr> \<and>
      view (snd (ch_send C m (pl_chan x))) = (view (pl_chan x))\<lparr>cv_msgs := cv_msgs (view (pl_chan x)) @ [m]\<rparr>"
    and "\<not> length (cv_msgs (view (pl_chan x))) < cap \<Longrightarrow> forward_step C now x =
      x\<lparr>pl_chan := snd (ch_send C m (pl_chan x))\<rparr>"
  using channel_lawsD(1,2) [OF laws, of m "pl_chan x"] pc rx
  by (cases "ch_send C m (pl_chan x)"; simp add: forward_step_def)+

lemma push_closed: "push now f c = (v, d) \<Longrightarrow> sub_closed d = sub_closed c"
  using push_frame(3) [of now f c] by simp

lemma alive_step:
  assumes laws: "channel_laws C view cap" and x: "alive view cap x" and e: "e \<noteq> ClientDrop" "e \<noteq> BusClose"
  shows "alive view cap (pipe_step C e x)"
proof -
  have ok: "cv_rx (view (pl_chan x))" "\<not> sub_closed (pl_cell x)" "pl_pc x \<noteq> Ended"
    using x by (simp_all add: alive_def)
  have "\<not> sub_closed (pl_cell (pipe_step C e x)) \<and> pl_pc (pipe_step C e x) \<noteq> Ended"
  proof (cases e)
    case (BusPush now f)
    with ok push_closed [of now f "pl_cell x"] show ?thesis by (auto split: prod.split)
  next
    case (Forward now)
    show ?thesis
    proof (cases "pl_pc x")
      case Receiving
      with ok show ?thesis
        by (cases "queue (pl_cell x)") (simp_all add: Forward forward_step_def recv_poll_eq)
    next
      case (Sending m)
      with ok forward_sends [OF laws Sending ok(1), of now] show ?thesis
        by (cases "length (cv_msgs (view (pl_chan x))) < cap") (simp_all add: Forward)
    qed (use ok in simp)
  next
    case ClientRecv
    with ok show ?thesis by (simp only: client_recv_eq [OF laws]) simp
  qed (use e in simp_all)
  moreover have "pipe_inv view cap x" using x by (simp add: alive_def)
  from pipe_inv_step [OF laws this e(1)] have "pipe_inv view cap (pipe_step C e x)" .
  ultimately show ?thesis
    using cv_rx_step [OF laws e(1), of x] ok(1) unfolding alive_def by simp
qed

lemma alive_run:
  assumes "channel_laws C view cap" and "alive view cap x" and "ClientDrop \<notin> set es" and "BusClose \<notin> set es"
  shows "alive view cap (pipe_run C es x)"
proof (rule pipe_run_invariant [where P = "alive view cap", OF _ assms(2)])
  fix e y
  assume "e \<in> set es" and "alive view cap y"
  moreover from this(1) assms(3,4) have "e \<noteq> ClientDrop" "e \<noteq> BusClose" by blast+
  ultimately show "alive view cap (pipe_step C e y)" using alive_step [OF assms(1)] by blast
qed

lemma alive_new:
  "sub_ok cell \<Longrightarrow> queue cell = [] \<Longrightarrow> \<not> sub_closed cell \<Longrightarrow> view c = empty_channel \<Longrightarrow>
     alive view cap (pipeline_new cell c)"
  using pipe_inv_new [of cell view c cap] by (simp add: alive_def pipeline_new_def)

section \<open>The subscription through the adapter\<close>

text \<open>
  C29: The adapter neither loses nor reorders.  However the bus, the forwarding task and the
  client run, what the client has got, then what is in the channel, then the message the task
  holds are the messages of the frames taken from the queue, numbered 0, 1, 2 and so on
  without a gap; and these frames and the queue are, in order, all frames the queue accepted,
  except for those it evicted under \<open>DropOldest\<close>.
\<close>

theorem pipeline_order:
  assumes "channel_laws C view cap" and "view c = empty_channel" and "sub_ok cell" and "queue cell = []"
    and "ClientDrop \<notin> set es" and "x = pipe_run C es (pipeline_new cell c)"
  shows "\<exists>fs. pl_received x @ cv_msgs (view (pl_chan x)) @ in_hand (pl_pc x) = numbered 0 fs \<and>
    subseq (map snd fs @ queue (pl_cell x)) (pl_accepted x) \<and>
    (policy cell \<noteq> DropOldest \<longrightarrow> map snd fs @ queue (pl_cell x) = pl_accepted x)"
proof -
  have "pipe_inv view cap x"
    unfolding assms(6) using pipe_inv_run [OF assms(1) pipe_inv_new [of cell view c cap] assms(5)] assms(2-4)
    by blast
  moreover have "cv_rx (view (pl_chan x))"
    unfolding assms(6) cv_rx_run [OF assms(1,5)] using assms(2) by (simp add: pipeline_new_def)
  moreover have "policy (pl_cell x) = policy cell"
    unfolding assms(6) policy_run by (simp add: pipeline_new_def)
  ultimately show ?thesis unfolding pipe_inv_def flow_def by metis
qed

text \<open>A channel as a list, for examples only.\<close>

definition list_channel :: "nat \<Rightarrow> ('m channel_view, 'm) mpsc" where
  "list_channel cap =
     \<lparr>ch_send = (\<lambda>m c. if \<not> cv_rx c then (Gone, c)
        else if length (cv_msgs c) < cap then (Sent, c\<lparr>cv_msgs := cv_msgs c @ [m]\<rparr>) else (Full, c)),
      ch_recv = (\<lambda>c. case cv_msgs c of m # ms \<Rightarrow> (Ready (Some m), c\<lparr>cv_msgs := ms\<rparr>)
        | [] \<Rightarrow> (if cv_tx c then Pending else Ready None, c)),
      ch_drop_tx = (\<lambda>c. c\<lparr>cv_tx := False\<rparr>), ch_drop_rx = (\<lambda>c. c\<lparr>cv_rx := False, cv_msgs := []\<rparr>)\<rparr>"

lemma list_channel_laws: "channel_laws (list_channel cap) id cap"
  by (auto simp: channel_laws_def list_channel_def split: list.split)

text \<open>Depth one: a second frame is taken before the client has read the first.\<close>

definition demo_pipe_events :: "nat pipe_event list" where
  "demo_pipe_events = [BusPush 0 (demo_frame 1), Forward (5, 5), Forward (5, 5), BusPush 0 (demo_frame 2),
     Forward (6, 6), ClientRecv]"

definition demo_pipe :: "(nat message channel_view, nat) pipeline" where
  "demo_pipe = pipe_run (list_channel 1) demo_pipe_events
     (pipeline_new (sub_inner_new 1 DropNewest 0 0) empty_channel)"

lemma demo_pipe_run:
  "map msg_payload (pl_received demo_pipe) = [[1]]" "map msg_payload (in_hand (pl_pc demo_pipe)) = [[2]]"
  "pl_accepted demo_pipe = [demo_frame 1, demo_frame 2]"
  by (simp_all add: demo_pipe_def demo_pipe_events_def pipeline_new_def push_unlimited enqueue_def
      sub_inner_new_def forward_step_def recv_poll_eq list_channel_def demo_frame_def)

theorem pipeline_order_witness:
  "\<exists>fs. map msg_payload (pl_received demo_pipe) = [[1]] \<and>
     map msg_payload (in_hand (pl_pc demo_pipe)) = [[2]] \<and>
     pl_received demo_pipe @ cv_msgs (pl_chan demo_pipe) @ in_hand (pl_pc demo_pipe) = numbered 0 fs \<and>
     map snd fs @ queue (pl_cell demo_pipe) = [demo_frame 1, demo_frame 2]"
proof -
  let ?cell = "sub_inner_new 1 DropNewest 0 0"
  have cell: "sub_ok ?cell" "queue ?cell = []" "policy ?cell \<noteq> DropOldest"
    by (simp_all add: sub_ok_new) (simp_all add: sub_inner_new_def)
  have "ClientDrop \<notin> set demo_pipe_events" by (simp add: demo_pipe_events_def)
  from pipeline_order [OF list_channel_laws _ cell(1,2) this demo_pipe_def] cell(3) demo_pipe_run
  show ?thesis by auto
qed

section \<open>A client that goes away\<close>

definition pushed :: "'ts pipe_event list \<Rightarrow> lin_frame list" where
  "pushed es = concat (map (\<lambda>e. case e of BusPush now f \<Rightarrow> [f] | _ \<Rightarrow> []) es)"

lemma pushed_simps [simp]:
  "pushed [] = []" "pushed (BusPush now f # es) = f # pushed es" "pushed (BusClose # es) = pushed es"
  "pushed (Forward n # es) = pushed es" "pushed (ClientRecv # es) = pushed es"
  "pushed (ClientDrop # es) = pushed es" "pushed (es @ gs) = pushed es @ pushed gs"
  by (simp_all add: pushed_def)

text \<open>An open cell under \<open>Block\<close> without a rate limit, and a task that has ended.\<close>

definition orphaned :: "('c, 'ts) pipeline \<Rightarrow> bool" where
  "orphaned x \<longleftrightarrow> pl_pc x = Ended \<and> \<not> sub_closed (pl_cell x) \<and> policy (pl_cell x) = Block \<and>
     rate_limit (pl_cell x) = 0"

lemma push_block:
  assumes "policy c = Block" and "rate_limit c = 0"
  shows "\<exists>d. push now f c = (True, d) \<and> queue d = queue c @ [f] \<and> sub_closed d = sub_closed c \<and>
    policy d = Block \<and> rate_limit d = 0"
  using assms by (simp add: push_unlimited enqueue_def)

lemma orphaned_step:
  assumes "orphaned x" and "e \<noteq> BusClose"
  shows "orphaned (pipe_step C e x) \<and> queue (pl_cell (pipe_step C e x)) = queue (pl_cell x) @ pushed [e]"
proof (cases e)
  case (BusPush now f)
  obtain d where "push now f (pl_cell x) = (True, d)" "queue d = queue (pl_cell x) @ [f]"
    "sub_closed d = sub_closed (pl_cell x)" "policy d = Block" "rate_limit d = 0"
    using push_block [of "pl_cell x" now f] assms(1) by (auto simp: orphaned_def)
  with assms(1) show ?thesis by (simp add: BusPush orphaned_def)
next
  case (Forward now)
  with assms(1) show ?thesis by (simp add: orphaned_def forward_step_def)
next
  case ClientRecv
  with assms(1) show ?thesis
    by (simp add: orphaned_def split: prod.split poll.split option.split)
qed (use assms in \<open>simp_all add: orphaned_def\<close>)

lemma orphaned_run:
  "orphaned x \<Longrightarrow> BusClose \<notin> set es \<Longrightarrow>
     orphaned (pipe_run C es x) \<and> queue (pl_cell (pipe_run C es x)) = queue (pl_cell x) @ pushed es"
proof (induction es arbitrary: x)
  case (Cons e es)
  from orphaned_step [OF Cons.prems(1), of e C] Cons.prems(2)
  have "orphaned (pipe_step C e x)" "queue (pl_cell (pipe_step C e x)) = queue (pl_cell x) @ pushed [e]"
    by auto
  with Cons.IH [of "pipe_step C e x"] Cons.prems(2) show ?case
    by (simp add: pushed_def del: pipe_step.simps)
qed simp

lemma rate_limit_step: "rate_limit (pl_cell (pipe_step C e x)) = rate_limit (pl_cell x)"
proof (cases e)
  case (BusPush now f)
  obtain v c where push: "push now f (pl_cell x) = (v, c)" by (cases "push now f (pl_cell x)")
  then have "rate_limit c = rate_limit (pl_cell x)" using push_frame(4) [of now f "pl_cell x"] by simp
  with push show ?thesis by (simp add: BusPush)
next
  case (Forward now)
  then show ?thesis
    by (cases "pl_pc x"; cases "queue (pl_cell x)")
      (auto simp: forward_step_def recv_poll_eq split: prod.split send_result.split)
next
  case ClientRecv
  show ?thesis unfolding ClientRecv by (simp split: prod.split poll.split option.split)
qed (simp_all add: sub_close_def)

lemma rate_limit_run: "rate_limit (pl_cell (pipe_run C es x)) = rate_limit (pl_cell x)"
  by (rule pipe_run_invariant) (simp_all add: rate_limit_step del: pipe_step.simps)

lemma abandoned_orphaned:
  assumes laws: "channel_laws C view cap" and x: "alive view cap x"
    and cell: "policy (pl_cell x) = Block" "rate_limit (pl_cell x) = 0"
  shows "orphaned (pipe_run C [ClientDrop, BusPush now f, Forward n, Forward n] x)"
proof -
  let ?y = "x\<lparr>pl_chan := ch_drop_rx C (pl_chan x)\<rparr>"
  obtain d where d: "push now f (pl_cell x) = (True, d)" "queue d = queue (pl_cell x) @ [f]"
    "sub_closed d = sub_closed (pl_cell x)" "policy d = Block" "rate_limit d = 0"
    using push_block [OF cell] by blast
  have gone: "fst (ch_send C m (ch_drop_rx C (pl_chan x))) = Gone" for m
    using channel_lawsD(1,6) [OF laws] by simp
  obtain g q where q: "queue d = g # q" using d(2) by (cases "queue (pl_cell x)") auto
  have "pl_pc x = Receiving \<or> (\<exists>m. pl_pc x = Sending m)" "\<not> sub_closed (pl_cell x)"
    using x by (cases "pl_pc x"; simp add: alive_def)+
  then show ?thesis
  proof (elim disjE exE)
    assume "pl_pc x = Receiving"
    let ?m = "(to_message (fst n) g)\<lparr>msg_timestamp := snd n, msg_seq := pl_seq x\<rparr>"
    from \<open>pl_pc x = Receiving\<close> d(1,3-5) q gone [of ?m] \<open>\<not> sub_closed (pl_cell x)\<close> show ?thesis
      by (cases "ch_send C ?m (ch_drop_rx C (pl_chan x))")
        (simp add: orphaned_def forward_step_def recv_poll_eq)
  next
    fix m
    assume "pl_pc x = Sending m"
    with d gone [of m] \<open>\<not> sub_closed (pl_cell x)\<close> show ?thesis
      by (cases "ch_send C m (ch_drop_rx C (pl_chan x))") (simp add: orphaned_def forward_step_def)
  qed
qed

text \<open>
  C31: A client that drops its receiver is not noticed by the bus.  The forwarding task takes
  one more frame, finds the channel gone and ends without closing the subscription, so that
  the cell stays open, is never collected, and under \<open>Block\<close> keeps every frame pushed from
  then on: its queue grows without bound until the whole bus is closed.
\<close>

theorem abandoned_subscription:
  assumes "channel_laws C view cap" and "view c = empty_channel" and "0 < depth"
    and "ClientDrop \<notin> set es" and "BusClose \<notin> set es" and "BusClose \<notin> set es'"
    and "x = pipe_run C es (pipeline_new (sub_inner_new depth Block 0 start) c)"
    and "y = pipe_run C [ClientDrop, BusPush now f, Forward n, Forward n] x"
  shows "pl_pc y = Ended \<and> \<not> sub_closed (pl_cell (pipe_run C es' y)) \<and>
    queue (pl_cell (pipe_run C es' y)) = queue (pl_cell y) @ pushed es'"
proof -
  let ?cell = "sub_inner_new depth Block 0 start"
  have "sub_ok ?cell" using assms(3) by (rule sub_ok_new)
  moreover have "queue ?cell = []" "\<not> sub_closed ?cell" by (simp_all add: sub_inner_new_def)
  ultimately have "alive view cap x"
    unfolding assms(7) using alive_run [OF assms(1) alive_new assms(4,5)] assms(2) by blast
  moreover have "policy (pl_cell x) = Block" "rate_limit (pl_cell x) = 0"
    unfolding assms(7) policy_run rate_limit_run by (simp_all add: pipeline_new_def sub_inner_new_def)
  ultimately have y: "orphaned y" unfolding assms(8) by (rule abandoned_orphaned [OF assms(1)])
  from orphaned_run [OF this assms(6), of C] y show ?thesis by (simp add: orphaned_def)
qed

theorem abandoned_subscription_witness:
  "\<exists>y. length (queue (pl_cell (pipe_run (list_channel 1)
      [BusPush 9 (demo_frame 2), BusPush 9 (demo_frame 3)] y))) = 2 \<and>
    y = pipe_run (list_channel 1) [ClientDrop, BusPush 0 (demo_frame 1), Forward (5, 5 :: nat), Forward (5, 5)]
      (pipeline_new (sub_inner_new 1 Block 0 0) empty_channel)"
proof -
  let ?x = "pipeline_new (sub_inner_new 1 Block 0 0) empty_channel :: (nat message channel_view, nat) pipeline"
  let ?y = "pipe_run (list_channel 1) [ClientDrop, BusPush 0 (demo_frame 1), Forward (5, 5), Forward (5, 5)] ?x"
  have "?x = pipe_run (list_channel 1) [] ?x" by simp
  from abandoned_subscription [OF list_channel_laws _ _ _ _ _ this refl,
      of "[BusPush 9 (demo_frame 2), BusPush 9 (demo_frame 3)]" 0 "demo_frame 1" "(5, 5)"]
  have "queue (pl_cell (pipe_run (list_channel 1) [BusPush 9 (demo_frame 2), BusPush 9 (demo_frame 3)] ?y)) =
      queue (pl_cell ?y) @ [demo_frame 2, demo_frame 3]"
    by (simp del: pipe_run.simps)
  moreover have "queue (pl_cell ?y) = []"
    by (simp add: pipeline_new_def push_unlimited enqueue_def sub_inner_new_def forward_step_def
        recv_poll_eq list_channel_def)
  ultimately show ?thesis by (intro exI [of _ ?y]) (simp del: pipe_run.simps)
qed

section \<open>How much the pipeline holds\<close>

text \<open>
  \<open>k\<close> messages in the channel, nothing in the queue, the task ready; \<open>gs\<close> accepted so far.
\<close>

definition filled :: "('c \<Rightarrow> 'ts message channel_view) \<Rightarrow> usize \<Rightarrow> nat \<Rightarrow> lin_frame list \<Rightarrow>
    ('c, 'ts) pipeline \<Rightarrow> bool" where
  "filled view depth k gs x \<longleftrightarrow> pl_pc x = Receiving \<and> queue (pl_cell x) = [] \<and>
     capacity (pl_cell x) = depth \<and> policy (pl_cell x) = DropNewest \<and> rate_limit (pl_cell x) = 0 \<and>
     cv_rx (view (pl_chan x)) \<and> length (cv_msgs (view (pl_chan x))) = k \<and> pl_accepted x = gs"

lemma push_newest:
  assumes "policy c = DropNewest" and "rate_limit c = 0" and "length (queue c) < unat (capacity c)"
  shows "\<exists>d. push now f c = (True, d) \<and> queue d = queue c @ [f] \<and> capacity d = capacity c \<and>
    policy d = DropNewest \<and> rate_limit d = 0"
  using assms by (simp add: push_unlimited enqueue_def)

text \<open>Pushed and taken: the frame is in the hand of the task.\<close>

lemma filled_takes:
  assumes x: "filled view depth k gs x" and depth: "0 < unat depth"
  shows "\<exists>m. pl_pc (pipe_run C [BusPush now f, Forward n] x) = Sending m \<and>
    (let y = pipe_run C [BusPush now f, Forward n] x
     in pl_chan y = pl_chan x \<and> queue (pl_cell y) = [] \<and> capacity (pl_cell y) = depth \<and>
       policy (pl_cell y) = DropNewest \<and> rate_limit (pl_cell y) = 0 \<and> pl_accepted y = gs @ [f])"
proof -
  obtain d where "push now f (pl_cell x) = (True, d)" "queue d = [f]" "capacity d = depth"
    "policy d = DropNewest" "rate_limit d = 0"
    using push_newest [of "pl_cell x" now f] x depth by (auto simp: filled_def)
  with x show ?thesis by (simp add: filled_def forward_step_def recv_poll_eq)
qed

lemma filled_step:
  assumes laws: "channel_laws C view cap" and x: "filled view depth k gs x" and depth: "0 < unat depth"
    and k: "k < cap"
  shows "filled view depth (Suc k) (gs @ [f]) (pipe_run C [BusPush now f, Forward n, Forward n] x)"
proof -
  let ?y = "pipe_run C [BusPush now f, Forward n] x"
  obtain m where y: "pl_pc ?y = Sending m" "pl_chan ?y = pl_chan x" "queue (pl_cell ?y) = []"
    "capacity (pl_cell ?y) = depth" "policy (pl_cell ?y) = DropNewest" "rate_limit (pl_cell ?y) = 0"
    "pl_accepted ?y = gs @ [f]"
    using filled_takes [OF x depth, of C now f n] unfolding Let_def by blast
  have chan: "cv_rx (view (pl_chan ?y))" "length (cv_msgs (view (pl_chan ?y))) < cap"
    "length (cv_msgs (view (pl_chan ?y))) = k"
    using x k unfolding y(2) by (simp_all add: filled_def)
  have "pipe_run C [BusPush now f, Forward n, Forward n] x = forward_step C n ?y" by simp
  moreover have "filled view depth (Suc k) (gs @ [f]) (forward_step C n ?y)"
    using forward_sends(1) [OF laws y(1) chan(1,2), of n] y chan by (simp add: filled_def del: pipe_run.simps)
  ultimately show ?thesis by simp
qed

definition fill_events :: "'ts \<times> 'ts \<Rightarrow> lin_frame list \<Rightarrow> 'ts pipe_event list" where
  "fill_events n fs = concat (map (\<lambda>f. [BusPush 0 f, Forward n, Forward n]) fs)"

lemma filled_run:
  assumes "channel_laws C view cap" and "filled view depth k gs x" and "0 < unat depth"
    and "k + length fs \<le> cap"
  shows "filled view depth (k + length fs) (gs @ fs) (pipe_run C (fill_events n fs) x)"
  using assms(2,4)
proof (induction fs arbitrary: k gs x)
  case (Cons f fs)
  have "filled view depth (Suc k) (gs @ [f]) (pipe_run C [BusPush 0 f, Forward n, Forward n] x)"
    using filled_step [OF assms(1) Cons.prems(1) assms(3)] Cons.prems(2) by simp
  from Cons.IH [OF this] Cons.prems(2)
  have "filled view depth (Suc k + length fs) ((gs @ [f]) @ fs)
      (pipe_run C (fill_events n fs) (pipe_run C [BusPush 0 f, Forward n, Forward n] x))" by simp
  moreover have "fill_events n (f # fs) = [BusPush 0 f, Forward n, Forward n] @ fill_events n fs"
    by (simp add: fill_events_def)
  ultimately show ?case by (simp only: pipe_run_append) simp
qed (simp add: fill_events_def)

lemma queue_run:
  assumes "policy (pl_cell x) = DropNewest" and "rate_limit (pl_cell x) = 0"
    and "length (queue (pl_cell x)) + length fs \<le> unat (capacity (pl_cell x))"
  shows "pl_accepted (pipe_run C (map (BusPush 0) fs) x) = pl_accepted x @ fs"
  using assms
proof (induction fs arbitrary: x)
  case (Cons f fs)
  obtain d where d: "push 0 f (pl_cell x) = (True, d)" "queue d = queue (pl_cell x) @ [f]"
    "capacity d = capacity (pl_cell x)" "policy d = DropNewest" "rate_limit d = 0"
    using push_newest [of "pl_cell x" 0 f] Cons.prems by auto
  have "pl_accepted (pipe_run C (map (BusPush 0) fs) (pipe_step C (BusPush 0 f) x)) =
      pl_accepted (pipe_step C (BusPush 0 f) x) @ fs"
    by (rule Cons.IH) (use d Cons.prems in simp_all)
  with d show ?case by simp
qed simp

lemma pushed_fill: "pushed (fill_events n fs) = fs" "pushed (map (BusPush 0) fs) = fs"
  by (induction fs) (simp_all add: fill_events_def)

lemma fill_pipeline:
  fixes c :: 'c and C :: "('c, 'ts message) mpsc" and n :: "'ts \<times> 'ts"
  assumes laws: "channel_laws C view (unat depth)" and new: "view c = empty_channel" and depth: "0 < depth"
    and fs: "length fs = 2 * unat depth + 1"
  shows "\<exists>es. pushed es = fs \<and> ClientRecv \<notin> set es \<and>
    ClientDrop \<notin> set es \<and>
    pl_accepted (pipe_run C es (pipeline_new (sub_inner_new depth DropNewest 0 start) c)) = fs"
proof -
  let ?d = "unat depth"
  let ?x = "pipeline_new (sub_inner_new depth DropNewest 0 start) c"
  have d: "0 < ?d" using depth by (simp add: word_less_nat_alt)
  obtain as f bs where split: "fs = as @ f # bs" "length as = ?d" "length bs = ?d"
  proof
    show "fs = take ?d fs @ fs ! ?d # drop (Suc ?d) fs" using fs by (simp add: id_take_nth_drop)
  qed (use fs in simp_all)
  let ?y = "pipe_run C (fill_events n as) ?x"
  have "filled view depth 0 [] ?x"
    using new by (simp add: filled_def pipeline_new_def sub_inner_new_def)
  from filled_run [OF laws this d, of as n] split(2) have y: "filled view depth ?d as ?y" by simp
  let ?z = "pipe_run C [BusPush 0 f, Forward n] ?y"
  obtain m where z: "pl_pc ?z = Sending m" "queue (pl_cell ?z) = []"
    "capacity (pl_cell ?z) = depth" "policy (pl_cell ?z) = DropNewest" "rate_limit (pl_cell ?z) = 0"
    "pl_accepted ?z = as @ [f]"
    using filled_takes [OF y d, of C 0 f n] unfolding Let_def by blast
  have "pl_accepted (pipe_run C (map (BusPush 0) bs) ?z) = (as @ [f]) @ bs"
    using queue_run [of ?z bs C] z split(3) by simp
  then have "pl_accepted (pipe_run C (fill_events n as @ [BusPush 0 f, Forward n] @ map (BusPush 0) bs) ?x) = fs"
    unfolding pipe_run_append split(1) by simp
  moreover have "pushed (fill_events n as @ [BusPush 0 f, Forward n] @ map (BusPush 0) bs) = fs"
    by (simp add: pushed_fill split(1))
  moreover have "e \<notin> set (fill_events n as @ [BusPush 0 f, Forward n] @ map (BusPush 0) bs)"
    if "e = ClientRecv \<or> e = ClientDrop" for e
    using that by (auto simp: fill_events_def)
  ultimately show ?thesis by blast
qed

lemma capacity_step: "capacity (pl_cell (pipe_step C e x)) = capacity (pl_cell x)"
proof (cases e)
  case (BusPush now f)
  obtain v c where push: "push now f (pl_cell x) = (v, c)" by (cases "push now f (pl_cell x)")
  then have "capacity c = capacity (pl_cell x)" using push_frame(1) [of now f "pl_cell x"] by simp
  with push show ?thesis by (simp add: BusPush)
next
  case (Forward now)
  then show ?thesis
    by (cases "pl_pc x"; cases "queue (pl_cell x)")
      (auto simp: forward_step_def recv_poll_eq split: prod.split send_result.split)
next
  case BusClose
  then show ?thesis by (simp add: sub_close_def)
next
  case ClientRecv
  show ?thesis unfolding ClientRecv by (simp split: prod.split poll.split option.split)
next
  case ClientDrop
  then show ?thesis by simp
qed

lemma capacity_run: "capacity (pl_cell (pipe_run C es x)) = capacity (pl_cell x)"
  by (rule pipe_run_invariant) (simp_all add: capacity_step del: pipe_step.simps)

lemma length_numbered: "length (numbered k fs) = length fs"
  by (induction fs arbitrary: k) auto

lemma length_in_hand: "length (in_hand pc) \<le> 1"
  by (cases pc) simp_all

text \<open>What was accepted and not yet read is in the queue, in the channel or in hand.\<close>

lemma pipeline_load:
  assumes inv: "pipe_inv view cap x" and rx: "cv_rx (view (pl_chan x))"
    and policy: "policy (pl_cell x) = DropNewest"
  shows "length (pl_accepted x) \<le> length (pl_received x) + cap + unat (capacity (pl_cell x)) + 1"
proof -
  obtain fs where flow: "flow view x fs" using inv rx by (auto simp: pipe_inv_def)
  have "length fs \<le> length (pl_received x) + cap + 1"
  proof -
    have "length fs = length (pl_received x) + length (cv_msgs (view (pl_chan x))) + length (in_hand (pl_pc x))"
      using flow length_numbered [of 0 fs] by (metis flow_def length_append add.assoc)
    then show ?thesis using inv length_in_hand [of "pl_pc x"] by (simp add: pipe_inv_def)
  qed
  moreover have "length (queue (pl_cell x)) \<le> unat (capacity (pl_cell x))"
    using inv policy by (simp add: pipe_inv_def sub_ok_def)
  moreover have "length (pl_accepted x) = length fs + length (queue (pl_cell x))"
    using flow policy by (auto simp: flow_def dest: arg_cong [of _ _ length])
  ultimately show ?thesis by simp
qed

text \<open>
  C32: A subscription of depth \<open>d\<close> through the adapter holds up to \<open>2 * d + 1\<close> frames under
  \<open>DropNewest\<close>, not \<open>d\<close>: at no time are more accepted and not yet read, and any
  \<open>2 * d + 1\<close> frames can all be accepted before the client has read one.
\<close>

theorem pipeline_buffers:
  fixes c :: 'c and C :: "('c, 'ts message) mpsc"
  assumes "channel_laws C view (unat depth)" and "view c = empty_channel" and "0 < depth"
  shows "(ClientDrop \<in> set es \<or>
      length (pl_accepted (pipe_run C es (pipeline_new (sub_inner_new depth DropNewest 0 start) c)))
        \<le> length (pl_received (pipe_run C es (pipeline_new (sub_inner_new depth DropNewest 0 start) c)))
          + 2 * unat depth + 1) \<and>
    (length fs \<noteq> 2 * unat depth + 1 \<or>
      (\<exists>es'. ClientRecv \<notin> set es' \<and> ClientDrop \<notin> set es' \<and>
        pl_accepted (pipe_run C es' (pipeline_new (sub_inner_new depth DropNewest 0 start) c)) = fs))"
proof -
  let ?cell = "sub_inner_new depth DropNewest 0 start"
  let ?x = "pipeline_new ?cell c :: ('c, 'ts) pipeline"
  have cell: "sub_ok ?cell" "queue ?cell = []" "policy ?cell = DropNewest" "capacity ?cell = depth"
    using assms(3) by (simp_all add: sub_ok_new) (simp_all add: sub_inner_new_def)
  have "length (pl_accepted (pipe_run C es ?x)) \<le> length (pl_received (pipe_run C es ?x)) + 2 * unat depth + 1"
    if drop: "ClientDrop \<notin> set es"
  proof -
    have "pipe_inv view (unat depth) (pipe_run C es ?x)"
      using pipe_inv_new [of ?cell view c "unat depth"] cell(1,2) assms(2)
      by (intro pipe_inv_run [OF assms(1) _ drop]) simp
    moreover have "cv_rx (view (pl_chan (pipe_run C es ?x)))"
      unfolding cv_rx_run [OF assms(1) drop] using assms(2) by (simp add: pipeline_new_def)
    moreover have "policy (pl_cell (pipe_run C es ?x)) = DropNewest"
      "capacity (pl_cell (pipe_run C es ?x)) = depth"
      unfolding policy_run capacity_run using cell by (simp_all add: pipeline_new_def)
    ultimately show ?thesis using pipeline_load by fastforce
  qed
  then show ?thesis using fill_pipeline [OF assms, of fs start] by blast
qed

theorem pipeline_buffers_witness:
  "\<exists>es'. ClientRecv \<notin> set es' \<and>
     pl_accepted (pipe_run (list_channel 1) es'
       (pipeline_new (sub_inner_new 1 DropNewest 0 0) empty_channel :: (nat message channel_view, nat) pipeline))
       = [demo_frame 1, demo_frame 2, demo_frame 3]"
  using pipeline_buffers [of "list_channel 1" id 1 empty_channel "[]" 0 "[demo_frame 1, demo_frame 2, demo_frame 3]"]
    list_channel_laws [of 1]
  by auto

end
