(* ===== verification/Adapter_Wakeup.thy ===== *)
theory Adapter_Wakeup
  imports Adapter_Pipeline Receiver_Wakeup
begin

text \<open>
  Whether the pipeline of \<open>Adapter_Pipeline\<close> comes to its end.  There a step of the forwarding
  task polls \<open>recv\<close> afresh, which allows more than the program does: in the program the task
  sleeps until the notification object wakes it.  Here the task runs \<open>recv\<close> step by step as
  \<open>Receiver_Wakeup\<close> has it (\<open>src/bus.rs\<close>), inside the loop of \<open>src/adapt.rs\<close>, and \<open>close\<close> is its
  two steps, the flag and \<open>notify_waiters\<close>.  Every run is a run of the pipeline, so what the
  client gets is right; and the pipeline drains unless the close falls into the window in
  which \<open>recv\<close> loses it.  The client keeps its receiver throughout.
\<close>

section \<open>The wired pipeline\<close>

record ('c, 'n, 'ts) wired =
  wi_task :: "'n recv_task"
  wi_pc :: "'ts fw_pc"
  wi_seq :: u64
  wi_chan :: 'c
  wi_accepted :: "lin_frame list"
  wi_received :: "'ts message list"

definition wired_new :: "sub_inner \<Rightarrow> 'n \<Rightarrow> 'c \<Rightarrow> ('c, 'n, 'ts) wired" where
  "wired_new cell n c = \<lparr>wi_task = recv_task_new cell n, wi_pc = Receiving, wi_seq = 0, wi_chan = c,
     wi_accepted = [], wi_received = []\<rparr>"

text \<open>The effect of an event on the call of \<open>recv\<close>; one that is not possible does nothing.\<close>

definition woken :: "'n tokio_notify \<Rightarrow> wake_event \<Rightarrow> 'n recv_task \<Rightarrow> 'n recv_task" where
  "woken N e t = (case wake_step N e t of Some u \<Rightarrow> u | None \<Rightarrow> t)"

text \<open>One step of the forwarding task; after a message is sent it calls \<open>recv\<close> again.\<close>

definition wired_forward :: "('c, 'ts message) mpsc \<Rightarrow> 'n tokio_notify \<Rightarrow> 'ts \<times> 'ts \<Rightarrow>
    ('c, 'n, 'ts) wired \<Rightarrow> ('c, 'n, 'ts) wired" where
  "wired_forward C N now w =
     (case wi_pc w of
        Receiving \<Rightarrow>
          (let t = woken N Receiver (wi_task w)
           in case rt_pc t of
                Done (Some f) \<Rightarrow>
                  w\<lparr>wi_task := t,
                    wi_pc := Sending ((to_message (fst now) f)\<lparr>msg_timestamp := snd now, msg_seq := wi_seq w\<rparr>),
                    wi_seq := wi_seq w + 1\<rparr>
              | Done None \<Rightarrow> w\<lparr>wi_task := t, wi_pc := Ended, wi_chan := ch_drop_tx C (wi_chan w)\<rparr>
              | _ \<Rightarrow> w\<lparr>wi_task := t\<rparr>)
      | Sending m \<Rightarrow>
          (case ch_send C m (wi_chan w) of
             (Sent, c) \<Rightarrow> w\<lparr>wi_task := woken N NextRecv (wi_task w), wi_pc := Receiving, wi_chan := c\<rparr>
           | (Full, c) \<Rightarrow> w\<lparr>wi_chan := c\<rparr>
           | (Gone, c) \<Rightarrow> w\<lparr>wi_pc := Ended, wi_chan := ch_drop_tx C c\<rparr>)
      | Ended \<Rightarrow> w)"

datatype 'ts wired_event = WPush instant lin_frame | WFlag | WNotify | WForward "'ts \<times> 'ts" | WClientRecv

fun wired_step :: "('c, 'ts message) mpsc \<Rightarrow> 'n tokio_notify \<Rightarrow> 'ts wired_event \<Rightarrow>
    ('c, 'n, 'ts) wired \<Rightarrow> ('c, 'n, 'ts) wired" where
  "wired_step C N (WPush now f) w =
     w\<lparr>wi_task := woken N (Pushed now f) (wi_task w),
       wi_accepted := wi_accepted w @ (if fst (push now f (rt_cell (wi_task w))) then [f] else [])\<rparr>"
| "wired_step C N WFlag w = w\<lparr>wi_task := woken N FlagStored (wi_task w)\<rparr>"
| "wired_step C N WNotify w = w\<lparr>wi_task := woken N WaitersNotified (wi_task w)\<rparr>"
| "wired_step C N (WForward now) w = wired_forward C N now w"
| "wired_step C N WClientRecv w =
     (case ch_recv C (wi_chan w) of
        (Ready (Some m), c) \<Rightarrow> w\<lparr>wi_chan := c, wi_received := wi_received w @ [m]\<rparr>
      | (_, c) \<Rightarrow> w\<lparr>wi_chan := c\<rparr>)"

primrec wired_run :: "('c, 'ts message) mpsc \<Rightarrow> 'n tokio_notify \<Rightarrow> 'ts wired_event list \<Rightarrow>
    ('c, 'n, 'ts) wired \<Rightarrow> ('c, 'n, 'ts) wired" where
  "wired_run C N [] w = w"
| "wired_run C N (e # es) w = wired_run C N es (wired_step C N e w)"

lemma wired_run_append: "wired_run C N (es @ es1) w = wired_run C N es1 (wired_run C N es w)"
  by (induction es arbitrary: w) (simp_all del: wired_step.simps)

lemma wired_run_invariant:
  "(\<And>e w. e \<in> set es \<Longrightarrow> P w \<Longrightarrow> P (wired_step C N e w)) \<Longrightarrow> P w \<Longrightarrow> P (wired_run C N es w)"
  by (induction es arbitrary: w) (simp_all del: wired_step.simps)

section \<open>Every step is a step of the pipeline, or none\<close>

definition pipe_of :: "('c, 'n, 'ts) wired \<Rightarrow> ('c, 'ts) pipeline" where
  "pipe_of w = \<lparr>pl_cell = rt_cell (wi_task w), pl_pc = wi_pc w, pl_seq = wi_seq w, pl_chan = wi_chan w,
     pl_accepted = wi_accepted w, pl_received = wi_received w\<rparr>"

lemma pipe_of_sel [simp]:
  "pl_cell (pipe_of w) = rt_cell (wi_task w)" "pl_pc (pipe_of w) = wi_pc w"
  "pl_seq (pipe_of w) = wi_seq w" "pl_chan (pipe_of w) = wi_chan w"
  "pl_accepted (pipe_of w) = wi_accepted w" "pl_received (pipe_of w) = wi_received w"
  by (simp_all add: pipe_of_def)

text \<open>Where the call of \<open>recv\<close> stands in each state of the loop.\<close>

definition wired_ok :: "('c, 'n, 'ts) wired \<Rightarrow> bool" where
  "wired_ok w \<longleftrightarrow> (wi_pc w = Receiving \<longleftrightarrow> (\<forall>r. rt_pc (wi_task w) \<noteq> Done r)) \<and>
     rt_pc (wi_task w) \<noteq> GivenUp \<and>
     (rt_pc (wi_task w) = Draining \<longrightarrow> sub_closed (rt_cell (wi_task w)))"

lemma woken_simps [simp]:
  "woken N Receiver t = recv_step N t"
  "rt_cell (woken N (Pushed now f) t) = snd (push now f (rt_cell t))"
  "rt_pc (woken N (Pushed now f) t) = rt_pc t"
  "woken N FlagStored t = t\<lparr>rt_cell := (rt_cell t)\<lparr>sub_closed := True\<rparr>, rt_closers := Suc (rt_closers t)\<rparr>"
  "rt_cell (woken N WaitersNotified t) = rt_cell t" "rt_pc (woken N WaitersNotified t) = rt_pc t"
  "rt_closers (woken N WaitersNotified t) = rt_closers t - 1"
  "rt_closers (woken N (Pushed now f) t) = rt_closers t"
  "rt_cell (woken N NextRecv t) = rt_cell t" "rt_closers (woken N NextRecv t) = rt_closers t"
  by (auto simp: woken_def split: prod.split nat.split recv_pc.split)

lemma woken_next: "rt_pc t = Done r \<Longrightarrow> woken N NextRecv t = t\<lparr>rt_pc := Popping\<rparr>"
  by (simp add: woken_def)

lemma pipe_of_push: "pipe_of (wired_step C N (WPush now f) w) = pipe_step C (BusPush now f) (pipe_of w)"
  by (cases "push now f (rt_cell (wi_task w))") (simp add: pipe_of_def)

lemma pipe_of_notify: "pipe_of (wired_step C N WNotify w) = pipe_of w"
  by (simp add: pipe_of_def)

lemma pipe_of_client: "pipe_of (wired_step C N WClientRecv w) = pipe_step C ClientRecv (pipe_of w)"
  by (auto simp: pipe_of_def split: prod.split poll.split option.split)

text \<open>The call of \<open>recv\<close> changes the cell only when it returns, and returns what a poll does.\<close>

lemma recv_step_poll:
  assumes "\<forall>r. rt_pc t \<noteq> Done r" and "rt_pc t = Draining \<longrightarrow> sub_closed (rt_cell t)"
  shows "(case rt_pc (recv_step N t) of
      Done r \<Rightarrow> recv_poll (rt_cell t) = (Ready r, rt_cell (recv_step N t))
    | _ \<Rightarrow> rt_cell (recv_step N t) = rt_cell t)"
  using assms
  by (cases "rt_pc t"; cases "queue (rt_cell t)")
    (auto simp: recv_step_def sub_pop_def recv_poll_eq split: prod.split)

lemma pipe_of_forward:
  assumes "wired_ok w"
  shows "pipe_of (wired_step C N (WForward now) w) = pipe_of w \<or>
    pipe_of (wired_step C N (WForward now) w) = pipe_step C (Forward now) (pipe_of w)"
proof (cases "wi_pc w")
  case Receiving
  then have "case rt_pc (recv_step N (wi_task w)) of
      Done r \<Rightarrow> recv_poll (rt_cell (wi_task w)) = (Ready r, rt_cell (recv_step N (wi_task w)))
    | _ \<Rightarrow> rt_cell (recv_step N (wi_task w)) = rt_cell (wi_task w)"
    using assms by (intro recv_step_poll) (simp_all add: wired_ok_def)
  with Receiving show ?thesis
    by (auto simp: wired_forward_def forward_step_def pipe_of_def Let_def split: recv_pc.splits option.splits)
next
  case (Sending m)
  then show ?thesis
    by (auto simp: wired_forward_def forward_step_def pipe_of_def split: prod.split send_result.split)
next
  case Ended
  then show ?thesis by (simp add: wired_forward_def)
qed

section \<open>The invariant\<close>

definition wired_inv :: "('c \<Rightarrow> 'ts message channel_view) \<Rightarrow> ('n \<Rightarrow> bool \<times> waiter) \<Rightarrow> nat \<Rightarrow>
    ('c, 'n, 'ts) wired \<Rightarrow> bool" where
  "wired_inv view nview cap w \<longleftrightarrow> pipe_inv view cap (pipe_of w) \<and> cv_rx (view (wi_chan w)) \<and>
     wake_inv nview (wi_task w) \<and> wired_ok w \<and> (wi_pc w = Ended \<longrightarrow> sub_closed (rt_cell (wi_task w)))"

lemma woken_invariant:
  assumes "\<And>e t u. wake_step N e t = Some u \<Longrightarrow> P t \<Longrightarrow> P u" and "P t"
  shows "P (woken N e t)"
  using assms by (auto simp: woken_def split: option.split)

lemma wake_inv_woken: "notify_laws N nview \<Longrightarrow> wake_inv nview t \<Longrightarrow> wake_inv nview (woken N e t)"
  by (rule woken_invariant [where P = "wake_inv nview"]) (rule wake_inv_step)

lemma wakes_inv_woken: "notify_laws N nview \<Longrightarrow> wakes_inv nview t \<Longrightarrow> wakes_inv nview (woken N e t)"
  by (rule woken_invariant [where P = "wakes_inv nview"]) (rule wakes_inv_step)

text \<open>What a step does to the call of \<open>recv\<close> is an event of \<open>Receiver_Wakeup\<close>, or nothing.\<close>

lemma wired_forward_task: "wi_task (wired_forward C N now w) =
    (case wi_pc w of
       Receiving \<Rightarrow> woken N Receiver (wi_task w)
     | Sending m \<Rightarrow> if fst (ch_send C m (wi_chan w)) = Sent then woken N NextRecv (wi_task w) else wi_task w
     | Ended \<Rightarrow> wi_task w)"
proof (cases "wi_pc w")
  case Receiving
  then show ?thesis
    by (simp add: wired_forward_def Let_def split: recv_pc.split option.split)
next
  case (Sending m)
  then show ?thesis
    by (cases "ch_send C m (wi_chan w)"; cases "fst (ch_send C m (wi_chan w))") (simp_all add: wired_forward_def)
qed (simp add: wired_forward_def)

lemma wired_task: "wi_task (wired_step C N e w) = wi_task w \<or>
    (\<exists>e'. wi_task (wired_step C N e w) = woken N e' (wi_task w))"
proof (cases e)
  case (WPush now f)
  have "wi_task (wired_step C N e w) = woken N (Pushed now f) (wi_task w)" by (simp add: WPush)
  then show ?thesis by blast
next
  case WFlag
  have "wi_task (wired_step C N e w) = woken N FlagStored (wi_task w)" by (simp add: WFlag)
  then show ?thesis by blast
next
  case WNotify
  have "wi_task (wired_step C N e w) = woken N WaitersNotified (wi_task w)" by (simp add: WNotify)
  then show ?thesis by blast
next
  case (WForward now)
  then have task: "wi_task (wired_step C N e w) = wi_task (wired_forward C N now w)" by simp
  show ?thesis unfolding task wired_forward_task
    by (cases "wi_pc w"; simp only: fw_pc.case split: if_split; blast)
next
  case WClientRecv
  then show ?thesis by (simp split: prod.split poll.split option.split)
qed

lemma recv_step_ok:
  assumes "rt_pc t \<noteq> GivenUp" and "rt_pc t = Draining \<longrightarrow> sub_closed (rt_cell t)"
  shows "rt_pc (recv_step N t) \<noteq> GivenUp \<and> sub_closed (rt_cell (recv_step N t)) = sub_closed (rt_cell t) \<and>
    (rt_pc (recv_step N t) = Draining \<longrightarrow> sub_closed (rt_cell t)) \<and>
    (rt_pc (recv_step N t) = Done None \<and> (\<forall>r. rt_pc t \<noteq> Done r) \<longrightarrow>
      sub_closed (rt_cell t) \<and> queue (rt_cell (recv_step N t)) = [])"
proof (cases "rt_pc t")
  case Waiting
  then show ?thesis by (simp add: recv_step_def split: prod.split)
next
  case Asleep
  then show ?thesis by (simp add: recv_step_def split: prod.split)
qed (use assms in \<open>simp_all add: recv_step_def sub_pop_def split: list.split\<close>)

text \<open>The forwarding task: how the loop, the call and the flag go together.\<close>

lemma wired_forward_ok:
  assumes laws: "channel_laws C view cap" and ok: "wired_ok w" and rx: "cv_rx (view (wi_chan w))"
    and fin: "wi_pc w = Ended \<longrightarrow> sub_closed (rt_cell (wi_task w))"
    and v: "v = wired_forward C N now w"
  shows "wired_ok v \<and> (wi_pc v = Ended \<longrightarrow> sub_closed (rt_cell (wi_task v)))"
proof (cases "wi_pc w")
  case Receiving
  let ?t = "recv_step N (wi_task w)"
  have pre: "rt_pc (wi_task w) \<noteq> GivenUp" "rt_pc (wi_task w) = Draining \<longrightarrow> sub_closed (rt_cell (wi_task w))"
    "\<forall>r. rt_pc (wi_task w) \<noteq> Done r"
    using ok Receiving by (simp_all add: wired_ok_def)
  note t = recv_step_ok [OF pre(1,2), of N]
  show ?thesis
    using Receiving t pre(3) unfolding v
    by (cases "rt_pc ?t") (auto simp: wired_forward_def wired_ok_def Let_def split: option.split)
next
  case (Sending m)
  then obtain r where r: "rt_pc (wi_task w) = Done r" using ok by (auto simp: wired_ok_def)
  have "fst (ch_send C m (wi_chan w)) \<noteq> Gone" using channel_lawsD(1) [OF laws] rx by simp
  then show ?thesis
    using Sending r unfolding v
    by (cases "ch_send C m (wi_chan w)")
      (auto simp: wired_forward_def wired_ok_def woken_next split: send_result.splits)
next
  case Ended
  then show ?thesis using ok fin by (simp add: v wired_forward_def)
qed

lemma wired_inv_same:
  "wired_inv view nview cap w \<Longrightarrow> wi_task v = wi_task w \<Longrightarrow> wi_pc v = wi_pc w \<Longrightarrow>
     pipe_inv view cap (pipe_of v) \<Longrightarrow> cv_rx (view (wi_chan v)) \<Longrightarrow> wired_inv view nview cap v"
  by (simp add: wired_inv_def wired_ok_def)

lemma wired_inv_step:
  fixes w :: "('c, 'n, 'ts) wired"
  assumes laws: "channel_laws C view cap" "notify_laws N nview" and inv: "wired_inv view nview cap w"
  shows "wired_inv view nview cap (wired_step C N e w)"
proof -
  have ok: "pipe_inv view cap (pipe_of w)" "cv_rx (view (wi_chan w))" "wake_inv nview (wi_task w)" "wired_ok w"
    "wi_pc w = Ended \<longrightarrow> sub_closed (rt_cell (wi_task w))"
    using inv by (simp_all add: wired_inv_def)
  have wake: "wake_inv nview (wi_task (wired_step C N e w))"
    using wired_task [of C N e w] wake_inv_woken [OF laws(2) ok(3)] ok(3) by metis
  have piped: "pipe_inv view cap (pipe_of (wired_step C N e w)) \<and> cv_rx (view (wi_chan (wired_step C N e w)))"
    if "pipe_of (wired_step C N e w) = pipe_of w \<or>
        pipe_of (wired_step C N e w) = pipe_step C e' (pipe_of w)" "e' \<noteq> ClientDrop" for e'
    using that pipe_inv_step [OF laws(1) ok(1) that(2)] cv_rx_step [OF laws(1) that(2), of "pipe_of w"] ok(1,2)
    by (metis pipe_of_sel(4))
  show ?thesis
  proof (cases e)
    case (WPush now f)
    with piped [of "BusPush now f"] wake ok(4,5) pipe_of_push [of C N now f w] show ?thesis
      by (simp add: wired_inv_def wired_ok_def del: pipe_step.simps)
  next
    case WFlag
    let ?c = "(rt_cell (wi_task w))\<lparr>sub_closed := True\<rparr>"
    have "flow view (pipe_of (wired_step C N WFlag w)) fs" if "flow view (pipe_of w) fs" for fs
      using that by (simp add: flow_def)
    then have "pipe_inv view cap (pipe_of (wired_step C N WFlag w))"
      using ok(1) by (intro pipe_inv_flow [OF ok(1)]) (auto simp: pipe_inv_def sub_ok_def)
    with wake ok(2,4) show ?thesis by (simp add: WFlag wired_inv_def wired_ok_def)
  next
    case WNotify
    with piped [of BusClose] wake ok(4,5) pipe_of_notify [of C N w] show ?thesis
      by (simp add: wired_inv_def wired_ok_def del: pipe_step.simps)
  next
    case (WForward now)
    with piped [of "Forward now"] wake pipe_of_forward [OF ok(4), of C N now]
      wired_forward_ok [OF laws(1) ok(4,2,5) refl, of N now] show ?thesis
      by (simp add: wired_inv_def del: pipe_step.simps)
  next
    case WClientRecv
    have same: "wi_task (wired_step C N e w) = wi_task w" "wi_pc (wired_step C N e w) = wi_pc w"
      unfolding WClientRecv by (auto split: prod.split poll.split option.split)
    have eq: "pipe_of (wired_step C N e w) = pipe_step C ClientRecv (pipe_of w)"
      unfolding WClientRecv by (rule pipe_of_client)
    have "ClientRecv \<noteq> (ClientDrop :: 'ts pipe_event)" by simp
    note both = piped [OF disjI2 [OF eq] this]
    show ?thesis by (rule wired_inv_same [OF inv same both [THEN conjunct1] both [THEN conjunct2]])
  qed
qed

lemma wired_inv_run:
  assumes "channel_laws C view cap" and "notify_laws N nview" and "wired_inv view nview cap w"
  shows "wired_inv view nview cap (wired_run C N es w)"
  by (rule wired_run_invariant [where P = "wired_inv view nview cap", OF _ assms(3)])
    (rule wired_inv_step [OF assms(1,2)])

lemma wired_inv_new:
  fixes view :: "'c \<Rightarrow> 'ts message channel_view" and nview :: "'n \<Rightarrow> bool \<times> waiter"
  assumes "sub_ok cell" and "queue cell = []" and "view c = empty_channel" and "snd (nview n) = NoWaiter"
  shows "wired_inv view nview cap (wired_new cell n c)"
proof -
  have "pipe_of (wired_new cell n c :: ('c, 'n, 'ts) wired) = pipeline_new cell c"
    by (simp add: pipe_of_def wired_new_def pipeline_new_def recv_task_new_def)
  then have "pipe_inv view cap (pipe_of (wired_new cell n c :: ('c, 'n, 'ts) wired))"
    using pipe_inv_new [of cell view c cap] assms(1-3) by simp
  moreover have "wake_inv nview (wi_task (wired_new cell n c :: ('c, 'n, 'ts) wired))"
    using wake_inv_new [of nview n cell] assms(4) by (simp add: wired_new_def)
  ultimately show ?thesis
    using assms(3) by (simp add: wired_inv_def wired_ok_def wired_new_def recv_task_new_def)
qed

section \<open>Draining\<close>

text \<open>After the flag is set outside the window, and nothing is pushed any more.\<close>

definition drain_inv :: "('c \<Rightarrow> 'ts message channel_view) \<Rightarrow> ('n \<Rightarrow> bool \<times> waiter) \<Rightarrow> nat \<Rightarrow>
    ('c, 'n, 'ts) wired \<Rightarrow> bool" where
  "drain_inv view nview cap w \<longleftrightarrow> wired_inv view nview cap w \<and> wakes_inv nview (wi_task w) \<and>
     (wi_pc w = Ended \<longrightarrow> queue (rt_cell (wi_task w)) = [])"

text \<open>A run of the task and the client, the second half of the closing among it.\<close>

fun winding :: "'ts wired_event \<Rightarrow> bool" where
  "winding (WForward now) \<longleftrightarrow> True"
| "winding WClientRecv \<longleftrightarrow> True"
| "winding WNotify \<longleftrightarrow> True"
| "winding _ \<longleftrightarrow> False"

lemma client_frame:
  "wi_task (wired_step C N WClientRecv w) = wi_task w" "wi_pc (wired_step C N WClientRecv w) = wi_pc w"
  "wi_accepted (wired_step C N WClientRecv w) = wi_accepted w"
  by (auto split: prod.split poll.split option.split)

lemma forward_accepted: "wi_accepted (wired_forward C N now w) = wi_accepted w"
  by (simp add: wired_forward_def Let_def split: fw_pc.split recv_pc.split option.split prod.split send_result.split)

lemma winding_accepted: "winding e \<Longrightarrow> wi_accepted (wired_step C N e w) = wi_accepted w"
  by (cases e) (simp_all add: client_frame forward_accepted del: wired_step.simps(5))

lemma forward_ends:
  assumes laws: "channel_laws C view cap" and ok: "wired_ok w" and rx: "cv_rx (view (wi_chan w))"
    and fin: "wi_pc w = Ended \<longrightarrow> queue (rt_cell (wi_task w)) = []"
    and ended: "wi_pc (wired_forward C N now w) = Ended"
  shows "queue (rt_cell (wi_task (wired_forward C N now w))) = []"
proof (cases "wi_pc w")
  case Receiving
  let ?t = "recv_step N (wi_task w)"
  have pre: "rt_pc (wi_task w) \<noteq> GivenUp" "rt_pc (wi_task w) = Draining \<longrightarrow> sub_closed (rt_cell (wi_task w))"
    "\<forall>r. rt_pc (wi_task w) \<noteq> Done r"
    using ok Receiving by (simp_all add: wired_ok_def)
  have "rt_pc ?t = Done None"
    using ended Receiving by (cases "rt_pc ?t") (auto simp: wired_forward_def Let_def split: option.splits)
  then have "queue (rt_cell ?t) = []" using recv_step_ok [OF pre(1,2), of N] pre(3) by simp
  then show ?thesis by (simp add: wired_forward_task Receiving)
next
  case (Sending m)
  have "fst (ch_send C m (wi_chan w)) \<noteq> Gone" using channel_lawsD(1) [OF laws] rx by simp
  with Sending ended show ?thesis
    by (cases "ch_send C m (wi_chan w)") (auto simp: wired_forward_def split: send_result.splits)
next
  case Ended
  with fin show ?thesis by (simp add: wired_forward_def)
qed

lemma drain_inv_step:
  assumes laws: "channel_laws C view cap" "notify_laws N nview" and inv: "drain_inv view nview cap w"
    and e: "winding e"
  shows "drain_inv view nview cap (wired_step C N e w)"
proof -
  have ok: "wired_inv view nview cap w" "wakes_inv nview (wi_task w)"
    "wi_pc w = Ended \<longrightarrow> queue (rt_cell (wi_task w)) = []"
    using inv by (simp_all add: drain_inv_def)
  have wired: "wired_inv view nview cap (wired_step C N e w)" by (rule wired_inv_step [OF laws ok(1)])
  have wakes: "wakes_inv nview (wi_task (wired_step C N e w))"
    using wired_task [of C N e w] wakes_inv_woken [OF laws(2) ok(2)] ok(2) by metis
  have "wi_pc (wired_step C N e w) = Ended \<longrightarrow> queue (rt_cell (wi_task (wired_step C N e w))) = []"
  proof (cases e)
    case (WForward now)
    show ?thesis unfolding WForward wired_step.simps
      using forward_ends [OF laws(1) _ _ ok(3)] ok(1) by (simp add: wired_inv_def)
  next
    case WClientRecv
    show ?thesis unfolding WClientRecv client_frame by (rule ok(3))
  next
    case WNotify
    with ok(3) show ?thesis by simp
  qed (use e in simp_all)
  with wired wakes show ?thesis by (simp add: drain_inv_def)
qed

lemma drain_inv_run:
  fixes w :: "('c, 'n, 'ts) wired"
  assumes "channel_laws C view cap" and "notify_laws N nview" and "drain_inv view nview cap w"
    and "list_all winding es"
  shows "drain_inv view nview cap (wired_run C N es w)" and "wi_accepted (wired_run C N es w) = wi_accepted w"
proof -
  have each: "winding e" if "e \<in> set es" for e using that assms(4) by (simp add: list_all_iff)
  show "drain_inv view nview cap (wired_run C N es w)"
    by (rule wired_run_invariant [where P = "drain_inv view nview cap", OF _ assms(3)])
      (rule drain_inv_step [OF assms(1,2) _ each])
  show "wi_accepted (wired_run C N es w) = wi_accepted w"
    by (rule wired_run_invariant [where P = "\<lambda>v. wi_accepted v = wi_accepted w"])
      (simp_all add: winding_accepted each del: wired_step.simps)
qed

text \<open>How many calls of \<open>close\<close> have still to notify.\<close>

lemma recv_step_frame [simp]:
  "rt_closers (recv_step N t) = rt_closers t"
  "sub_closed (rt_cell (recv_step N t)) = sub_closed (rt_cell t)"
  "policy (rt_cell (recv_step N t)) = policy (rt_cell t)"
  by (auto simp: recv_step_def sub_pop_def split: recv_pc.split prod.split option.split list.splits)

lemma forward_frame:
  "rt_closers (wi_task (wired_forward C N now w)) = rt_closers (wi_task w)"
  "sub_closed (rt_cell (wi_task (wired_forward C N now w))) = sub_closed (rt_cell (wi_task w))"
  "policy (rt_cell (wi_task (wired_forward C N now w))) = policy (rt_cell (wi_task w))"
  by (simp_all add: wired_forward_task split: fw_pc.split)

lemma winding_closers:
  assumes "winding e" and "e \<noteq> WNotify"
  shows "rt_closers (wi_task (wired_step C N e w)) = rt_closers (wi_task w)"
  using assms by (cases e) (simp_all add: forward_frame client_frame del: wired_step.simps(5))

lemma winding_closers_run:
  fixes w :: "('c, 'n, 'ts) wired"
  assumes "list_all winding es" and "WNotify \<notin> set es"
  shows "rt_closers (wi_task (wired_run C N es w)) = rt_closers (wi_task w)"
proof (rule wired_run_invariant [where P = "\<lambda>v. rt_closers (wi_task v) = rt_closers (wi_task w)"])
  fix e and v :: "('c, 'n, 'ts) wired"
  assume "e \<in> set es" and v: "rt_closers (wi_task v) = rt_closers (wi_task w)"
  with assms have "winding e" "e \<noteq> WNotify" by (auto simp: list_all_iff)
  from winding_closers [OF this, of C N v] v
  show "rt_closers (wi_task (wired_step C N e v)) = rt_closers (wi_task w)" by simp
qed simp

section \<open>The work that is left\<close>

fun recv_work :: "recv_pc \<Rightarrow> nat" where
  "recv_work Asleep = 5" | "recv_work Popping = 4" | "recv_work Checking = 3" | "recv_work Draining = 2"
| "recv_work _ = 0"

definition wired_work :: "('c \<Rightarrow> 'ts message channel_view) \<Rightarrow> ('c, 'n, 'ts) wired \<Rightarrow> nat" where
  "wired_work view w = 6 * length (queue (rt_cell (wi_task w))) + length (cv_msgs (view (wi_chan w))) +
     (case wi_pc w of Receiving \<Rightarrow> recv_work (rt_pc (wi_task w)) | Sending m \<Rightarrow> 6 | Ended \<Rightarrow> 0)"

text \<open>Every step of the call brings it nearer to its return: the close has woken it.\<close>

lemma recv_step_works:
  assumes laws: "notify_laws N nview" and inv: "wakes_inv nview t" and closers: "rt_closers t = 0"
    and pc: "\<forall>r. rt_pc t \<noteq> Done r" "rt_pc t \<noteq> GivenUp"
  shows "case rt_pc (recv_step N t) of
      Done r \<Rightarrow> (case r of Some f \<Rightarrow> 6 | None \<Rightarrow> 0) + 6 * length (queue (rt_cell (recv_step N t)))
        < recv_work (rt_pc t) + 6 * length (queue (rt_cell t))
    | q \<Rightarrow> rt_cell (recv_step N t) = rt_cell t \<and> recv_work q < recv_work (rt_pc t)"
proof (cases "rt_pc t")
  case Asleep
  obtain p v where n: "nview (rt_notify t) = (p, v)" by (cases "nview (rt_notify t)")
  have "v = Woken" using inv closers Asleep n by (cases v) (auto simp: wakes_inv_def wake_inv_def)
  then show ?thesis using notify_lawsD(5) [OF laws n] Asleep
    by (cases "tn_poll N (rt_notify t)") (simp add: recv_step_def)
next
  case Waiting
  with inv show ?thesis by (simp add: wakes_inv_def)
next
  case Checking
  with inv show ?thesis by (simp add: wakes_inv_def recv_step_def)
qed (use pc in \<open>simp_all add: recv_step_def sub_pop_def split: list.split\<close>)

lemma forward_works:
  assumes laws: "channel_laws C view cap" "notify_laws N nview" and inv: "drain_inv view nview cap w"
    and closers: "rt_closers (wi_task w) = 0"
    and busy: "wi_pc w \<noteq> Ended" "\<not> ((\<exists>m. wi_pc w = Sending m) \<and> length (cv_msgs (view (wi_chan w))) \<ge> cap)"
  shows "wired_work view (wired_forward C N now w) < wired_work view w"
proof (cases "wi_pc w")
  case Receiving
  let ?t = "recv_step N (wi_task w)"
  have pc: "\<forall>r. rt_pc (wi_task w) \<noteq> Done r" "rt_pc (wi_task w) \<noteq> GivenUp" "wakes_inv nview (wi_task w)"
    using inv Receiving by (simp_all add: drain_inv_def wired_inv_def wired_ok_def)
  note step = recv_step_works [OF laws(2) pc(3) closers pc(1,2)]
  show ?thesis
  proof (cases "rt_pc ?t")
    case (Done r)
    with step Receiving channel_lawsD(5) [OF laws(1)] show ?thesis
      by (cases r) (simp_all add: wired_work_def wired_forward_def Let_def)
  qed (use step Receiving in \<open>simp_all add: wired_work_def wired_forward_def Let_def\<close>)
next
  case (Sending m)
  then obtain r where r: "rt_pc (wi_task w) = Done r"
    using inv by (auto simp: drain_inv_def wired_inv_def wired_ok_def)
  have rx: "cv_rx (view (wi_chan w))" "length (cv_msgs (view (wi_chan w))) < cap"
    using inv busy(2) Sending by (auto simp: drain_inv_def wired_inv_def)
  then have "fst (ch_send C m (wi_chan w)) = Sent" using channel_lawsD(1) [OF laws(1)] by simp
  moreover from this have "view (snd (ch_send C m (wi_chan w))) =
      (view (wi_chan w))\<lparr>cv_msgs := cv_msgs (view (wi_chan w)) @ [m]\<rparr>"
    using channel_lawsD(2) [OF laws(1), of m "wi_chan w"] by simp
  ultimately show ?thesis using Sending r
    by (cases "ch_send C m (wi_chan w)") (simp add: wired_work_def wired_forward_def woken_next)
qed (use busy in simp)

lemma forward_rests:
  assumes laws: "channel_laws C view cap" and rx: "cv_rx (view (wi_chan w))"
    and rest: "wi_pc w = Ended \<or> (\<exists>m. wi_pc w = Sending m) \<and> length (cv_msgs (view (wi_chan w))) \<ge> cap"
  shows "wired_work view (wired_forward C N now w) = wired_work view w"
    and "view (wi_chan (wired_forward C N now w)) = view (wi_chan w)"
proof -
  have "wired_work view (wired_forward C N now w) = wired_work view w \<and>
      view (wi_chan (wired_forward C N now w)) = view (wi_chan w)"
  proof (cases "wi_pc w")
    case (Sending m)
    then have "fst (ch_send C m (wi_chan w)) = Full" using rest rx channel_lawsD(1) [OF laws] by simp
    moreover from this have "view (snd (ch_send C m (wi_chan w))) = view (wi_chan w)"
      using channel_lawsD(2) [OF laws, of m "wi_chan w"] by simp
    ultimately show ?thesis using Sending
      by (cases "ch_send C m (wi_chan w)") (simp add: wired_work_def wired_forward_def)
  qed (use rest in \<open>simp_all add: wired_work_def wired_forward_def\<close>)
  then show "wired_work view (wired_forward C N now w) = wired_work view w"
    and "view (wi_chan (wired_forward C N now w)) = view (wi_chan w)" by blast+
qed

lemma client_works:
  assumes "channel_laws C view cap"
  shows "wired_work view (wired_step C N WClientRecv w) = wired_work view w - (if cv_msgs (view (wi_chan w)) = [] then 0 else 1)"
proof -
  have "view (wi_chan (wired_step C N WClientRecv w)) = (view (wi_chan w))\<lparr>cv_msgs := tl (cv_msgs (view (wi_chan w)))\<rparr>"
    using channel_lawsD(4) [OF assms, of "wi_chan w"]
    by (auto split: prod.split poll.split option.split)
  then show ?thesis unfolding wired_work_def client_frame by (cases "cv_msgs (view (wi_chan w))") simp_all
qed

text \<open>A round, in which the task and the client make a step each.\<close>

lemma round_works:
  assumes laws: "channel_laws C view cap" "notify_laws N nview" and cap: "0 < cap"
    and inv: "drain_inv view nview cap w" and closers: "rt_closers (wi_task w) = 0"
    and todo: "wired_work view w \<noteq> 0"
  shows "wired_work view (wired_run C N [WForward now, WClientRecv] w) < wired_work view w"
proof -
  let ?v = "wired_forward C N now w"
  have run: "wired_run C N [WForward now, WClientRecv] w = wired_step C N WClientRecv ?v" by simp
  have rx: "cv_rx (view (wi_chan w))" using inv by (simp add: drain_inv_def wired_inv_def)
  show ?thesis
  proof (cases "wi_pc w = Ended \<or> (\<exists>m. wi_pc w = Sending m) \<and> length (cv_msgs (view (wi_chan w))) \<ge> cap")
    case True
    note rest = forward_rests [OF laws(1) rx True, of N now]
    have "cv_msgs (view (wi_chan w)) \<noteq> []"
    proof
      assume empty: "cv_msgs (view (wi_chan w)) = []"
      with True cap have "wi_pc w = Ended" by auto
      with inv empty todo show False by (simp add: drain_inv_def wired_work_def)
    qed
    then show ?thesis unfolding run client_works [OF laws(1)] rest using todo by simp
  next
    case False
    with forward_works [OF laws inv closers, of now]
    show ?thesis unfolding run client_works [OF laws(1)] by auto
  qed
qed

definition rounds :: "'ts \<times> 'ts \<Rightarrow> nat \<Rightarrow> 'ts wired_event list" where
  "rounds now k = concat (replicate k [WForward now, WClientRecv])"

lemma rounds_Suc: "rounds now (Suc k) = [WForward now, WClientRecv] @ rounds now k"
  by (simp add: rounds_def)

lemma rounds_drain:
  assumes laws: "channel_laws C view cap" "notify_laws N nview" and cap: "0 < cap"
    and inv: "drain_inv view nview cap w" and closers: "rt_closers (wi_task w) = 0"
    and k: "wired_work view w \<le> k"
  shows "drain_inv view nview cap (wired_run C N (rounds now k) w) \<and>
    wired_work view (wired_run C N (rounds now k) w) = 0 \<and>
    wi_accepted (wired_run C N (rounds now k) w) = wi_accepted w"
  using inv closers k
proof (induction k arbitrary: w)
  case 0
  then show ?case by (simp add: rounds_def)
next
  case (Suc k)
  let ?r = "[WForward now, WClientRecv]"
  let ?v = "wired_run C N ?r w"
  have wind: "list_all winding ?r" "WNotify \<notin> set ?r" by simp_all
  note v = drain_inv_run [OF laws Suc.prems(1) wind(1)] and c = winding_closers_run [OF wind, of C N w]
  have "wired_work view ?v \<le> k"
  proof (cases "wired_work view w = 0")
    case False
    with round_works [OF laws cap Suc.prems(1,2), of now] Suc.prems(3) show ?thesis by simp
  next
    case True
    have "wired_work view (wired_forward C N now w) = 0"
    proof (cases "wi_pc w")
      case Ended
      then show ?thesis using True by (simp add: wired_forward_def)
    next
      case Receiving
      have "rt_pc (wi_task w) \<noteq> Waiting" "\<forall>r. rt_pc (wi_task w) \<noteq> Done r" "rt_pc (wi_task w) \<noteq> GivenUp"
        using Suc.prems(1) Receiving by (auto simp: drain_inv_def wired_inv_def wired_ok_def wakes_inv_def)
      then show ?thesis using True Receiving
        by (cases "rt_pc (wi_task w)") (auto simp: wired_work_def)
    qed (use True in \<open>simp add: wired_work_def\<close>)
    then have "wired_work view ?v = 0" using client_works [OF laws(1), of N "wired_forward C N now w"] by simp
    then show ?thesis by simp
  qed
  from Suc.IH [OF v(1) _ this] v(2) c Suc.prems(2) show ?case
    unfolding rounds_Suc wired_run_append by simp
qed

section \<open>Closing\<close>

lemma wired_policy: "policy (rt_cell (wi_task (wired_step C N e w))) = policy (rt_cell (wi_task w))"
  by (cases e) (simp_all add: forward_frame client_frame del: wired_step.simps(5))

lemma wired_policy_run: "policy (rt_cell (wi_task (wired_run C N es w))) = policy (rt_cell (wi_task w))"
  by (rule wired_run_invariant) (simp_all add: wired_policy del: wired_step.simps)

text \<open>While the flag is clear the task has not ended and no close has to notify.\<close>

lemma open_step:
  assumes "e \<noteq> WFlag"
  shows "sub_closed (rt_cell (wi_task (wired_step C N e w))) = sub_closed (rt_cell (wi_task w)) \<and>
    (rt_closers (wi_task w) = 0 \<longrightarrow> rt_closers (wi_task (wired_step C N e w)) = 0)"
  using assms by (cases e) (simp_all add: forward_frame client_frame del: wired_step.simps(5))

lemma open_run:
  fixes w :: "('c, 'n, 'ts) wired"
  assumes "WFlag \<notin> set es" and "\<not> sub_closed (rt_cell (wi_task w))" and "rt_closers (wi_task w) = 0"
  shows "\<not> sub_closed (rt_cell (wi_task (wired_run C N es w))) \<and> rt_closers (wi_task (wired_run C N es w)) = 0"
proof (rule wired_run_invariant [where P = "\<lambda>v. \<not> sub_closed (rt_cell (wi_task v)) \<and> rt_closers (wi_task v) = 0"])
  fix e and v :: "('c, 'n, 'ts) wired"
  assume "e \<in> set es" and v: "\<not> sub_closed (rt_cell (wi_task v)) \<and> rt_closers (wi_task v) = 0"
  then have "e \<noteq> WFlag" using assms(1) by blast
  from open_step [OF this, of C N v] v
  show "\<not> sub_closed (rt_cell (wi_task (wired_step C N e v))) \<and> rt_closers (wi_task (wired_step C N e v)) = 0"
    by simp
qed (use assms in simp)

lemma flag_drains:
  assumes laws: "channel_laws C view cap" "notify_laws N nview" and inv: "wired_inv view nview cap w"
    and clear: "\<not> sub_closed (rt_cell (wi_task w))" and window: "rt_pc (wi_task w) \<noteq> Waiting"
  shows "drain_inv view nview cap (wired_step C N WFlag w)"
proof -
  have "wired_inv view nview cap (wired_step C N WFlag w)" by (rule wired_inv_step [OF laws inv])
  moreover have "wi_pc w \<noteq> Ended" "wake_inv nview (wi_task w)" using inv clear by (auto simp: wired_inv_def)
  ultimately show ?thesis using window by (simp add: drain_inv_def wakes_inv_def wake_inv_def)
qed

text \<open>
  C30: Closing drains the adapter.  Whatever bus, task and client have done: when \<open>close\<close> sets
  the flag while the forwarding task is not between its reading of the flag and its creation
  of the notification future, and any steps of task and client come before the notification,
  then rounds of one step of the task and one of the client bring the client every frame the
  queue accepted (those not evicted under \<open>DropOldest\<close>), numbered without a gap, then the end
  of the stream, and the task has ended.  The task is never polled unless it has been woken.
\<close>

theorem adapter_drains:
  fixes c :: 'c and C :: "('c, 'ts message) mpsc"
  assumes "channel_laws C view cap" and "notify_laws N nview" and "0 < cap"
    and "view c = empty_channel" and "snd (nview n) = NoWaiter"
    and "sub_ok cell" and "queue cell = []" and "\<not> sub_closed cell"
    and "WFlag \<notin> set es" and "x = wired_run C N es (wired_new cell n c)"
    and "rt_pc (wi_task x) \<noteq> Waiting"
    and "list_all winding es'" and "WNotify \<notin> set es'" and "y = wired_run C N ([WFlag] @ es' @ [WNotify]) x"
  shows "\<exists>k fs. wi_received (wired_run C N (rounds now k) y) = numbered 0 fs \<and>
    subseq (map snd fs) (wi_accepted x) \<and> (policy cell \<noteq> DropOldest \<longrightarrow> map snd fs = wi_accepted x) \<and>
    fst (ch_recv C (wi_chan (wired_run C N (rounds now k) y))) = Ready None \<and>
    wi_pc (wired_run C N (rounds now k) y) = Ended"
proof -
  have x: "wired_inv view nview cap x"
    unfolding assms(10) by (rule wired_inv_run [OF assms(1,2) wired_inv_new [where view = view and c = c and nview = nview, OF assms(6,7,4,5)]])
  have new: "\<not> sub_closed (rt_cell (wi_task (wired_new cell n c)))" "rt_closers (wi_task (wired_new cell n c)) = 0"
    using assms(8) by (simp_all add: wired_new_def recv_task_new_def)
  have clear: "\<not> sub_closed (rt_cell (wi_task x))" "rt_closers (wi_task x) = 0"
    using open_run [OF assms(9) new] unfolding assms(10) by blast+
  let ?f = "wired_step C N WFlag x"
  have f: "drain_inv view nview cap ?f" "rt_closers (wi_task ?f) = 1" "wi_accepted ?f = wi_accepted x"
    using flag_drains [OF assms(1,2) x clear(1) assms(11)] clear(2) by simp_all
  have y: "y = wired_run C N (es' @ [WNotify]) ?f" using assms(14) by simp
  have "list_all winding (es' @ [WNotify])" using assms(12) by simp
  note drain = drain_inv_run [OF assms(1,2) f(1) this, folded y]
  have "rt_closers (wi_task y) = 0"
    using winding_closers_run [OF assms(12,13), of C N ?f] f(2) unfolding y wired_run_append by simp
  from rounds_drain [OF assms(1,2,3) drain(1) this order_refl, of now]
  obtain k where z: "drain_inv view nview cap (wired_run C N (rounds now k) y)"
    "wired_work view (wired_run C N (rounds now k) y) = 0"
    "wi_accepted (wired_run C N (rounds now k) y) = wi_accepted x"
    using drain(2) f(3) by auto
  let ?z = "wired_run C N (rounds now k) y"
  have inv: "wired_inv view nview cap ?z" "wakes_inv nview (wi_task ?z)" using z(1) by (simp_all add: drain_inv_def)
  have empty: "queue (rt_cell (wi_task ?z)) = []" "cv_msgs (view (wi_chan ?z)) = []" "wi_pc ?z = Ended"
    using z(2) inv
    by (auto simp: wired_work_def wired_inv_def wired_ok_def wakes_inv_def split: fw_pc.splits
        elim: recv_work.elims)
  obtain fs where "flow view (pipe_of ?z) fs" using inv(1) by (auto simp: wired_inv_def pipe_inv_def)
  moreover have "policy (rt_cell (wi_task ?z)) = policy cell"
    unfolding assms(10,14) wired_policy_run by (simp add: wired_new_def recv_task_new_def)
  moreover have "fst (ch_recv C (wi_chan ?z)) = Ready None"
    using inv(1) empty channel_lawsD(3) [OF assms(1), of "wi_chan ?z"] by (simp add: wired_inv_def pipe_inv_def)
  ultimately show ?thesis using empty z(3)
    by (intro exI [of _ k] exI [of _ fs]) (simp add: flow_def)
qed

text \<open>A task asleep on the empty queue, one frame pushed, and the bus closed before it has woken.\<close>

definition demo_wired :: "(nat message channel_view, bool \<times> waiter, nat) wired" where
  "demo_wired = wired_run (list_channel 1) demo_notify
     [WForward (5, 5), WForward (5, 5), WForward (5, 5), WPush 0 (demo_frame 1)]
     (wired_new (sub_inner_new 1 DropNewest 0 0) (False, NoWaiter) empty_channel)"

lemma demo_wired_state: "rt_pc (wi_task demo_wired) = Asleep" "wi_accepted demo_wired = [demo_frame 1]"
  by (simp_all add: demo_wired_def wired_new_def recv_task_new_def wired_forward_def recv_step_def sub_pop_def
      woken_def demo_notify_def cell_eval)

theorem adapter_drains_witness:
  "\<exists>k fs. wi_received (wired_run (list_channel 1) demo_notify (rounds (7, 7) k)
       (wired_run (list_channel 1) demo_notify [WFlag, WForward (6, 6), WNotify] demo_wired)) = numbered 0 fs \<and>
     map snd fs = [demo_frame 1]"
proof -
  let ?cell = "sub_inner_new 1 DropNewest 0 0"
  have cell: "sub_ok ?cell" "queue ?cell = []" "\<not> sub_closed ?cell" "policy ?cell \<noteq> DropOldest"
    by (simp_all add: sub_ok_new) (simp_all add: sub_inner_new_def)
  have awake: "rt_pc (wi_task demo_wired) \<noteq> Waiting" using demo_wired_state(1) by simp
  have prem: "(0 :: nat) < 1" "id empty_channel = (empty_channel :: nat message channel_view)"
    "snd (id (False, NoWaiter)) = NoWaiter"
    "WFlag \<notin> set [WForward (5, 5), WForward (5, 5), WForward (5, 5), WPush 0 (demo_frame 1) :: nat wired_event]"
    "list_all winding [WForward (6, 6) :: nat wired_event]" "WNotify \<notin> set [WForward (6, 6) :: nat wired_event]"
    by simp_all
  from adapter_drains [where now = "(7, 7)", OF list_channel_laws demo_notify_laws prem(1-3) cell(1-3)
      prem(4) demo_wired_def awake prem(5,6) refl]
  obtain k fs where
    "wi_received (wired_run (list_channel 1) demo_notify (rounds (7, 7) k)
       (wired_run (list_channel 1) demo_notify ([WFlag] @ [WForward (6, 6)] @ [WNotify]) demo_wired)) = numbered 0 fs"
    "map snd fs = wi_accepted demo_wired"
    using cell(4) by blast
  then show ?thesis unfolding demo_wired_state(2) append.simps by (intro exI conjI)
qed

section \<open>In the window\<close>

text \<open>The task sleeps, nobody will wake it, and the client waits.\<close>

definition stuck :: "('c \<Rightarrow> 'ts message channel_view) \<Rightarrow> ('n \<Rightarrow> bool \<times> waiter) \<Rightarrow> ('c, 'n, 'ts) wired \<Rightarrow> bool" where
  "stuck view nview w \<longleftrightarrow> wi_pc w = Receiving \<and> lost nview (wi_task w) \<and>
     cv_msgs (view (wi_chan w)) = [] \<and> cv_tx (view (wi_chan w))"

lemma stuck_step:
  assumes laws: "channel_laws C view cap" "notify_laws N nview" and w: "stuck view nview w" and e: "winding e"
  shows "stuck view nview (wired_step C N e w)"
proof (cases e)
  case (WForward now)
  have "lost nview (recv_step N (wi_task w))"
    using lost_step [OF laws(2), of Receiver "wi_task w"] w by (simp add: stuck_def)
  then show ?thesis
    using w by (simp add: WForward stuck_def lost_def wired_forward_def Let_def)
next
  case WClientRecv
  have "view (wi_chan (wired_step C N WClientRecv w)) = view (wi_chan w)"
    using channel_lawsD(4) [OF laws(1), of "wi_chan w"] w
    by (auto simp: stuck_def split: prod.split poll.split option.split)
  then show ?thesis using w unfolding WClientRecv stuck_def client_frame by simp
next
  case WNotify
  have "woken N WaitersNotified (wi_task w) = wi_task w" using w by (simp add: stuck_def lost_def woken_def)
  then show ?thesis using w by (simp add: WNotify stuck_def)
qed (use e in simp_all)

text \<open>
  In that window the close is lost on the adapter: the task finds the queue empty and the flag
  clear, the bus is closed, flag and notification, and then the task goes to sleep.  From
  there no run of the task and the client ends the task or the client's stream.
\<close>

theorem adapter_close_lost:
  fixes c :: 'c and C :: "('c, 'ts message) mpsc"
  assumes "channel_laws C view cap" and "notify_laws N nview"
    and "view c = empty_channel" and "nview n = (False, NoWaiter)"
    and "x = wired_run C N [WForward now, WForward now, WFlag, WNotify, WForward now]
      (wired_new (sub_inner_new depth pol limit start) n c)"
  shows "sub_closed (rt_cell (wi_task x)) \<and>
    \<not> (\<exists>es. list_all winding es \<and> (wi_pc (wired_run C N es x) = Ended \<or>
        fst (ch_recv C (wi_chan (wired_run C N es x))) = Ready None))"
proof -
  let ?m = "tn_notify_waiters N n"
  have m: "nview ?m = (False, NoWaiter)" using notify_lawsD(2) [OF assms(2,4)] by simp
  have woke: "fst (tn_notified N ?m) = False" "nview (snd (tn_notified N ?m)) = (False, Sleeping)"
    using notify_lawsD(3,4) [OF assms(2) m] by simp_all
  have x: "stuck view nview x \<and> sub_closed (rt_cell (wi_task x))"
    unfolding assms(5) using woke assms(3)
    by (cases "tn_notified N ?m")
      (simp add: stuck_def lost_def wired_new_def recv_task_new_def wired_forward_def recv_step_def sub_pop_def
        sub_inner_new_def woken_def)
  have "stuck view nview (wired_run C N es x)" if "list_all winding es" for es
  proof (rule wired_run_invariant [where P = "stuck view nview"])
    fix e and w :: "('c, 'a, 'ts) wired"
    assume "e \<in> set es" and w: "stuck view nview w"
    then have "winding e" using that by (simp add: list_all_iff)
    then show "stuck view nview (wired_step C N e w)" by (rule stuck_step [OF assms(1,2) w])
  qed (use x in simp)
  then have "wi_pc (wired_run C N es x) \<noteq> Ended \<and> fst (ch_recv C (wi_chan (wired_run C N es x))) \<noteq> Ready None"
    if "list_all winding es" for es
    using that channel_lawsD(3) [OF assms(1), of "wi_chan (wired_run C N es x)"] by (simp add: stuck_def)
  then show ?thesis using x by blast
qed

end
