(* ===== verification/Ldf_Text.thy ===== *)
theory Ldf_Text
  imports Rust_Text
begin

text \<open>
  The string operations of the standard library that the LDF parser
  (\<open>src/ldf/mod.rs\<close>) uses, on the UTF-8 bytes of a Rust string: trimming by Unicode white
  space, splitting, searching, and the parsing of floating-point numbers with
  round-to-nearest-even.  Valid UTF-8 never has the encoding of one character inside
  another's, so matching byte sequences is matching characters.
\<close>

section \<open>White space\<close>

definition byte_of :: "char \<Rightarrow> nat" where
  "byte_of c = of_char c"

text \<open>
  The length of the white-space character the string starts with, or 0: \<open>U+0009\<close> to
  \<open>U+000D\<close>, \<open>U+0020\<close>, \<open>U+0085\<close>, \<open>U+00A0\<close>, \<open>U+1680\<close>, \<open>U+2000\<close> to \<open>U+200A\<close>, \<open>U+2028\<close>,
  \<open>U+2029\<close>, \<open>U+202F\<close>, \<open>U+205F\<close>, \<open>U+3000\<close>.
\<close>

fun ws_bytes :: "nat list \<Rightarrow> bool" where
  "ws_bytes [a] \<longleftrightarrow> 9 \<le> a \<and> a \<le> 13 \<or> a = 32"
| "ws_bytes [a, b] \<longleftrightarrow> a = 0xC2 \<and> (b = 0x85 \<or> b = 0xA0)"
| "ws_bytes [a, b, c] \<longleftrightarrow>
     a = 0xE1 \<and> b = 0x9A \<and> c = 0x80 \<or>
     a = 0xE2 \<and> b = 0x80 \<and> (0x80 \<le> c \<and> c \<le> 0x8A \<or> c = 0xA8 \<or> c = 0xA9 \<or> c = 0xAF) \<or>
     a = 0xE2 \<and> b = 0x81 \<and> c = 0x9F \<or>
     a = 0xE3 \<and> b = 0x80 \<and> c = 0x80"
| "ws_bytes _ \<longleftrightarrow> False"

definition ws_length :: "string \<Rightarrow> nat" where
  "ws_length s =
     (if ws_bytes (map byte_of (take 1 s)) then 1
      else if ws_bytes (map byte_of (take 2 s)) then 2
      else if ws_bytes (map byte_of (take 3 s)) then 3 else 0)"

text \<open>The same at the end, for the reversed string.\<close>

definition ws_length_rev :: "string \<Rightarrow> nat" where
  "ws_length_rev r =
     (if ws_bytes (map byte_of (take 1 r)) then 1
      else if ws_bytes (map byte_of (rev (take 2 r))) then 2
      else if ws_bytes (map byte_of (rev (take 3 r))) then 3 else 0)"

lemma ws_shorter: "0 < ws_length s \<Longrightarrow> length s - ws_length s < length s"
  by (cases s) (auto simp: ws_length_def split: if_splits)

lemma ws_shorter_rev: "0 < ws_length_rev r \<Longrightarrow> length r - ws_length_rev r < length r"
  by (cases r) (auto simp: ws_length_rev_def split: if_splits)

function trim_start :: "string \<Rightarrow> string" where
  "trim_start s = (if ws_length s = 0 then s else trim_start (drop (ws_length s) s))"
  by auto
termination
  by (relation "measure length") (auto simp: ws_shorter)

function trim_start_rev :: "string \<Rightarrow> string" where
  "trim_start_rev r = (if ws_length_rev r = 0 then r else trim_start_rev (drop (ws_length_rev r) r))"
  by auto
termination
  by (relation "measure length") (auto simp: ws_shorter_rev)

declare trim_start.simps [simp del] trim_start_rev.simps [simp del]

definition trim_end :: "string \<Rightarrow> string" where
  "trim_end s = rev (trim_start_rev (rev s))"

definition trim :: "string \<Rightarrow> string" where
  "trim s = trim_end (trim_start s)"

text \<open>\<open>split_whitespace\<close>: the non-empty pieces; \<open>acc\<close> is the piece being read, reversed.\<close>

function split_ws :: "string \<Rightarrow> string \<Rightarrow> string list" where
  "split_ws acc s =
     (if ws_length s \<noteq> 0 then
        (if acc = [] then split_ws [] (drop (ws_length s) s)
         else rev acc # split_ws [] (drop (ws_length s) s))
      else (case s of [] \<Rightarrow> (if acc = [] then [] else [rev acc])
            | c # cs \<Rightarrow> split_ws (c # acc) cs))"
  by auto
termination
  by (relation "measure (\<lambda>(acc, s). length s)") (auto simp: ws_shorter)

declare split_ws.simps [simp del]

definition split_whitespace :: "string \<Rightarrow> string list" where
  "split_whitespace s = split_ws [] s"

section \<open>Searching and splitting\<close>

definition starts_with :: "string \<Rightarrow> string \<Rightarrow> bool" where
  "starts_with p s \<longleftrightarrow> take (length p) s = p"

definition ends_with_char :: "char \<Rightarrow> string \<Rightarrow> bool" where
  "ends_with_char c s \<longleftrightarrow> s \<noteq> [] \<and> last s = c"

text \<open>\<open>find(c)\<close> and \<open>find("//")\<close>: the index of the first occurrence.\<close>

fun find_char :: "char \<Rightarrow> string \<Rightarrow> nat option" where
  "find_char c [] = None"
| "find_char c (x # xs) = (if x = c then Some 0 else map_option Suc (find_char c xs))"

fun find_sub :: "string \<Rightarrow> string \<Rightarrow> nat option" where
  "find_sub p s =
     (if starts_with p s then Some 0
      else (case s of [] \<Rightarrow> None | x # xs \<Rightarrow> map_option Suc (find_sub p xs)))"

declare find_sub.simps [simp del]

definition trim_end_matches :: "char \<Rightarrow> string \<Rightarrow> string" where
  "trim_end_matches c s = rev (dropWhile (\<lambda>x. x = c) (rev s))"

text \<open>\<open>trim_start_matches\<close> removes a non-empty prefix as often as it occurs.\<close>

function trim_start_matches :: "string \<Rightarrow> string \<Rightarrow> string" where
  "trim_start_matches p s =
     (if p \<noteq> [] \<and> starts_with p s then trim_start_matches p (drop (length p) s) else s)"
  by auto
termination
proof (relation "measure (\<lambda>(p, s). length s)")
  fix p s :: string
  assume "p \<noteq> [] \<and> starts_with p s"
  then have "0 < length p" "length p \<le> length s"
    unfolding starts_with_def by (auto, metis length_take min.bounded_iff order_refl)
  then have "length s - length p < length s" by linarith
  then show "((p, drop (length p) s), (p, s)) \<in> measure (\<lambda>(p, s). length s)" by simp
qed simp

declare trim_start_matches.simps [simp del]

text \<open>\<open>split(c)\<close> and \<open>splitn(n, c)\<close>; at least one piece.\<close>

fun split_char :: "char \<Rightarrow> string \<Rightarrow> string list" where
  "split_char c [] = [[]]"
| "split_char c (x # xs) =
     (if x = c then [] # split_char c xs
      else (case split_char c xs of [] \<Rightarrow> [[x]] | p # ps \<Rightarrow> (x # p) # ps))"

fun splitn_char :: "nat \<Rightarrow> char \<Rightarrow> string \<Rightarrow> string list" where
  "splitn_char 0 c s = []"
| "splitn_char (Suc 0) c s = [s]"
| "splitn_char (Suc (Suc n)) c s =
     (case find_char c s of None \<Rightarrow> [s]
      | Some i \<Rightarrow> take i s # splitn_char (Suc n) c (drop (Suc i) s))"

definition ascii_lower :: "char \<Rightarrow> char" where
  "ascii_lower c = (if 65 \<le> byte_of c \<and> byte_of c \<le> 90 then char_of (byte_of c + 32) else c)"

definition eq_ignore_ascii_case :: "string \<Rightarrow> string \<Rightarrow> bool" where
  "eq_ignore_ascii_case s t \<longleftrightarrow> map ascii_lower s = map ascii_lower t"

section \<open>Floating-point numbers\<close>

text \<open>
  An IEEE double: \<open>Fin neg m e\<close> is \<open>m * 2 ^ e\<close> with the sign.  \<open>round_f64\<close> rounds a
  fraction to the nearest, ties to even, with 53 significant bits and the least exponent
  \<open>-1074\<close>.
\<close>

datatype f64 = NaN | Inf bool | Fin bool nat int

fun bit_length :: "nat \<Rightarrow> nat" where
  "bit_length n = (if n = 0 then 0 else Suc (bit_length (n div 2)))"

declare bit_length.simps [simp del]

text \<open>\<open>num / den / 2 ^ e\<close> as a fraction.\<close>

definition scale :: "nat \<Rightarrow> nat \<Rightarrow> int \<Rightarrow> nat \<times> nat" where
  "scale num den e =
     (if 0 \<le> e then (num, den * 2 ^ nat e) else (num * 2 ^ nat (- e), den))"

definition round_half_even :: "nat \<times> nat \<Rightarrow> nat" where
  "round_half_even q =
     (let n = fst q; d = snd q; f = n div d; r = n mod d
      in if 2 * r < d then f else if d < 2 * r then Suc f else if even f then f else Suc f)"

text \<open>The exponent of the last of 53 bits; the quotient lies in \<open>2 ^ 52 \<dots> 2 ^ 53\<close> there.\<close>

definition ulp_exponent :: "nat \<Rightarrow> nat \<Rightarrow> int" where
  "ulp_exponent num den =
     (let l = int (bit_length num) - int (bit_length den);
          below = (case scale num den l of (n, d) \<Rightarrow> n < d);
          k = (if below then l - 1 else l)
      in max (k - 52) (- 1074))"

definition round_f64 :: "bool \<Rightarrow> nat \<Rightarrow> nat \<Rightarrow> f64" where
  "round_f64 neg num den =
     (if num = 0 then Fin neg 0 0
      else (let e = ulp_exponent num den; m = round_half_even (scale num den e)
            in if 971 < e \<or> e = 971 \<and> 2 ^ 53 \<le> m then Inf neg else Fin neg m e))"

definition is_digit :: "char \<Rightarrow> bool" where
  "is_digit c \<longleftrightarrow> 48 \<le> byte_of c \<and> byte_of c \<le> 57"

definition decimal :: "string \<Rightarrow> nat" where
  "decimal ds = foldl (\<lambda>v c. 10 * v + (byte_of c - 48)) 0 ds"

text \<open>The exponent part: empty, or \<open>e\<close>, an optional sign and digits.\<close>

definition exponent_part :: "string \<Rightarrow> int option" where
  "exponent_part s =
     (case s of [] \<Rightarrow> Some 0
      | c # cs \<Rightarrow>
          if ascii_lower c \<noteq> CHR ''e'' then None
          else (let neg = (case cs of d # _ \<Rightarrow> d = CHR ''-'' | [] \<Rightarrow> False);
                    ds = (case cs of d # ds \<Rightarrow> if d = CHR ''-'' \<or> d = CHR ''+'' then ds else cs
                          | [] \<Rightarrow> [])
                in if ds = [] \<or> \<not> list_all is_digit ds then None
                   else Some (if neg then - int (decimal ds) else int (decimal ds))))"

definition parse_number :: "bool \<Rightarrow> string \<Rightarrow> f64 option" where
  "parse_number neg s =
     (let ip = takeWhile is_digit s; rest = dropWhile is_digit s;
          (fp, rest) = (case rest of c # cs \<Rightarrow>
              if c = CHR ''.'' then (takeWhile is_digit cs, dropWhile is_digit cs) else ([], rest)
            | [] \<Rightarrow> ([], []))
      in if ip = [] \<and> fp = [] then None
         else (case exponent_part rest of None \<Rightarrow> None
               | Some x \<Rightarrow>
                   (let m = decimal (ip @ fp); e = x - int (length fp)
                    in Some (if 0 \<le> e then round_f64 neg (m * 10 ^ nat e) 1
                             else round_f64 neg m (10 ^ nat (- e))))))"

definition parse_f64 :: "string \<Rightarrow> f64 option" where
  "parse_f64 s =
     (let neg = (case s of c # _ \<Rightarrow> c = CHR ''-'' | [] \<Rightarrow> False);
          b = (case s of c # cs \<Rightarrow> if c = CHR ''-'' \<or> c = CHR ''+'' then cs else s | [] \<Rightarrow> [])
      in if eq_ignore_ascii_case b ''inf'' \<or> eq_ignore_ascii_case b ''infinity'' then Some (Inf neg)
         else if eq_ignore_ascii_case b ''nan'' then Some NaN
         else parse_number neg b)"

text \<open>\<open>v as u64\<close>: towards zero, saturating, NaN to 0.\<close>

fun f64_to_u64 :: "f64 \<Rightarrow> nat" where
  "f64_to_u64 NaN = 0"
| "f64_to_u64 (Inf neg) = (if neg then 0 else 2 ^ 64 - 1)"
| "f64_to_u64 (Fin neg m e) =
     (if neg then 0
      else min (2 ^ 64 - 1) (if 0 \<le> e then m * 2 ^ nat e else m div 2 ^ nat (- e)))"

end
