(* ===== verification/Ldf_Parser.thy ===== *)
theory Ldf_Parser
  imports Ldf_Text Lin_Frame
begin

text \<open>
  \<open>src/ldf/mod.rs\<close>: the LDF database, its queries and signal decoding, and the line
  parser.  The parser is a cursor over the trimmed lines; each section is a loop that
  moves the cursor and fills the database.  \<open>frame_id_by_name\<close> iterates over a hash map,
  whose order is unspecified: the order is the parameter \<open>iter\<close>.
\<close>

section \<open>The database\<close>

record signal_ref =
  ref_name :: string
  ref_offset :: usize

record ldf_frame =
  lf_name :: string
  lf_id :: u8
  lf_publisher :: string
  lf_length :: usize
  lf_signals :: "signal_ref list"

record ldf_signal =
  ls_name :: string
  ls_width :: usize
  ls_init :: u64
  ls_publisher :: string
  ls_subscribers :: "string list"

record ldf_db =
  db_protocol_version :: string
  db_language_version :: string
  db_speed_kbps :: f64
  db_master_node :: string
  db_slave_nodes :: "string list"
  db_frames :: "u8 \<rightharpoonup> ldf_frame"
  db_signals :: "string \<rightharpoonup> ldf_signal"
  db_schedules :: "string \<rightharpoonup> schedule_entry list"

definition ldf_db_default :: ldf_db where
  "ldf_db_default =
     \<lparr>db_protocol_version = [], db_language_version = [], db_speed_kbps = Fin False 0 0,
      db_master_node = [], db_slave_nodes = [], db_frames = Map.empty, db_signals = Map.empty,
      db_schedules = Map.empty\<rparr>"

text \<open>The queries; a defensive copy of a map is the map.\<close>

definition ldf_protocol_version :: "ldf_db \<Rightarrow> string" where
  "ldf_protocol_version db = db_protocol_version db"

definition ldf_language_version :: "ldf_db \<Rightarrow> string" where
  "ldf_language_version db = db_language_version db"

definition ldf_speed_kbps :: "ldf_db \<Rightarrow> f64" where
  "ldf_speed_kbps db = db_speed_kbps db"

definition ldf_master_node :: "ldf_db \<Rightarrow> string" where
  "ldf_master_node db = db_master_node db"

definition ldf_slave_nodes :: "ldf_db \<Rightarrow> string list" where
  "ldf_slave_nodes db = db_slave_nodes db"

definition ldf_frames :: "ldf_db \<Rightarrow> u8 \<rightharpoonup> ldf_frame" where
  "ldf_frames db = db_frames db"

definition ldf_signals :: "ldf_db \<Rightarrow> string \<rightharpoonup> ldf_signal" where
  "ldf_signals db = db_signals db"

definition ldf_frame_of :: "ldf_db \<Rightarrow> u8 \<Rightarrow> ldf_frame option" where
  "ldf_frame_of db i = db_frames db i"

definition ldf_signal_of :: "ldf_db \<Rightarrow> string \<Rightarrow> ldf_signal option" where
  "ldf_signal_of db name = db_signals db name"

definition ldf_schedule_of :: "ldf_db \<Rightarrow> string \<Rightarrow> schedule_entry list option" where
  "ldf_schedule_of db name = db_schedules db name"

section \<open>Decoding\<close>

text \<open>
  \<open>None\<close> is a panic: with overflow checks (debug builds) the addition
  \<open>bit_offset + i\<close> panics when it overflows, without them it wraps around.
\<close>

function extract_from :: "bool \<Rightarrow> bytes \<Rightarrow> usize \<Rightarrow> usize \<Rightarrow> nat \<Rightarrow> u64 \<Rightarrow> u64 option" where
  "extract_from checks data off width i val =
     (if \<not> i < unat width then Some val
      else if i \<ge> 64 then Some val
      else if checks \<and> unat off + i \<ge> 2 ^ 64 then None
      else (let byte_idx = unat (off + of_nat i) div 8;
                bit_idx = unat (off + of_nat i) mod 8;
                val = (if byte_idx < length data \<and> data ! byte_idx AND push_bit bit_idx 1 \<noteq> 0
                       then val OR push_bit i 1 else val)
            in extract_from checks data off width (Suc i) val))"
  by auto
termination
  by (relation "measure (\<lambda>(checks, data, off, width, i, val). 64 - i)") auto

declare extract_from.simps [simp del]

definition extract_bits :: "bool \<Rightarrow> bytes \<Rightarrow> usize \<Rightarrow> usize \<Rightarrow> u64 option" where
  "extract_bits checks data off width = extract_from checks data off width 0 0"

fun decode_signals :: "bool \<Rightarrow> ldf_db \<Rightarrow> bytes \<Rightarrow> signal_ref list \<Rightarrow> (string \<rightharpoonup> u64) \<Rightarrow>
    (string \<rightharpoonup> u64) option" where
  "decode_signals checks db data [] result = Some result"
| "decode_signals checks db data (r # rs) result =
     (case db_signals db (ref_name r) of
        None \<Rightarrow> decode_signals checks db data rs result
      | Some sig \<Rightarrow>
          (case extract_bits checks data (ref_offset r) (ls_width sig) of
             None \<Rightarrow> None
           | Some v \<Rightarrow> decode_signals checks db data rs (result(ref_name r \<mapsto> v))))"

definition decode :: "bool \<Rightarrow> ldf_db \<Rightarrow> u8 \<Rightarrow> bytes \<Rightarrow> (string \<rightharpoonup> u64) option option" where
  "decode checks db i data =
     (case db_frames db i of
        None \<Rightarrow> Some None
      | Some f \<Rightarrow> map_option Some (decode_signals checks db data (lf_signals f) Map.empty))"

section \<open>Helpers\<close>

definition extract_quoted :: "string \<Rightarrow> string" where
  "extract_quoted line =
     (case find_char (CHR 0x22) line of None \<Rightarrow> []
      | Some s \<Rightarrow>
          (let rest = drop (Suc s) line
           in case find_char (CHR 0x22) rest of None \<Rightarrow> [] | Some e \<Rightarrow> take e rest))"

fun first_float :: "string list \<Rightarrow> f64" where
  "first_float [] = Fin False 0 0"
| "first_float (p # ps) =
     (case parse_f64 (trim_end_matches (CHR '';'') p) of Some f \<Rightarrow> f | None \<Rightarrow> first_float ps)"

definition extract_float :: "string \<Rightarrow> f64" where
  "extract_float line = first_float (split_whitespace line)"

definition strip_hex :: "string \<Rightarrow> string option" where
  "strip_hex s =
     (if starts_with ''0x'' s \<or> starts_with ''0X'' s then Some (drop 2 s) else None)"

definition parse_int :: "string \<Rightarrow> int option" where
  "parse_int s =
     (let s = trim (trim_end_matches (CHR '';'') s)
      in case strip_hex s of
           Some hex \<Rightarrow> parse_signed 16 (2 ^ 63) hex
         | None \<Rightarrow> parse_signed 10 (2 ^ 63) s)"

definition parse_uint :: "string \<Rightarrow> u64 option" where
  "parse_uint s =
     (let s = trim (trim_end_matches (CHR '';'') s)
      in case strip_hex s of
           Some hex \<Rightarrow> map_option of_nat (parse_unsigned 16 (2 ^ 64) hex)
         | None \<Rightarrow>
             (case parse_f64 s of
                Some v \<Rightarrow> Some (of_nat (f64_to_u64 v))
              | None \<Rightarrow> map_option of_nat (parse_unsigned 10 (2 ^ 64) s)))"

text \<open>\<open>parse_int(s).unwrap_or(0) as usize\<close>.\<close>

definition int_usize :: "string \<Rightarrow> usize" where
  "int_usize s = of_int (case parse_int s of Some v \<Rightarrow> v | None \<Rightarrow> 0)"

definition parse_frame_header :: "string \<Rightarrow> ldf_frame option" where
  "parse_frame_header line =
     (let line = trim (trim_end_matches (CHR ''{'') line)
      in case find_char (CHR '':'') line of
           None \<Rightarrow> None
         | Some colon \<Rightarrow>
             (let name = trim (take colon line);
                  rest = trim (drop (Suc colon) line);
                  parts = split_char (CHR '','') rest
              in if length parts < 3 then None
                 else (case parse_int (trim (parts ! 0)) of
                         None \<Rightarrow> None
                       | Some v \<Rightarrow>
                           Some \<lparr>lf_name = name, lf_id = of_int v,
                                 lf_publisher = trim (parts ! 1),
                                 lf_length = int_usize (trim (parts ! 2)),
                                 lf_signals = []\<rparr>)))"

fun frame_named :: "(u8 \<rightharpoonup> ldf_frame) \<Rightarrow> string \<Rightarrow> u8 list \<Rightarrow> u8" where
  "frame_named fs name [] = 0xFF"
| "frame_named fs name (i # is) =
     (case fs i of
        Some f \<Rightarrow> if lf_name f = name then i else frame_named fs name is
      | None \<Rightarrow> frame_named fs name is)"

definition frame_id_by_name :: "((u8 \<rightharpoonup> ldf_frame) \<Rightarrow> u8 list) \<Rightarrow> ldf_db \<Rightarrow> string \<Rightarrow> u8" where
  "frame_id_by_name iter db name = frame_named (db_frames db) name (iter (db_frames db))"

section \<open>The cursor\<close>

record ldf_parser =
  lp_lines :: "string list"
  lp_pos :: nat

definition has_line :: "ldf_parser \<Rightarrow> bool" where
  "has_line p \<longleftrightarrow> lp_pos p < length (lp_lines p)"

definition peek :: "ldf_parser \<Rightarrow> string" where
  "peek p = (if lp_pos p < length (lp_lines p) then lp_lines p ! lp_pos p else [])"

definition advance :: "ldf_parser \<Rightarrow> ldf_parser" where
  "advance p = p\<lparr>lp_pos := lp_pos p + 1\<rparr>"

definition skip_brace :: "ldf_parser \<Rightarrow> ldf_parser" where
  "skip_brace p = (if starts_with ''{'' (peek p) then advance p else p)"

definition left :: "ldf_parser \<Rightarrow> nat" where
  "left p = length (lp_lines p) - lp_pos p"

lemma left_advance [simp]: "has_line p \<Longrightarrow> left (advance p) < left p"
  by (simp add: left_def advance_def has_line_def)

lemma left_advance_le [simp]: "left (advance p) \<le> left p"
  by (simp add: left_def advance_def)

lemma left_skip_brace [simp]: "left (skip_brace p) \<le> left p"
  by (simp add: skip_brace_def)

section \<open>Nodes and signals\<close>

definition nodes_line :: "string \<Rightarrow> ldf_db \<Rightarrow> ldf_db" where
  "nodes_line line db =
     (if starts_with ''Master:'' line then
        (let rest = trim (trim_start_matches ''Master:'' line)
         in case split_char (CHR '','') rest of
              [] \<Rightarrow> db
            | name # _ \<Rightarrow>
                db\<lparr>db_master_node := trim (trim_end_matches (CHR '';'') (trim name))\<rparr>)
      else if starts_with ''Slaves:'' line then
        (let rest = trim_end_matches (CHR '';'') (trim (trim_start_matches ''Slaves:'' line))
         in db\<lparr>db_slave_nodes := db_slave_nodes db @
              filter (\<lambda>s. s \<noteq> []) (map trim (split_char (CHR '','') rest))\<rparr>)
      else db)"

function nodes_loop :: "ldf_parser \<Rightarrow> ldf_db \<Rightarrow> ldf_parser \<times> ldf_db" where
  "nodes_loop p db =
     (if has_line p then
        (let line = peek p
         in if line = ''}'' then (advance p, db)
            else nodes_loop (advance p) (nodes_line line db))
      else (p, db))"
  by auto
termination by (relation "measure (\<lambda>(p, db). left p)") auto

definition parse_nodes :: "ldf_parser \<Rightarrow> ldf_db \<Rightarrow> ldf_parser \<times> ldf_db" where
  "parse_nodes p db = nodes_loop (skip_brace p) db"

definition signal_line :: "string \<Rightarrow> ldf_db \<Rightarrow> ldf_db" where
  "signal_line line db =
     (let line = trim (trim_end_matches (CHR '';'') line)
      in case find_char (CHR '':'') line of
           None \<Rightarrow> db
         | Some colon \<Rightarrow>
             (let name = trim (take colon line);
                  rest = trim (drop (Suc colon) line);
                  parts = splitn_char 4 (CHR '','') rest
              in if length parts < 3 then db
                 else (let bit_width = int_usize (trim (parts ! 0));
                           init_value = (case parse_uint (trim (parts ! 1)) of Some v \<Rightarrow> v | None \<Rightarrow> 0);
                           publisher = trim (parts ! 2);
                           subscribers = (if length parts > 3 then
                               filter (\<lambda>s. s \<noteq> []) (map trim (split_char (CHR '','') (parts ! 3)))
                             else [])
                       in db\<lparr>db_signals := (db_signals db)(name \<mapsto>
                            \<lparr>ls_name = name, ls_width = bit_width, ls_init = init_value,
                             ls_publisher = publisher, ls_subscribers = subscribers\<rparr>)\<rparr>)))"

function signals_loop :: "ldf_parser \<Rightarrow> ldf_db \<Rightarrow> ldf_parser \<times> ldf_db" where
  "signals_loop p db =
     (if has_line p then
        (let line = peek p
         in if line = ''}'' then (advance p, db)
            else signals_loop (advance p) (signal_line line db))
      else (p, db))"
  by auto
termination by (relation "measure (\<lambda>(p, db). left p)") auto

definition parse_signals :: "ldf_parser \<Rightarrow> ldf_db \<Rightarrow> ldf_parser \<times> ldf_db" where
  "parse_signals p db = signals_loop (skip_brace p) db"

section \<open>Frames\<close>

definition frame_line :: "string \<Rightarrow> ldf_frame \<Rightarrow> ldf_frame" where
  "frame_line inner f =
     (let inner = trim (trim_end_matches (CHR '';'') inner);
          parts = splitn_char 2 (CHR '','') inner
      in if length parts = 2 then
           f\<lparr>lf_signals := lf_signals f @
             [\<lparr>ref_name = trim (parts ! 0), ref_offset = int_usize (trim (parts ! 1))\<rparr>]\<rparr>
         else f)"

function frame_body :: "ldf_parser \<Rightarrow> ldf_frame \<Rightarrow> ldf_parser \<times> ldf_frame" where
  "frame_body p f =
     (if has_line p then
        (let inner = peek p
         in if inner = ''}'' then (advance p, f)
            else frame_body (advance p) (frame_line inner f))
      else (p, f))"
  by auto
termination by (relation "measure (\<lambda>(p, f). left p)") auto

declare nodes_loop.simps [simp del] signals_loop.simps [simp del] frame_body.simps [simp del]

lemma nodes_loop_left: "left (fst (nodes_loop p db)) \<le> left p"
proof (induction "left p" arbitrary: p db rule: less_induct)
  case less
  have sub: "left (fst (nodes_loop q d)) \<le> left p" if "left q < left p" for q d
    using less [OF that, of d] that by simp
  show ?case
    by (subst nodes_loop.simps)
      (auto simp: Let_def split: option.split intro!: sub)
qed

lemma signals_loop_left: "left (fst (signals_loop p db)) \<le> left p"
proof (induction "left p" arbitrary: p db rule: less_induct)
  case less
  have sub: "left (fst (signals_loop q d)) \<le> left p" if "left q < left p" for q d
    using less [OF that, of d] that by simp
  show ?case
    by (subst signals_loop.simps)
      (auto simp: Let_def split: option.split intro!: sub)
qed

lemma frame_body_left: "left (fst (frame_body p f)) \<le> left p"
proof (induction "left p" arbitrary: p f rule: less_induct)
  case less
  have sub: "left (fst (frame_body q g)) \<le> left p" if "left q < left p" for q g
    using less [OF that, of g] that by simp
  show ?case
    by (subst frame_body.simps)
      (auto simp: Let_def split: option.split intro!: sub)
qed

lemma frame_body_advance: "has_line p \<Longrightarrow> left (fst (frame_body (advance p) f)) < left p"
  by (rule le_less_trans [OF frame_body_left left_advance])

function frames_loop :: "ldf_parser \<Rightarrow> ldf_db \<Rightarrow> ldf_parser \<times> ldf_db" where
  "frames_loop p db =
     (if has_line p then
        (let line = peek p
         in if line = ''}'' then (advance p, db)
            else if CHR ''{'' \<in> set line then
              (case parse_frame_header line of
                 None \<Rightarrow> frames_loop (advance p) db
               | Some f0 \<Rightarrow>
                   (let r = frame_body (advance p) f0
                    in frames_loop (fst r)
                         (db\<lparr>db_frames := (db_frames db)(lf_id (snd r) \<mapsto> snd r)\<rparr>)))
            else frames_loop (advance p) db)
      else (p, db))"
  by auto
termination
  by (relation "measure (\<lambda>(p, db). left p)") (auto intro: frame_body_advance)

declare frames_loop.simps [simp del]

definition parse_frames :: "ldf_parser \<Rightarrow> ldf_db \<Rightarrow> ldf_parser \<times> ldf_db" where
  "parse_frames p db = frames_loop (skip_brace p) db"

lemma frames_loop_left: "left (fst (frames_loop p db)) \<le> left p"
proof (induction "left p" arbitrary: p db rule: less_induct)
  case less
  have sub: "left (fst (frames_loop q d)) \<le> left p" if "left q < left p" for q d
    using less [OF that, of d] that by simp
  show ?case
    by (subst frames_loop.simps)
      (auto simp: Let_def frame_body_advance split: option.split intro!: sub)
qed

section \<open>Schedule tables\<close>

definition schedule_line :: "((u8 \<rightharpoonup> ldf_frame) \<Rightarrow> u8 list) \<Rightarrow> ldf_db \<Rightarrow> string \<Rightarrow>
    schedule_entry list \<Rightarrow> schedule_entry list" where
  "schedule_line iter db inner entries =
     (let inner = trim (trim_end_matches (CHR '';'') inner)
      in if starts_with ''AssignFrameId'' inner then entries
         else (let parts = split_whitespace inner
               in if length parts \<ge> 3 \<and> eq_ignore_ascii_case (parts ! 1) ''delay'' then
                    (let delay_ms = ucast (case parse_uint (parts ! 2) of Some v \<Rightarrow> v | None \<Rightarrow> 0);
                         i = frame_id_by_name iter db (parts ! 0)
                     in if i \<le> LIN_MAX_ID then entries @ [\<lparr>se_id = i, se_delay_ms = delay_ms\<rparr>]
                        else entries)
                  else entries))"

function table_body :: "((u8 \<rightharpoonup> ldf_frame) \<Rightarrow> u8 list) \<Rightarrow> ldf_db \<Rightarrow> ldf_parser \<Rightarrow>
    schedule_entry list \<Rightarrow> ldf_parser \<times> schedule_entry list" where
  "table_body iter db p entries =
     (if has_line p then
        (let inner = peek p
         in if inner = ''}'' then (advance p, entries)
            else table_body iter db (advance p) (schedule_line iter db inner entries))
      else (p, entries))"
  by auto
termination by (relation "measure (\<lambda>(iter, db, p, entries). left p)") auto

declare table_body.simps [simp del]

lemma table_body_left: "left (fst (table_body iter db p es)) \<le> left p"
proof (induction "left p" arbitrary: p es rule: less_induct)
  case less
  have sub: "left (fst (table_body iter db q fs)) \<le> left p" if "left q < left p" for q fs
    using less [OF that, of fs] that by simp
  show ?case
    by (subst table_body.simps)
      (auto simp: Let_def split: option.split intro!: sub)
qed

lemma table_body_advance: "has_line p \<Longrightarrow> left (fst (table_body iter db (advance p) es)) < left p"
  by (rule le_less_trans [OF table_body_left left_advance])

function tables_loop :: "((u8 \<rightharpoonup> ldf_frame) \<Rightarrow> u8 list) \<Rightarrow> ldf_parser \<Rightarrow> ldf_db \<Rightarrow>
    ldf_parser \<times> ldf_db" where
  "tables_loop iter p db =
     (if has_line p then
        (let line = peek p
         in if line = ''}'' then (advance p, db)
            else if ends_with_char (CHR ''{'') line then
              (let table_name = trim (trim_end_matches (CHR ''{'') line);
                   r = table_body iter db (advance p) []
               in tables_loop iter (fst r)
                    (db\<lparr>db_schedules := (db_schedules db)(table_name \<mapsto> snd r)\<rparr>))
            else tables_loop iter (advance p) db)
      else (p, db))"
  by auto
termination
  by (relation "measure (\<lambda>(iter, p, db). left p)") (auto intro: table_body_advance)

declare tables_loop.simps [simp del]

definition parse_schedule_tables :: "((u8 \<rightharpoonup> ldf_frame) \<Rightarrow> u8 list) \<Rightarrow> ldf_parser \<Rightarrow> ldf_db \<Rightarrow>
    ldf_parser \<times> ldf_db" where
  "parse_schedule_tables iter p db = tables_loop iter (skip_brace p) db"

lemma tables_loop_left: "left (fst (tables_loop iter p db)) \<le> left p"
proof (induction "left p" arbitrary: p db rule: less_induct)
  case less
  have sub: "left (fst (tables_loop iter q d)) \<le> left p" if "left q < left p" for q d
    using less [OF that, of d] that by simp
  show ?case
    by (subst tables_loop.simps)
      (auto simp: Let_def  table_body_advance split: option.split intro!: sub)
qed

section \<open>The top level\<close>

lemma left_section:
  "has_line p \<Longrightarrow> left (fst (parse_nodes (advance p) db)) < left p"
  "has_line p \<Longrightarrow> left (fst (parse_signals (advance p) db)) < left p"
  "has_line p \<Longrightarrow> left (fst (parse_frames (advance p) db)) < left p"
  "has_line p \<Longrightarrow> left (fst (parse_schedule_tables iter (advance p) db)) < left p"
  unfolding parse_nodes_def parse_signals_def parse_frames_def parse_schedule_tables_def
  by (meson le_less_trans left_advance left_skip_brace nodes_loop_left signals_loop_left
      frames_loop_left tables_loop_left)+

function parse_top :: "((u8 \<rightharpoonup> ldf_frame) \<Rightarrow> u8 list) \<Rightarrow> ldf_parser \<Rightarrow> ldf_db \<Rightarrow>
    ldf_parser \<times> ldf_db" where
  "parse_top iter p db =
     (if has_line p then
        (let line = peek p
         in if starts_with ''LIN_protocol_version'' line then
              parse_top iter (advance p) (db\<lparr>db_protocol_version := extract_quoted line\<rparr>)
            else if starts_with ''LIN_language_version'' line then
              parse_top iter (advance p) (db\<lparr>db_language_version := extract_quoted line\<rparr>)
            else if starts_with ''LIN_speed'' line then
              parse_top iter (advance p) (db\<lparr>db_speed_kbps := extract_float line\<rparr>)
            else if starts_with ''Nodes'' line then
              (let r = parse_nodes (advance p) db in parse_top iter (fst r) (snd r))
            else if starts_with ''Signals'' line then
              (let r = parse_signals (advance p) db in parse_top iter (fst r) (snd r))
            else if starts_with ''Frames'' line then
              (let r = parse_frames (advance p) db in parse_top iter (fst r) (snd r))
            else if starts_with ''Schedule_tables'' line then
              (let r = parse_schedule_tables iter (advance p) db in parse_top iter (fst r) (snd r))
            else parse_top iter (advance p) db)
      else (p, db))"
  by auto
termination
  by (relation "measure (\<lambda>x. left (fst (snd x)))") (auto intro: left_section)

declare parse_top.simps [simp del]

section \<open>Reading the lines\<close>

text \<open>
  The reader delivers \<open>content\<close> and then ends, or fails with an I/O error.  A line that is
  not valid UTF-8 is an error too.
\<close>

datatype io_error = InvalidUtf8 | ReadError string

definition cont :: "nat \<Rightarrow> bool" where
  "cont b \<longleftrightarrow> 0x80 \<le> b \<and> b \<le> 0xBF"

fun utf8_valid :: "nat list \<Rightarrow> bool" where
  "utf8_valid [] \<longleftrightarrow> True"
| "utf8_valid (a # s) \<longleftrightarrow>
     (if a < 0x80 then utf8_valid s
      else (case s of [] \<Rightarrow> False
        | b # s2 \<Rightarrow>
            if 0xC2 \<le> a \<and> a \<le> 0xDF then cont b \<and> utf8_valid s2
            else (case s2 of [] \<Rightarrow> False
              | c # s3 \<Rightarrow>
                  if 0xE0 \<le> a \<and> a \<le> 0xEF then
                    cont b \<and> (a = 0xE0 \<longrightarrow> 0xA0 \<le> b) \<and> (a = 0xED \<longrightarrow> b \<le> 0x9F) \<and> cont c \<and>
                    utf8_valid s3
                  else (case s3 of [] \<Rightarrow> False
                    | d # s4 \<Rightarrow>
                        0xF0 \<le> a \<and> a \<le> 0xF4 \<and>
                        cont b \<and> (a = 0xF0 \<longrightarrow> 0x90 \<le> b) \<and> (a = 0xF4 \<longrightarrow> b \<le> 0x8F) \<and>
                        cont c \<and> cont d \<and> utf8_valid s4))))"

text \<open>The lines that end in a newline, without it, and what follows the last newline.\<close>

fun raw_lines :: "string \<Rightarrow> string list \<times> string" where
  "raw_lines [] = ([], [])"
| "raw_lines (c # cs) =
     (let r = raw_lines cs
      in if c = CHR 0x0A then ([] # fst r, snd r)
         else (case fst r of [] \<Rightarrow> ([], c # snd r) | l # ls \<Rightarrow> ((c # l) # ls, snd r)))"

definition strip_cr :: "string \<Rightarrow> string" where
  "strip_cr l = (if l \<noteq> [] \<and> last l = CHR 0x0D then butlast l else l)"

text \<open>The body of the reading loop: a comment is cut, the rest trimmed, nothing kept if empty.\<close>

definition clean_line :: "string \<Rightarrow> string" where
  "clean_line line =
     trim (case find_sub ''//'' line of Some idx \<Rightarrow> take idx line | None \<Rightarrow> line)"

fun read_complete :: "string list \<Rightarrow> string list \<Rightarrow> io_error + string list" where
  "read_complete [] acc = Inr acc"
| "read_complete (l # ls) acc =
     (if \<not> utf8_valid (map byte_of l) then Inl InvalidUtf8
      else (let line = clean_line (strip_cr l)
            in read_complete ls (if line \<noteq> [] then acc @ [line] else acc)))"

definition read_lines :: "string \<Rightarrow> string option \<Rightarrow> io_error + string list" where
  "read_lines content failure =
     (case read_complete (fst (raw_lines content)) [] of
        Inl e \<Rightarrow> Inl e
      | Inr acc \<Rightarrow>
          (case failure of
             Some e \<Rightarrow> Inl (ReadError e)
           | None \<Rightarrow>
               (let l = snd (raw_lines content)
                in if l = [] then Inr acc
                   else if \<not> utf8_valid (map byte_of l) then Inl InvalidUtf8
                   else Inr (if clean_line l \<noteq> [] then acc @ [clean_line l] else acc))))"

definition ldf_parse :: "((u8 \<rightharpoonup> ldf_frame) \<Rightarrow> u8 list) \<Rightarrow> string \<Rightarrow> string option \<Rightarrow>
    io_error + ldf_db" where
  "ldf_parse iter content failure =
     (case read_lines content failure of
        Inl e \<Rightarrow> Inl e
      | Inr lines \<Rightarrow>
          Inr (snd (parse_top iter \<lparr>lp_lines = lines, lp_pos = 0\<rparr> ldf_db_default)))"

end
