(* ===== verification/Ldf_Facts.thy ===== *)
theory Ldf_Facts
  imports Ldf_Parser
begin

text \<open>
  Signal extraction as bit arithmetic on the little-endian value of the payload, decoding,
  and the invariants of every database the parser builds.
\<close>

section \<open>Extraction\<close>

definition le_value :: "bytes \<Rightarrow> nat" where
  "le_value data = foldr (\<lambda>b v. unat b + 256 * v) data 0"

lemma le_value_simps [simp]:
  "le_value [] = 0" "le_value (b # bs) = unat b + 256 * le_value bs"
  by (simp_all add: le_value_def)

lemma byte_bound: "unat (b :: u8) < 256"
  using unsigned_less [where 'a = nat, of b] by simp

lemma bit_byte_plus:
  fixes b :: u8 and v :: nat
  shows "bit (unat b + 256 * v) n = (if n < 8 then bit b n else bit v (n - 8))"
proof (cases "n < 8")
  case True
  have "take_bit 8 (unat b + 256 * v) = unat b"
    using byte_bound by (simp add: take_bit_eq_mod)
  then have "bit (take_bit 8 (unat b + 256 * v)) n = bit (unat b) n" by simp
  with True show ?thesis by (simp add: bit_take_bit_iff bit_unsigned_iff)
next
  case False
  have "drop_bit 8 (unat b + 256 * v) = v"
    using byte_bound by (simp add: drop_bit_eq_div)
  then have "bit (drop_bit 8 (unat b + 256 * v)) (n - 8) = bit v (n - 8)" by simp
  with False show ?thesis by (simp add: bit_drop_bit_eq)
qed

lemma bit_le_value:
  "bit (le_value data) n \<longleftrightarrow> n div 8 < length data \<and> bit (data ! (n div 8)) (n mod 8)"
proof (induction data arbitrary: n)
  case (Cons b bs)
  show ?case
  proof (cases "n < 8")
    case True
    then show ?thesis by (simp add: bit_byte_plus)
  next
    case False
    then obtain k where n: "n = k + 8" by (metis add.commute le_Suc_ex not_less)
    then have "n div 8 = Suc (k div 8)" "n mod 8 = k mod 8" by simp_all
    with Cons.IH [of k] n show ?thesis by (simp add: bit_byte_plus)
  qed
qed simp

definition wire_bit :: "bytes \<Rightarrow> nat \<Rightarrow> bool" where
  "wire_bit data n \<longleftrightarrow> n div 8 < length data \<and> bit (data ! (n div 8)) (n mod 8)"

lemma byte_test: "(b :: u8) AND 2 ^ k = 0 \<longleftrightarrow> \<not> bit b k"
  by (simp add: and_exp_eq_0_iff_not_bit)

lemma bit_set_u64: "i < 64 \<Longrightarrow> bit (val OR 2 ^ i :: u64) n \<longleftrightarrow> bit val n \<or> n = i"
  by (auto simp: bit_or_iff bit_exp_iff)

text \<open>The positions the loop has still to visit from \<open>i\<close> on.\<close>

lemma extract_from_result:
  "extract_from checks data off width i val = Some v \<Longrightarrow>
     bit v n \<longleftrightarrow> bit val n \<or>
       i \<le> n \<and> n < min (unat width) 64 \<and> wire_bit data (unat (off + of_nat n))"
proof (induction checks data off width i val arbitrary: v rule: extract_from.induct)
  case (1 checks data off width i val)
  show ?case
  proof (cases "i < unat width \<and> i < 64")
    case False
    with "1.prems" show ?thesis by (subst (asm) extract_from.simps) (auto split: if_splits)
  next
    case True
    let ?k = "unat (off + of_nat i)"
    let ?val = "if ?k div 8 < length data \<and> data ! (?k div 8) AND push_bit (?k mod 8) 1 \<noteq> 0
      then val OR push_bit i 1 else val"
    from True "1.prems" have ok: "\<not> (checks \<and> 2 ^ 64 \<le> unat off + i)"
      and rest: "extract_from checks data off width (Suc i) ?val = Some v"
      by (subst (asm) extract_from.simps, auto simp: Let_def split: if_splits)+
    have one: "bit ?val n \<longleftrightarrow> bit val n \<or> n = i \<and> wire_bit data ?k"
      using True by (auto simp: bit_set_u64 byte_test wire_bit_def)
    have "bit v n \<longleftrightarrow> bit ?val n \<or>
        Suc i \<le> n \<and> n < min (unat width) 64 \<and> wire_bit data (unat (off + of_nat n))"
      by (rule "1.IH" [OF _ _ ok refl refl refl rest]) (use True in auto)
    then show ?thesis using one True by (auto simp: le_less_Suc_eq Suc_le_eq le_less)
  qed
qed

lemma extract_from_none:
  "extract_from checks data off width i val = None \<longleftrightarrow>
     checks \<and> i < min (unat width) 64 \<and> 2 ^ 64 < unat off + min (unat width) 64"
proof (induction "64 - i" arbitrary: i val rule: less_induct)
  case less
  show ?case
  proof (cases "i < unat width \<and> i < 64 \<and> \<not> (checks \<and> 2 ^ 64 \<le> unat off + i)")
    case False
    then show ?thesis by (subst extract_from.simps) auto
  next
    case True
    then have "\<exists>u. extract_from checks data off width i val =
        extract_from checks data off width (Suc i) u"
      by (subst extract_from.simps) (auto simp: Let_def)
    then obtain u where u: "extract_from checks data off width i val =
        extract_from checks data off width (Suc i) u" by blast
    have "extract_from checks data off width (Suc i) u = None \<longleftrightarrow>
        checks \<and> Suc i < min (unat width) 64 \<and> 2 ^ 64 < unat off + min (unat width) 64"
      by (rule less) (use True in linarith)
    with u True show ?thesis by (cases checks) (simp_all, linarith)
  qed
qed

lemma wire_bit_value: "wire_bit data n \<longleftrightarrow> bit (le_value data) n"
  by (simp add: wire_bit_def bit_le_value)

lemma extract_bits_slice:
  assumes "unat off + min (unat width) 64 \<le> 2 ^ 64"
  shows "extract_bits checks data off width =
    Some (of_nat (le_value data div 2 ^ unat off mod 2 ^ min (unat width) 64))"
proof -
  let ?w = "min (unat width) 64"
  let ?u = "of_nat (le_value data div 2 ^ unat off mod 2 ^ ?w) :: u64"
  obtain v where v: "extract_bits checks data off width = Some v"
    using assms extract_from_none [of checks data off width 0 0]
    by (auto simp: extract_bits_def)
  have "bit v n = bit ?u n" if n: "n < 64" for n
  proof -
    have pos: "unat (off + of_nat n) = unat off + n" if "n < ?w"
    proof -
      have "unat off + n < 2 ^ 64" using that assms by linarith
      then show ?thesis by (simp add: unat_word_ariths unat_of_nat mod_add_right_eq)
    qed
    have "bit v n \<longleftrightarrow> n < ?w \<and> wire_bit data (unat (off + of_nat n))"
      using extract_from_result [of checks data off width 0 0 v n] v
      by (simp add: extract_bits_def)
    also have "\<dots> \<longleftrightarrow> n < ?w \<and> bit (le_value data) (unat off + n)"
      using pos by (auto simp: wire_bit_value)
    also have "\<dots> \<longleftrightarrow> bit (take_bit ?w (drop_bit (unat off) (le_value data))) n"
      by (auto simp: bit_take_bit_iff bit_drop_bit_eq)
    also have "\<dots> \<longleftrightarrow> bit ?u n"
      using n by (simp add: bit_of_nat_iff take_bit_eq_mod drop_bit_eq_div)
    finally show ?thesis .
  qed
  then have "v = ?u" by (intro bit_word_eqI) simp
  with v show ?thesis by simp
qed

lemma extract_bits_none:
  "extract_bits checks data off width = None \<longleftrightarrow>
     checks \<and> 0 < min (unat width) 64 \<and> 2 ^ 64 < unat off + min (unat width) 64"
  by (simp add: extract_bits_def extract_from_none)

section \<open>Decoding\<close>

text \<open>The reference of a declared signal whose last bit has a position above \<open>2 ^ 64 - 1\<close>.\<close>

definition overflowing :: "ldf_db \<Rightarrow> signal_ref \<Rightarrow> bool" where
  "overflowing db r \<longleftrightarrow>
     (case db_signals db (ref_name r) of
        None \<Rightarrow> False
      | Some sig \<Rightarrow> 0 < min (unat (ls_width sig)) 64 \<and>
          2 ^ 64 < unat (ref_offset r) + min (unat (ls_width sig)) 64)"

text \<open>The bits a signal occupies, and the last reference to a name in a frame.\<close>

definition signal_value :: "bytes \<Rightarrow> usize \<Rightarrow> usize \<Rightarrow> u64" where
  "signal_value data off width =
     of_nat (le_value data div 2 ^ unat off mod 2 ^ min (unat width) 64)"

definition last_offset :: "signal_ref list \<Rightarrow> string \<rightharpoonup> usize" where
  "last_offset refs = map_of (rev (map (\<lambda>r. (ref_name r, ref_offset r)) refs))"

definition decoded :: "ldf_db \<Rightarrow> bytes \<Rightarrow> signal_ref list \<Rightarrow> string \<rightharpoonup> u64" where
  "decoded db data refs name =
     (case db_signals db name of None \<Rightarrow> None
      | Some sig \<Rightarrow>
          map_option (\<lambda>off. signal_value data off (ls_width sig)) (last_offset refs name))"

lemma last_offset_Cons:
  "last_offset (r # rs) name =
     (case last_offset rs name of Some off \<Rightarrow> Some off
      | None \<Rightarrow> if name = ref_name r then Some (ref_offset r) else None)"
  by (simp add: last_offset_def map_add_def split: option.split)

lemma decode_signals_none:
  "decode_signals checks db data refs result = None \<longleftrightarrow>
     checks \<and> (\<exists>r \<in> set refs. overflowing db r)"
proof (induction refs arbitrary: result)
  case (Cons r rs)
  show ?case
  proof (cases "db_signals db (ref_name r)")
    case None
    then have "\<not> overflowing db r" by (simp add: overflowing_def)
    with None Cons show ?thesis by simp
  next
    case (Some sig)
    then have "extract_bits checks data (ref_offset r) (ls_width sig) = None \<longleftrightarrow>
        checks \<and> overflowing db r"
      by (simp only: overflowing_def extract_bits_none option.case)
    with Some Cons show ?thesis by (auto split: option.split)
  qed
qed simp

lemma decode_signals_value:
  "\<forall>r \<in> set refs. \<not> overflowing db r \<Longrightarrow>
     decode_signals checks db data refs result =
       Some (\<lambda>name. case decoded db data refs name of Some v \<Rightarrow> Some v | None \<Rightarrow> result name)"
proof (induction refs arbitrary: result)
  case Nil
  have "decoded db data [] name = None" for name
    by (simp add: decoded_def last_offset_def split: option.split)
  then show ?case by simp
next
  case (Cons r rs)
  show ?case
  proof (cases "db_signals db (ref_name r)")
    case None
    then have "decoded db data (r # rs) = decoded db data rs"
      by (auto simp: fun_eq_iff decoded_def last_offset_Cons split: option.split)
    with None Cons show ?thesis by simp
  next
    case (Some sig)
    let ?v = "signal_value data (ref_offset r) (ls_width sig)"
    have "extract_bits checks data (ref_offset r) (ls_width sig) = Some ?v"
    proof (cases "ls_width sig = 0")
      case True
      then show ?thesis by (simp add: extract_bits_def extract_from.simps signal_value_def)
    next
      case False
      then have "0 < unat (ls_width sig)" by (simp add: unat_gt_0)
      then show ?thesis
        using Some Cons.prems
        by (simp add: overflowing_def extract_bits_slice signal_value_def not_less)
    qed
    moreover have "(\<lambda>name. case decoded db data (r # rs) name of Some v \<Rightarrow> Some v | None \<Rightarrow> result name) =
        (\<lambda>name. case decoded db data rs name of Some v \<Rightarrow> Some v
          | None \<Rightarrow> (result(ref_name r \<mapsto> ?v)) name)"
      using Some by (auto simp: fun_eq_iff decoded_def last_offset_Cons split: option.split)
    ultimately show ?thesis using Some Cons by simp
  qed
qed

text \<open>
  C23: \<open>Db::decode\<close> on a frame of the database.  If no reference of the frame overflows (puts
  the last bit of a declared signal beyond position \<open>2 ^ 64 - 1\<close>), it returns exactly the
  declared signals the frame refers to; the value of each is the payload, read as one
  little-endian number, divided by two to its offset (the last one, if the frame names it
  twice) and reduced to its width (at most 64), so that bits beyond the payload read as zero.
  If one overflows, a build with overflow checks panics; of a build without, nothing is said.
\<close>

theorem decode_value:
  assumes "db_frames db i = Some f"
  shows "if \<exists>r \<in> set (lf_signals f). overflowing db r then checks \<longrightarrow> decode checks db i data = None
    else decode checks db i data = Some (Some (\<lambda>name.
      case (db_signals db name, last_offset (lf_signals f) name) of
        (Some sig, Some off) \<Rightarrow>
          Some (of_nat (le_value data div 2 ^ unat off mod 2 ^ min (unat (ls_width sig)) 64))
      | _ \<Rightarrow> None))"
  using assms decode_signals_none [of checks db data "lf_signals f"]
  by (auto simp: decode_def decode_signals_value decoded_def signal_value_def fun_eq_iff
      split: option.split)

definition sample_db :: ldf_db where
  "sample_db = ldf_db_default\<lparr>
     db_frames := [0x10 \<mapsto> \<lparr>lf_name = ''F'', lf_id = 0x10, lf_publisher = ''M'', lf_length = 2,
       lf_signals = [\<lparr>ref_name = ''a'', ref_offset = 4\<rparr>, \<lparr>ref_name = ''zz'', ref_offset = 0\<rparr>]\<rparr>],
     db_signals := [''a'' \<mapsto> \<lparr>ls_name = ''a'', ls_width = 8, ls_init = 0, ls_publisher = ''M'',
       ls_subscribers = []\<rparr>]\<rparr>"

theorem decode_value_witness:
  "decode True sample_db 0x10 [0xAB, 0xCD] =
     Some (Some (\<lambda>name. if name = ''a'' then Some 0xDA else None))"
  using decode_value [of sample_db "0x10" "the (db_frames sample_db 0x10)" True "[0xAB, 0xCD]"]
  by (auto simp: sample_db_def ldf_db_default_def overflowing_def last_offset_def fun_eq_iff
      split: option.splits)

text \<open>
  When \<open>Db::decode\<close> panics: exactly in a build with overflow checks, when the frame
  refers to a declared signal whose offset, which the parser takes from the file as it is,
  puts a bit beyond the last position of a \<open>usize\<close>; and it returns \<open>None\<close> exactly for an
  identifier that is not in the database.
\<close>

theorem decode_panics:
  "(decode checks db i data = None) =
     (checks \<and> (\<exists>f. db_frames db i = Some f \<and> (\<exists>r \<in> set (lf_signals f). overflowing db r))) \<and>
   (decode checks db i data = Some None) = (db_frames db i = None)"
  by (auto simp: decode_def decode_signals_none split: option.split)

section \<open>Every parsed database is well formed\<close>

definition entry_ok :: "(u8 \<rightharpoonup> ldf_frame) \<Rightarrow> schedule_entry \<Rightarrow> bool" where
  "entry_ok fs e \<longleftrightarrow> se_id e \<le> LIN_MAX_ID \<and> se_id e \<in> dom fs"

definition db_wf :: "ldf_db \<Rightarrow> bool" where
  "db_wf db \<longleftrightarrow>
     (\<forall>i f. db_frames db i = Some f \<longrightarrow> lf_id f = i) \<and>
     (\<forall>n s. db_signals db n = Some s \<longrightarrow> ls_name s = n) \<and>
     (\<forall>n es. db_schedules db n = Some es \<longrightarrow> (\<forall>e \<in> set es. entry_ok (db_frames db) e))"

lemma db_wf_default: "db_wf ldf_db_default"
  by (simp add: db_wf_def ldf_db_default_def)

lemma db_wf_header [simp]:
  "db_wf (db\<lparr>db_protocol_version := v\<rparr>) = db_wf db"
  "db_wf (db\<lparr>db_language_version := v\<rparr>) = db_wf db"
  "db_wf (db\<lparr>db_speed_kbps := x\<rparr>) = db_wf db"
  "db_wf (db\<lparr>db_master_node := v\<rparr>) = db_wf db"
  "db_wf (db\<lparr>db_slave_nodes := vs\<rparr>) = db_wf db"
  by (simp_all add: db_wf_def)

lemma db_wf_nodes_line: "db_wf db \<Longrightarrow> db_wf (nodes_line line db)"
  by (simp add: nodes_line_def Let_def split: list.split)

lemma db_wf_signal_line: "db_wf db \<Longrightarrow> db_wf (signal_line line db)"
  by (auto simp: signal_line_def Let_def db_wf_def split: option.split)

lemma db_wf_frame:
  "db_wf db \<Longrightarrow> db_wf (db\<lparr>db_frames := (db_frames db)(lf_id f \<mapsto> f)\<rparr>)"
  by (auto simp: db_wf_def entry_ok_def)

lemma db_wf_schedule:
  "db_wf db \<Longrightarrow> \<forall>e \<in> set es. entry_ok (db_frames db) e \<Longrightarrow>
     db_wf (db\<lparr>db_schedules := (db_schedules db)(n \<mapsto> es)\<rparr>)"
  by (auto simp: db_wf_def)

lemma frame_named_dom:
  "frame_named fs name is \<noteq> 0xFF \<Longrightarrow> frame_named fs name is \<in> dom fs"
  by (induction "is") (auto split: option.splits if_splits)

lemma schedule_line_ok:
  assumes "\<forall>e \<in> set es. entry_ok (db_frames db) e"
  shows "\<forall>e \<in> set (schedule_line iter db line es). entry_ok (db_frames db) e"
proof -
  have "frame_id_by_name iter db n \<in> dom (db_frames db)"
    if "frame_id_by_name iter db n \<le> LIN_MAX_ID" for n
    unfolding frame_id_by_name_def
    by (rule frame_named_dom) (use that in \<open>auto simp: frame_id_by_name_def LIN_MAX_ID_def\<close>)
  with assms show ?thesis
    by (auto simp: schedule_line_def Let_def entry_ok_def)
qed

lemma table_body_ok:
  "\<forall>e \<in> set es. entry_ok (db_frames db) e \<Longrightarrow>
     \<forall>e \<in> set (snd (table_body iter db p es)). entry_ok (db_frames db) e"
proof (induction iter db p es rule: table_body.induct)
  case (1 iter db p es)
  then show ?case
    by (subst table_body.simps) (auto simp: Let_def dest: schedule_line_ok)
qed

lemma nodes_loop_wf: "db_wf db \<Longrightarrow> db_wf (snd (nodes_loop p db))"
proof (induction p db rule: nodes_loop.induct)
  case (1 p db)
  then show ?case by (subst nodes_loop.simps) (simp add: Let_def db_wf_nodes_line)
qed

lemma signals_loop_wf: "db_wf db \<Longrightarrow> db_wf (snd (signals_loop p db))"
proof (induction p db rule: signals_loop.induct)
  case (1 p db)
  then show ?case by (subst signals_loop.simps) (simp add: Let_def db_wf_signal_line)
qed

lemma frames_loop_wf: "db_wf db \<Longrightarrow> db_wf (snd (frames_loop p db))"
proof (induction p db rule: frames_loop.induct)
  case (1 p db)
  then show ?case
    by (subst frames_loop.simps) (auto simp: Let_def db_wf_frame split: option.split)
qed

lemma tables_loop_wf: "db_wf db \<Longrightarrow> db_wf (snd (tables_loop iter p db))"
proof (induction iter p db rule: tables_loop.induct)
  case (1 iter p db)
  have "\<forall>e \<in> set (snd (table_body iter db q [])). entry_ok (db_frames db) e" for q
    by (rule table_body_ok) simp
  with 1 show ?case
    by (subst tables_loop.simps) (simp add: Let_def db_wf_schedule)
qed

lemma section_wf:
  assumes "db_wf db"
  shows "db_wf (snd (parse_nodes p db))" "db_wf (snd (parse_signals p db))"
    "db_wf (snd (parse_frames p db))" "db_wf (snd (parse_schedule_tables iter p db))"
  using assms
  by (simp_all add: parse_nodes_def parse_signals_def parse_frames_def parse_schedule_tables_def
      nodes_loop_wf signals_loop_wf frames_loop_wf tables_loop_wf)

lemma parse_top_wf: "db_wf db \<Longrightarrow> db_wf (snd (parse_top iter p db))"
proof (induction iter p db rule: parse_top.induct)
  case (1 iter p db)
  then show ?case by (subst parse_top.simps) (simp add: Let_def section_wf)
qed

lemma ldf_parse_wf: "ldf_parse iter content failure = Inr db \<Longrightarrow> db_wf db"
  by (auto simp: ldf_parse_def parse_top_wf db_wf_default split: sum.splits)

section \<open>When parsing fails\<close>

lemma utf8_valid_newline:
  "utf8_valid (xs @ 10 # ys) \<longleftrightarrow> utf8_valid xs \<and> utf8_valid ys"
proof (induction xs rule: utf8_valid.induct)
  case (2 a s)
  show ?case
  proof (cases "a < 0x80")
    case True
    with 2 show ?thesis by simp
  next
    case False
    have nl: "\<not> cont 10" by (simp add: cont_def)
    show ?thesis
    proof (cases s)
      case Nil
      with False nl show ?thesis by (auto split: list.split)
    next
      case (Cons b s2)
      note b = this
      show ?thesis
      proof (cases s2)
        case Nil
        with False nl b 2 show ?thesis by (auto split: list.split)
      next
        case (Cons c s3)
        with False nl b 2 show ?thesis by (cases s3) auto
      qed
    qed
  qed
qed simp

abbreviation valid_text :: "string \<Rightarrow> bool" where
  "valid_text s \<equiv> utf8_valid (map byte_of s)"

lemma raw_lines_content:
  "concat (map (\<lambda>l. l @ [CHR 0x0A]) (fst (raw_lines s))) @ snd (raw_lines s) = s"
  by (induction s) (auto simp: Let_def split: list.split)

lemma valid_text_lines:
  "valid_text s \<longleftrightarrow>
     list_all valid_text (fst (raw_lines s)) \<and> valid_text (snd (raw_lines s))"
proof -
  have "valid_text (concat (map (\<lambda>l. l @ [CHR 0x0A]) ls) @ r) \<longleftrightarrow>
      list_all valid_text ls \<and> valid_text r" for ls r
    by (induction ls) (simp_all add: utf8_valid_newline byte_of_def)
  from this [of "fst (raw_lines s)" "snd (raw_lines s)"] show ?thesis
    by (simp add: raw_lines_content)
qed

lemma read_complete_ok:
  "(\<exists>ls'. read_complete ls acc = Inr ls') \<longleftrightarrow> list_all valid_text ls"
  by (induction ls acc rule: read_complete.induct) (auto simp: Let_def)

text \<open>
  \<open>parse\<close> succeeds exactly when the reader delivers all of the text and the text is
  valid UTF-8; nothing in the content of the description makes it fail.
\<close>

theorem ldf_parse_succeeds:
  "(\<exists>db. ldf_parse iter content failure = Inr db) =
     (failure = None \<and> utf8_valid (map byte_of content))"
proof -
  have "(\<exists>ls. read_lines content failure = Inr ls) \<longleftrightarrow> failure = None \<and> valid_text content"
    using read_complete_ok [of "fst (raw_lines content)" "[]"]
    by (auto simp: read_lines_def valid_text_lines [of content] Let_def
        split: sum.splits option.splits)
  then show ?thesis
    by (auto simp: ldf_parse_def split: sum.splits)
qed

end
