(* ===== verification/Signal_Packing.thy ===== *)
theory Signal_Packing
  imports Ldf_Facts
begin

text \<open>
  Signals placed into a payload, the counterpart of \<open>LdfDatabase::decode\<close> in
  \<open>src/ldf/mod.rs\<close>.  The program has no encoder; the reference one here sets every bit of the
  payload from the signal that occupies it, least significant bit first, and decoding inverts
  it for every layout in which the signals do not overlap.
\<close>

section \<open>Layouts\<close>

definition signal_width :: "ldf_db \<Rightarrow> string \<Rightarrow> nat" where
  "signal_width db name = (case db_signals db name of None \<Rightarrow> 0 | Some sig \<Rightarrow> unat (ls_width sig))"

definition signal_start :: "signal_ref \<Rightarrow> nat" where
  "signal_start r = unat (ref_offset r)"

definition signal_end :: "ldf_db \<Rightarrow> signal_ref \<Rightarrow> nat" where
  "signal_end db r = signal_start r + signal_width db (ref_name r)"

text \<open>The signals of a frame of \<open>n\<close> bytes lie inside it, side by side.\<close>

definition layout_ok :: "ldf_db \<Rightarrow> signal_ref list \<Rightarrow> nat \<Rightarrow> bool" where
  "layout_ok db refs n \<longleftrightarrow> distinct (map ref_name refs) \<and>
     (\<forall>r \<in> set refs. signal_width db (ref_name r) \<le> 64 \<and> signal_end db r \<le> 8 * n) \<and>
     (\<forall>r \<in> set refs. \<forall>q \<in> set refs. r = q \<or> signal_end db r \<le> signal_start q \<or>
        signal_end db q \<le> signal_start r)"

definition occupies :: "ldf_db \<Rightarrow> nat \<Rightarrow> signal_ref \<Rightarrow> bool" where
  "occupies db p r \<longleftrightarrow> signal_start r \<le> p \<and> p < signal_end db r"

section \<open>The reference encoder\<close>

definition packed_bit :: "ldf_db \<Rightarrow> signal_ref list \<Rightarrow> (string \<Rightarrow> u64) \<Rightarrow> nat \<Rightarrow> bool" where
  "packed_bit db refs vals p =
     list_ex (\<lambda>r. occupies db p r \<and> bit (vals (ref_name r)) (p - signal_start r)) refs"

definition pack_signals :: "ldf_db \<Rightarrow> signal_ref list \<Rightarrow> (string \<Rightarrow> u64) \<Rightarrow> nat \<Rightarrow> bytes" where
  "pack_signals db refs vals n =
     map (\<lambda>k. horner_sum of_bool 2 (map (\<lambda>j. packed_bit db refs vals (8 * k + j)) [0..<8])) [0..<n]"

definition signals_of :: "ldf_db \<Rightarrow> signal_ref list \<Rightarrow> (string \<Rightarrow> u64) \<Rightarrow> string \<rightharpoonup> u64" where
  "signals_of db refs vals name =
     (if name \<in> ref_name ` set refs \<and> db_signals db name \<noteq> None then Some (vals name) else None)"

lemma length_pack [simp]: "length (pack_signals db refs vals n) = n"
  by (simp add: pack_signals_def)

lemma bit_pack:
  assumes "p < 8 * n"
  shows "bit (le_value (pack_signals db refs vals n)) p \<longleftrightarrow> packed_bit db refs vals p"
proof -
  have "p div 8 < n" using assms by linarith
  then show ?thesis
    by (simp add: bit_le_value pack_signals_def bit_horner_sum_bit_iff)
qed

text \<open>A position inside a signal belongs to that signal alone.\<close>

lemma packed_bit_inside:
  assumes "layout_ok db refs n" and "r \<in> set refs" and "j < signal_width db (ref_name r)"
  shows "packed_bit db refs vals (signal_start r + j) \<longleftrightarrow> bit (vals (ref_name r)) j"
proof -
  have here: "occupies db (signal_start r + j) r"
    using assms(3) by (simp add: occupies_def signal_end_def)
  have "q = r" if "q \<in> set refs" "occupies db (signal_start r + j) q" for q
    using assms(1,2) that here unfolding layout_ok_def occupies_def by (metis le_trans not_less)
  then have "packed_bit db refs vals (signal_start r + j) \<longleftrightarrow>
      bit (vals (ref_name r)) (signal_start r + j - signal_start r)"
    using here assms(2) unfolding packed_bit_def list_ex_iff by blast
  then show ?thesis by simp
qed

lemma bit_signal_value:
  "bit (signal_value data off width) j \<longleftrightarrow>
     j < min (unat width) 64 \<and> bit (le_value data) (unat off + j)"
proof -
  have "bit (signal_value data off width) j \<longleftrightarrow>
      j < 64 \<and> bit (take_bit (min (unat width) 64) (drop_bit (unat off) (le_value data))) j"
    by (simp add: signal_value_def bit_of_nat_iff take_bit_eq_mod drop_bit_eq_div)
  then show ?thesis by (auto simp: bit_take_bit_iff bit_drop_bit_eq)
qed

lemma packed_value:
  assumes layout: "layout_ok db refs n" and r: "r \<in> set refs"
    and sig: "db_signals db (ref_name r) = Some sig"
    and fits: "unat (vals (ref_name r)) < 2 ^ signal_width db (ref_name r)"
  shows "signal_value (pack_signals db refs vals n) (ref_offset r) (ls_width sig) = vals (ref_name r)"
proof (rule bit_word_eqI)
  fix j
  assume "j < LENGTH(64)"
  then have j: "j < 64" by simp
  have width: "signal_width db (ref_name r) = unat (ls_width sig)" "unat (ls_width sig) \<le> 64"
    "signal_start r + unat (ls_width sig) \<le> 8 * n"
    using layout r sig by (auto simp: layout_ok_def signal_width_def signal_end_def)
  have zero: "\<not> bit (vals (ref_name r)) j" if "unat (ls_width sig) \<le> j"
  proof -
    have "take_bit (unat (ls_width sig)) (unat (vals (ref_name r))) = unat (vals (ref_name r))"
      using fits width(1) by (simp add: take_bit_eq_mod)
    then have "\<not> bit (unat (vals (ref_name r))) j" using that by (metis bit_take_bit_iff not_less)
    then show ?thesis using j by (simp add: bit_unsigned_iff)
  qed
  show "bit (signal_value (pack_signals db refs vals n) (ref_offset r) (ls_width sig)) j \<longleftrightarrow>
      bit (vals (ref_name r)) j"
  proof (cases "j < unat (ls_width sig)")
    case True
    then have "bit (le_value (pack_signals db refs vals n)) (signal_start r + j) \<longleftrightarrow>
        bit (vals (ref_name r)) j"
      using bit_pack [of "signal_start r + j" n db refs vals] packed_bit_inside [OF layout r, of j vals] width
      by simp
    with True j show ?thesis by (simp add: bit_signal_value signal_start_def)
  next
    case False
    with zero show ?thesis by (simp add: bit_signal_value)
  qed
qed

lemma last_offset_distinct:
  "distinct (map ref_name refs) \<Longrightarrow> r \<in> set refs \<Longrightarrow> last_offset refs (ref_name r) = Some (ref_offset r)"
proof (induction refs)
  case (Cons q refs)
  have "last_offset refs (ref_name q) = None"
    using Cons.prems(1) by (auto simp: last_offset_def map_of_eq_None_iff)
  with Cons show ?case by (cases "r = q") (auto simp: last_offset_Cons)
qed simp

lemma decoded_pack:
  assumes layout: "layout_ok db refs n"
    and fits: "\<forall>r \<in> set refs. db_signals db (ref_name r) \<noteq> None \<longrightarrow>
      unat (vals (ref_name r)) < 2 ^ signal_width db (ref_name r)"
  shows "decoded db (pack_signals db refs vals n) refs = signals_of db refs vals"
proof
  fix name
  show "decoded db (pack_signals db refs vals n) refs name = signals_of db refs vals name"
  proof (cases "name \<in> ref_name ` set refs")
    case True
    then obtain r where r: "r \<in> set refs" "name = ref_name r" by blast
    have "last_offset refs name = Some (ref_offset r)"
      using layout r by (simp add: layout_ok_def last_offset_distinct)
    then show ?thesis
      using r fits packed_value [OF layout r(1)]
      by (auto simp: decoded_def signals_of_def split: option.split)
  next
    case False
    then have "last_offset refs name = None"
      by (auto simp: last_offset_def map_of_eq_None_iff)
    with False show ?thesis by (auto simp: decoded_def signals_of_def split: option.split)
  qed
qed

lemma layout_no_overflow:
  assumes "layout_ok db refs n" and "n \<le> LIN_MAX_DATA_LEN" and "r \<in> set refs"
  shows "\<not> overflowing db r"
proof -
  have "signal_end db r \<le> 64" using assms by (auto simp: layout_ok_def LIN_MAX_DATA_LEN_def)
  then show ?thesis
    by (auto simp: overflowing_def signal_end_def signal_start_def signal_width_def split: option.splits)
qed

section \<open>Decoding inverts packing\<close>

text \<open>
  C6: Values survive the payload.  When the signals of a frame do not overlap and lie inside
  its bytes, and each declared signal's value fits its width, decoding the packed payload
  returns exactly the declared signals with their values, in builds with and without
  overflow checks; references to undeclared signals are skipped.
\<close>

theorem signals_roundtrip:
  assumes "db_frames db i = Some f" and "layout_ok db (lf_signals f) n" and "n \<le> LIN_MAX_DATA_LEN"
    and "\<forall>r \<in> set (lf_signals f). db_signals db (ref_name r) \<noteq> None \<longrightarrow>
      unat (vals (ref_name r)) < 2 ^ signal_width db (ref_name r)"
  shows "decode checks db i (pack_signals db (lf_signals f) vals n) =
    Some (Some (signals_of db (lf_signals f) vals))"
proof -
  have "\<forall>r \<in> set (lf_signals f). \<not> overflowing db r"
    using layout_no_overflow [OF assms(2,3)] by blast
  then show ?thesis
    using assms(1) decoded_pack [OF assms(2,4)]
    by (simp add: decode_def decode_signals_value fun_eq_iff split: option.split)
qed

text \<open>Two signals, the second across the boundary of the two bytes.\<close>

definition packed_db :: ldf_db where
  "packed_db = ldf_db_default\<lparr>
     db_frames := [0x10 \<mapsto> \<lparr>lf_name = ''F'', lf_id = 0x10, lf_publisher = ''M'', lf_length = 2,
       lf_signals = [\<lparr>ref_name = ''a'', ref_offset = 0\<rparr>, \<lparr>ref_name = ''b'', ref_offset = 5\<rparr>]\<rparr>],
     db_signals := [''a'' \<mapsto> \<lparr>ls_name = ''a'', ls_width = 3, ls_init = 0, ls_publisher = ''M'',
       ls_subscribers = []\<rparr>, ''b'' \<mapsto> \<lparr>ls_name = ''b'', ls_width = 10, ls_init = 0,
       ls_publisher = ''M'', ls_subscribers = []\<rparr>]\<rparr>"

lemma packed_db_sel:
  "db_frames packed_db 0x10 = Some \<lparr>lf_name = ''F'', lf_id = 0x10, lf_publisher = ''M'', lf_length = 2,
     lf_signals = [\<lparr>ref_name = ''a'', ref_offset = 0\<rparr>, \<lparr>ref_name = ''b'', ref_offset = 5\<rparr>]\<rparr>"
  "signal_width packed_db ''a'' = 3" "signal_width packed_db ''b'' = 10"
  by (simp_all add: packed_db_def signal_width_def)

theorem signals_roundtrip_witness:
  "\<exists>res. decode True packed_db 0x10 (pack_signals packed_db
      (lf_signals (the (db_frames packed_db 0x10))) (\<lambda>s. if s = ''a'' then 5 else 0x2A3) 2) =
      Some (Some res) \<and> res ''a'' = Some 5 \<and> res ''b'' = Some 0x2A3"
proof -
  let ?f = "the (db_frames packed_db 0x10)"
  have f: "db_frames packed_db 0x10 = Some ?f" by (simp add: packed_db_sel)
  have layout: "layout_ok packed_db (lf_signals ?f) 2"
    by (simp add: layout_ok_def packed_db_sel signal_end_def signal_start_def)
  from signals_roundtrip [OF f layout, where checks = True
      and vals = "\<lambda>s. if s = ''a'' then 5 else 0x2A3"] show ?thesis
    by (simp add: packed_db_sel LIN_MAX_DATA_LEN_def signals_of_def) (simp add: packed_db_def)
qed

end
