(* ===== verification/Ldf_Text_Facts.thy ===== *)
theory Ldf_Text_Facts
  imports Ldf_Parser
begin

text \<open>
  What the string operations of \<open>Ldf_Text\<close> do on text made of names, numbers, single
  spaces and separators, and what the parsing of integers, which for \<open>parse_uint\<close> goes
  through a double, does on decimal numbers.
\<close>

named_theorems ldf_text \<open>string operations on words, spaces and separators\<close>

section \<open>Names\<close>

definition ink :: "char \<Rightarrow> bool" where
  "ink c \<longleftrightarrow> 33 \<le> byte_of c \<and> byte_of c \<le> 126"

definition name_char :: "char \<Rightarrow> bool" where
  "name_char c \<longleftrightarrow> ink c \<and> c \<notin> set ('',:;{}/='' @ [CHR 0x22])"

definition is_name :: "string \<Rightarrow> bool" where
  "is_name s \<longleftrightarrow> s \<noteq> [] \<and> list_all name_char s"

text \<open>Empty, or without white space at either end.\<close>

definition solid :: "string \<Rightarrow> bool" where
  "solid s \<longleftrightarrow> s = [] \<or> ink (hd s) \<and> ink (last s)"

lemma ink_literals [simp]:
  "ink (CHR ''}'')" "ink (CHR ''{'')" "ink (CHR '','')" "ink (CHR '';'')" "ink (CHR '':'')"
  "\<not> ink (CHR '' '')"
  by (simp_all add: ink_def byte_of_def)

lemma not_name_char:
  "\<not> name_char (CHR '','')" "\<not> name_char (CHR '':'')" "\<not> name_char (CHR '';'')"
  "\<not> name_char (CHR ''{'')" "\<not> name_char (CHR ''}'')" "\<not> name_char (CHR ''/'')"
  "\<not> name_char (CHR ''='')" "\<not> name_char (CHR 0x22)" "\<not> name_char (CHR '' '')"
  by (simp_all add: name_char_def)

lemma is_name_ink: "is_name s \<Longrightarrow> c \<in> set s \<Longrightarrow> ink c"
  by (auto simp: is_name_def name_char_def list_all_iff)

lemma is_name_not_in [ldf_text]:
  assumes "is_name s"
  shows "CHR '','' \<notin> set s" "CHR '':'' \<notin> set s" "CHR '';'' \<notin> set s" "CHR ''{'' \<notin> set s"
    "CHR ''}'' \<notin> set s" "CHR ''/'' \<notin> set s" "CHR ''='' \<notin> set s" "CHR 0x22 \<notin> set s" "CHR '' '' \<notin> set s"
  using assms not_name_char by (auto simp only: is_name_def list_all_iff)

lemma is_name_nonempty [ldf_text]: "is_name s \<Longrightarrow> s \<noteq> []"
  by (simp add: is_name_def)

lemma is_name_hd: "is_name s \<Longrightarrow> ink (hd s)"
  by (simp add: is_name_ink is_name_nonempty)

lemma is_name_last: "is_name s \<Longrightarrow> ink (last s)"
  by (simp add: is_name_ink is_name_nonempty)

lemma is_name_solid [ldf_text]: "is_name s \<Longrightarrow> solid s"
  by (simp add: solid_def is_name_hd is_name_last)

section \<open>Trimming\<close>

lemma ws_length_ink: "s = [] \<or> ink (hd s) \<Longrightarrow> ws_length s = 0"
  by (cases s; cases "tl s"; cases "tl (tl s)") (auto simp: ws_length_def ink_def numeral_eq_Suc)

lemma ws_length_rev_ink: "r = [] \<or> ink (hd r) \<Longrightarrow> ws_length_rev r = 0"
  by (cases r; cases "tl r"; cases "tl (tl r)") (auto simp: ws_length_rev_def ink_def numeral_eq_Suc)

lemma ws_length_space [simp]: "ws_length (CHR '' '' # s) = 1" "ws_length_rev (CHR '' '' # s) = 1"
  by (simp_all add: ws_length_def ws_length_rev_def byte_of_def)

lemma trim_start_ink: "s = [] \<or> ink (hd s) \<Longrightarrow> trim_start s = s"
  by (simp add: trim_start.simps ws_length_ink)

lemma trim_start_space [simp]: "trim_start (CHR '' '' # s) = trim_start s"
  by (subst trim_start.simps) simp

lemma trim_end_ink: "s = [] \<or> ink (last s) \<Longrightarrow> trim_end s = s"
  by (simp add: trim_end_def trim_start_rev.simps ws_length_rev_ink hd_rev)

lemma trim_end_space [simp]: "trim_end (s @ '' '') = trim_end s"
  unfolding trim_end_def by (subst trim_start_rev.simps) simp

lemma trim_solid [ldf_text]:
  "solid s \<Longrightarrow> trim s = s"
  "solid s \<Longrightarrow> trim (CHR '' '' # s) = s"
  "solid s \<Longrightarrow> trim (s @ '' '') = s"
  by (cases "s = []"; simp add: trim_def solid_def trim_start_ink trim_end_ink
      trim_end_space [of "[]", simplified])+

lemma trim_end_matches_snoc [ldf_text]: "trim_end_matches c (s @ [c]) = trim_end_matches c s"
  by (simp add: trim_end_matches_def)

lemma trim_end_matches_other:
  assumes "s = [] \<or> last s \<noteq> c"
  shows "trim_end_matches c s = s"
  using assms by (cases s rule: rev_cases) (simp_all add: trim_end_matches_def)

section \<open>Splitting\<close>

lemma find_char_none [ldf_text]: "c \<notin> set s \<Longrightarrow> find_char c s = None"
  by (induction s) auto

lemma find_char_some [ldf_text]: "c \<notin> set s \<Longrightarrow> find_char c (s @ c # t) = Some (length s)"
  by (induction s) auto

lemma split_char_none [ldf_text]: "c \<notin> set s \<Longrightarrow> split_char c s = [s]"
  by (induction s) auto

lemma split_char_nonempty [simp]: "split_char c s \<noteq> []"
  by (induction s) (auto split: list.split)

lemma split_char_some [ldf_text]: "c \<notin> set s \<Longrightarrow> split_char c (s @ c # t) = s # split_char c t"
  by (induction s) auto

lemma splitn_char_numeral:
  "splitn_char 4 c s = (case find_char c s of None \<Rightarrow> [s]
     | Some i \<Rightarrow> take i s # splitn_char 3 c (drop (Suc i) s))"
  "splitn_char 3 c s = (case find_char c s of None \<Rightarrow> [s]
     | Some i \<Rightarrow> take i s # splitn_char 2 c (drop (Suc i) s))"
  "splitn_char 2 c s = (case find_char c s of None \<Rightarrow> [s]
     | Some i \<Rightarrow> [take i s, drop (Suc i) s])"
  by (simp_all add: numeral_eq_Suc split: option.split)

text \<open>A list written with commas.\<close>

fun comma_list :: "string list \<Rightarrow> string" where
  "comma_list [] = []"
| "comma_list [x] = x"
| "comma_list (x # y # zs) = x @ '', '' @ comma_list (y # zs)"

lemma split_comma_space:
  "list_all is_name ns \<Longrightarrow>
     filter (\<lambda>s. s \<noteq> []) (map trim (split_char (CHR '','') (CHR '' '' # comma_list ns))) = ns"
proof (induction ns rule: comma_list.induct)
  case 1
  then show ?case by (simp add: trim_solid solid_def)
next
  case (2 x)
  then show ?case
    using split_char_none [of "CHR '',''" "CHR '' '' # x"] by (simp add: ldf_text)
next
  case (3 x y zs)
  then show ?case
    using split_char_some [of "CHR '',''" "CHR '' '' # x" "CHR '' '' # comma_list (y # zs)"]
    by (simp add: ldf_text)
qed

lemma split_comma:
  "list_all is_name ns \<Longrightarrow>
     filter (\<lambda>s. s \<noteq> []) (map trim (split_char (CHR '','') (comma_list ns))) = ns"
proof (cases ns rule: comma_list.cases)
  case 1
  then show ?thesis by (simp add: trim_solid solid_def)
next
  case (2 x)
  then show "list_all is_name ns \<Longrightarrow> ?thesis"
    by (simp add: ldf_text)
next
  case (3 x y zs)
  assume "list_all is_name ns"
  with 3 show ?thesis
    using split_comma_space [of "y # zs"] by (simp add: ldf_text)
qed

lemma split_ws_word: "list_all ink w \<Longrightarrow> split_ws acc (w @ s) = split_ws (rev w @ acc) s"
proof (induction w arbitrary: acc)
  case (Cons c w)
  then show ?case by (subst split_ws.simps) (simp add: ws_length_ink)
qed simp

lemma is_name_all_ink: "is_name s \<Longrightarrow> list_all ink s"
  by (auto simp: is_name_def name_char_def list_all_iff)

lemma split_whitespace_last: "is_name w \<Longrightarrow> split_whitespace w = [w]"
  using split_ws_word [of w "[]" "[]"]
  by (simp add: split_whitespace_def is_name_all_ink split_ws.simps ws_length_ink is_name_nonempty)

lemma split_whitespace_ink:
  "w \<noteq> [] \<Longrightarrow> list_all ink w \<Longrightarrow> split_whitespace (w @ CHR '' '' # s) = w # split_whitespace s"
  using split_ws_word [of w "[]" "CHR '' '' # s"]
  by (simp add: split_whitespace_def split_ws.simps [of "rev w"])

lemma split_whitespace_word [ldf_text]:
  "is_name w \<Longrightarrow> split_whitespace (w @ CHR '' '' # s) = w # split_whitespace s"
  by (simp add: split_whitespace_ink is_name_all_ink is_name_nonempty)

lemma starts_with_simps [simp]:
  "starts_with [] s" "\<not> starts_with (c # p) []"
  "starts_with (c # p) (d # s) \<longleftrightarrow> c = d \<and> starts_with p s"
  by (auto simp: starts_with_def)

lemma trim_start_matches_once:
  "p \<noteq> [] \<Longrightarrow> \<not> starts_with p s \<Longrightarrow> trim_start_matches p (p @ s) = s"
  by (simp add: trim_start_matches.simps [of p "p @ s"] trim_start_matches.simps [of p s])
    (simp add: starts_with_def)

lemma starts_with_word:
  "CHR '' '' \<notin> set p \<Longrightarrow> starts_with p (w @ CHR '' '' # s) \<longleftrightarrow> starts_with p w"
proof (induction w arbitrary: p)
  case Nil
  then show ?case by (cases p) auto
next
  case (Cons c w)
  then show ?case by (cases p) auto
qed

section \<open>Lines that begin and end in a name\<close>

definition framed :: "string \<Rightarrow> bool" where
  "framed s \<longleftrightarrow> s \<noteq> [] \<and> name_char (hd s) \<and> name_char (last s)"

lemma framed_name [ldf_text]: "is_name s \<Longrightarrow> framed s"
  by (simp add: framed_def is_name_def list_all_iff)

lemma framed_append [ldf_text]:
  "framed a \<Longrightarrow> framed b \<Longrightarrow> framed (a @ c # b)"
  "framed a \<Longrightarrow> framed b \<Longrightarrow> framed (a @ c # d # b)"
  by (simp_all add: framed_def)

lemma framed_comma_list [ldf_text]:
  "list_all is_name ns \<Longrightarrow> ns \<noteq> [] \<Longrightarrow> framed (comma_list ns)"
  by (induction ns rule: comma_list.induct) (auto simp: ldf_text)

lemma framed_solid [ldf_text]: "framed s \<Longrightarrow> solid s"
  by (simp add: framed_def solid_def name_char_def)

lemma framed_trim_end_matches [ldf_text]:
  "framed s \<Longrightarrow> trim_end_matches (CHR '';'') s = s"
  "framed s \<Longrightarrow> trim_end_matches (CHR ''{'') s = s"
  by (auto simp: framed_def not_name_char intro!: trim_end_matches_other)

lemma framed_not_brace [ldf_text]: "framed s \<Longrightarrow> s \<noteq> ''}'' \<and> s @ t \<noteq> ''}'' \<and> \<not> starts_with ''{'' (s @ t)"
  by (cases s) (auto simp: framed_def not_name_char)

text \<open>Printable ASCII without a slash.\<close>

definition plain :: "char \<Rightarrow> bool" where
  "plain c \<longleftrightarrow> 32 \<le> byte_of c \<and> byte_of c \<le> 126 \<and> c \<noteq> CHR ''/''"

lemma name_char_plain: "name_char c \<Longrightarrow> plain c"
  using not_name_char(6) unfolding plain_def name_char_def ink_def by fastforce

lemma plain_name [ldf_text]: "is_name s \<Longrightarrow> list_all plain s"
  using name_char_plain by (auto simp only: is_name_def list_all_iff)

lemma plain_comma_list [ldf_text]: "list_all is_name ns \<Longrightarrow> list_all plain (comma_list ns)"
proof (induction ns rule: comma_list.induct)
  case (3 x y zs)
  then show ?case by (simp add: ldf_text) (simp add: plain_def byte_of_def)
qed (simp_all add: ldf_text)

section \<open>Numbers\<close>

lemma digit_name_char: "is_digit c \<Longrightarrow> name_char c"
  by (auto simp: is_digit_def name_char_def ink_def byte_of_def)

lemma is_digit_digit_char [simp]: "d < 10 \<Longrightarrow> is_digit (digit_char d)"
  by (simp add: is_digit_def byte_of_def)

lemma dec_string_digits: "list_all is_digit (dec_string n)"
proof (induction n rule: dec_string.induct)
  case (1 n)
  then show ?case by (subst dec_string.simps) simp
qed

lemma digits_is_name: "ds \<noteq> [] \<Longrightarrow> list_all is_digit ds \<Longrightarrow> is_name ds"
  by (auto simp: is_name_def list_all_iff digit_name_char)

lemma is_name_dec_string [ldf_text]: "is_name (dec_string n)"
  by (rule digits_is_name) (simp_all add: dec_string_digits)

lemma is_name_trim_end_matches [ldf_text]:
  "is_name s \<Longrightarrow> trim_end_matches (CHR '';'') s = s"
  by (rule trim_end_matches_other) (metis is_name_not_in(3) last_in_set)

lemma digits_start:
  assumes "list_all is_digit ds"
  shows "\<not> starts_with ''0x'' ds" "\<not> starts_with ''0X'' ds"
    "ds \<noteq> [] \<Longrightarrow> hd ds \<noteq> CHR ''+'' \<and> hd ds \<noteq> CHR ''-''"
  using assms
  by (cases ds; cases "tl ds"; auto simp: starts_with_def is_digit_def byte_of_def)+

lemma parse_int_dec_string [ldf_text]:
  assumes "n < 2 ^ 63"
  shows "parse_int (dec_string n) = Some (int n)"
proof -
  have "hd (dec_string n) \<noteq> CHR ''+''" "hd (dec_string n) \<noteq> CHR ''-''"
    using digits_start(3) [OF dec_string_digits] by simp_all
  then have "parse_signed 10 (2 ^ 63) (dec_string n) = Some (int n)"
    using assms digits_value_dec_string [of n]
    by (cases "dec_string n") (simp_all add: parse_signed_def Let_def)
  then show ?thesis
    by (simp add: parse_int_def Let_def ldf_text strip_hex_def digits_start [OF dec_string_digits])
qed

lemma int_usize_dec_string [ldf_text]:
  "unat w < 2 ^ 63 \<Longrightarrow> int_usize (dec_string (unat (w :: usize))) = w"
  by (simp add: int_usize_def ldf_text)

subsection \<open>Through a double\<close>

lemma bit_length_le: "n < 2 ^ k \<Longrightarrow> bit_length n \<le> k"
proof (induction k arbitrary: n)
  case (Suc k)
  then have "n div 2 < 2 ^ k" by simp
  with Suc.IH show ?case by (subst bit_length.simps) simp
qed (simp add: bit_length.simps)

lemma ulp_exponent_small:
  assumes "n < 2 ^ 53"
  shows "ulp_exponent n 1 \<le> 0"
proof -
  have "bit_length n \<le> 53" using assms by (rule bit_length_le)
  moreover have "bit_length 1 = 1" by (simp add: bit_length.simps)
  ultimately show ?thesis by (simp add: ulp_exponent_def Let_def)
qed

lemma round_f64_exact:
  assumes "n < 2 ^ 53"
  shows "f64_to_u64 (round_f64 False n 1) = n"
proof (cases "n = 0")
  case False
  let ?e = "ulp_exponent n 1"
  have e: "?e \<le> 0" using assms by (rule ulp_exponent_small)
  then have "round_half_even (scale n 1 ?e) = n * 2 ^ nat (- ?e)"
    by (simp add: scale_def round_half_even_def Let_def)
  with e False have "round_f64 False n 1 = Fin False (n * 2 ^ nat (- ?e)) ?e"
    by (simp add: round_f64_def Let_def)
  moreover have "f64_to_u64 (Fin False (n * 2 ^ nat (- ?e)) ?e) = n"
    using e assms by (cases "?e = 0") simp_all
  ultimately show ?thesis by simp
qed (simp add: round_f64_def)

lemma takeWhile_digits:
  "list_all is_digit ds \<Longrightarrow> s = [] \<or> \<not> is_digit (hd s) \<Longrightarrow>
     takeWhile is_digit (ds @ s) = ds \<and> dropWhile is_digit (ds @ s) = s"
  by (induction ds) (cases s; auto)+

lemma decimal_append: "decimal (xs @ [digit_char d]) = 10 * decimal xs + d" if "d < 10"
  using that by (simp add: decimal_def byte_of_def)

lemma decimal_dec_string: "decimal (dec_string n) = n"
proof (induction n rule: dec_string.induct)
  case (1 n)
  show ?case
  proof (cases "n < 10")
    case True
    then show ?thesis using decimal_append [of n "[]"]
      by (subst dec_string.simps) (simp add: decimal_def)
  next
    case False
    with 1 show ?thesis
      by (subst dec_string.simps) (simp add: decimal_append)
  qed
qed

lemma ascii_lower_digit: "is_digit c \<Longrightarrow> ascii_lower c = c"
  by (simp add: is_digit_def ascii_lower_def)

lemma digit_not_letter:
  "is_digit c \<Longrightarrow> c \<noteq> CHR ''i'' \<and> c \<noteq> CHR ''n''"
  by (auto simp: is_digit_def byte_of_def)

lemma digit_not_special:
  assumes "is_digit d"
  shows "\<not> eq_ignore_ascii_case (d # s) ''inf''" "\<not> eq_ignore_ascii_case (d # s) ''infinity''"
    "\<not> eq_ignore_ascii_case (d # s) ''nan''"
proof -
  have "ascii_lower (CHR ''i'') = CHR ''i''" "ascii_lower (CHR ''n'') = CHR ''n''"
    by (simp_all add: ascii_lower_def byte_of_def)
  with assms show "\<not> eq_ignore_ascii_case (d # s) ''inf''"
    "\<not> eq_ignore_ascii_case (d # s) ''infinity''" "\<not> eq_ignore_ascii_case (d # s) ''nan''"
    unfolding eq_ignore_ascii_case_def list.map list.inject
    by (metis ascii_lower_digit digit_not_letter)+
qed

text \<open>A decimal number, with or without a fraction, is parsed to its correctly rounded value.\<close>

lemma parse_f64_digits:
  assumes ds: "ds \<noteq> []" "list_all is_digit ds" and fs: "list_all is_digit fs"
    and s: "s = ds \<and> fs = [] \<or> s = ds @ CHR ''.'' # fs"
  shows "parse_f64 s = Some (round_f64 False (decimal (ds @ fs)) (10 ^ length fs))"
proof -
  obtain d ds' where d: "ds = d # ds'" "is_digit d" using ds by (cases ds) auto
  then obtain s' where hd_s: "s = d # s'" using s by auto
  have "d \<noteq> CHR ''+''" "d \<noteq> CHR ''-''" using digits_start(3) [OF ds(2) ds(1)] d by simp_all
  then have "parse_f64 s = parse_number False s"
    using digit_not_special [OF d(2)] by (simp add: hd_s parse_f64_def)
  also have "\<dots> = Some (round_f64 False (decimal (ds @ fs)) (10 ^ length fs))"
  proof -
    have dot: "\<not> is_digit (CHR ''.'')" by (simp add: is_digit_def byte_of_def)
    have a: "takeWhile is_digit ds = ds" "dropWhile is_digit ds = []"
      "takeWhile is_digit fs = fs" "dropWhile is_digit fs = []"
      "takeWhile is_digit (ds @ CHR ''.'' # fs) = ds"
      "dropWhile is_digit (ds @ CHR ''.'' # fs) = CHR ''.'' # fs"
      using takeWhile_digits [OF ds(2), of "[]"] takeWhile_digits [OF fs, of "[]"]
        takeWhile_digits [OF ds(2), of "CHR ''.'' # fs"] dot by simp_all
    show ?thesis
      using s ds(1) by (auto simp: parse_number_def a exponent_part_def Let_def)
  qed
  finally show ?thesis .
qed

lemma parse_uint_dec_string [ldf_text]:
  assumes "n < 2 ^ 53"
  shows "parse_uint (dec_string n) = Some (of_nat n)"
  using parse_f64_digits [OF dec_string_nonempty dec_string_digits,
      of "[]" "dec_string n" n]
  by (simp add: parse_uint_def Let_def ldf_text strip_hex_def digits_start [OF dec_string_digits]
      decimal_dec_string round_f64_exact [OF assms, unfolded One_nat_def])

end
