(* ===== verification/Ldf_Roundtrip.thy ===== *)
theory Ldf_Roundtrip
  imports Ldf_Text_Facts Ldf_Facts
begin

text \<open>
  The parser of \<open>src/ldf/mod.rs\<close> inverts a printer: every section loop is a fold over the
  lines of its block, a printed line has the effect it stands for, and so the parse of a
  printed description is the database the description denotes.
\<close>

section \<open>The loops as folds over lines\<close>

definition rest :: "ldf_parser \<Rightarrow> string list" where
  "rest p = drop (lp_pos p) (lp_lines p)"

lemma has_line_rest [simp]: "has_line p \<longleftrightarrow> rest p \<noteq> []"
  by (simp add: has_line_def rest_def not_le)

lemma peek_rest: "rest p = l # r \<Longrightarrow> peek p = l"
  by (auto simp: rest_def peek_def hd_drop_conv_nth [symmetric])

lemma rest_advance [simp]: "rest (advance p) = tl (rest p)"
  by (simp add: rest_def advance_def tl_drop drop_Suc)

lemma rest_skip_brace:
  "rest p = l # r \<Longrightarrow> \<not> starts_with ''{'' l \<Longrightarrow> skip_brace p = p"
  by (simp add: skip_brace_def peek_rest)

lemma nodes_loop_fold:
  "rest p = ls @ ''}'' # r \<Longrightarrow> list_all (\<lambda>l. l \<noteq> ''}'') ls \<Longrightarrow>
     rest (fst (nodes_loop p db)) = r \<and> snd (nodes_loop p db) = fold nodes_line ls db"
proof (induction ls arbitrary: p db)
  case (Cons l ls)
  from Cons.IH [of "advance p" "nodes_line l db"] Cons.prems show ?case
    by (subst (1 2) nodes_loop.simps) (simp add: peek_rest Let_def)
qed (simp add: nodes_loop.simps peek_rest)

lemma signals_loop_fold:
  "rest p = ls @ ''}'' # r \<Longrightarrow> list_all (\<lambda>l. l \<noteq> ''}'') ls \<Longrightarrow>
     rest (fst (signals_loop p db)) = r \<and> snd (signals_loop p db) = fold signal_line ls db"
proof (induction ls arbitrary: p db)
  case (Cons l ls)
  from Cons.IH [of "advance p" "signal_line l db"] Cons.prems show ?case
    by (subst (1 2) signals_loop.simps) (simp add: peek_rest Let_def)
qed (simp add: signals_loop.simps peek_rest)

lemma frame_body_fold:
  "rest p = ls @ ''}'' # r \<Longrightarrow> list_all (\<lambda>l. l \<noteq> ''}'') ls \<Longrightarrow>
     rest (fst (frame_body p f)) = r \<and> snd (frame_body p f) = fold frame_line ls f"
proof (induction ls arbitrary: p f)
  case (Cons l ls)
  from Cons.IH [of "advance p" "frame_line l f"] Cons.prems show ?case
    by (subst (1 2) frame_body.simps) (simp add: peek_rest Let_def)
qed (simp add: frame_body.simps peek_rest)

lemma table_body_fold:
  "rest p = ls @ ''}'' # r \<Longrightarrow> list_all (\<lambda>l. l \<noteq> ''}'') ls \<Longrightarrow>
     rest (fst (table_body iter db p es)) = r \<and>
     snd (table_body iter db p es) = fold (schedule_line iter db) ls es"
proof (induction ls arbitrary: p es)
  case (Cons l ls)
  from Cons.IH [of "advance p" "schedule_line iter db l es"] Cons.prems show ?case
    by (subst (1 2) table_body.simps) (simp add: peek_rest Let_def)
qed (simp add: table_body.simps peek_rest)

text \<open>A frame or a table is a header, the lines of its body and a closing brace.\<close>

definition block :: "string \<Rightarrow> string list \<Rightarrow> string list" where
  "block header body = header # body @ [''}'']"

definition put_signal :: "ldf_signal \<Rightarrow> ldf_db \<Rightarrow> ldf_db" where
  "put_signal s db = db\<lparr>db_signals := (db_signals db)(ls_name s \<mapsto> s)\<rparr>"

definition put_frame :: "ldf_frame \<Rightarrow> ldf_db \<Rightarrow> ldf_db" where
  "put_frame f db = db\<lparr>db_frames := (db_frames db)(lf_id f \<mapsto> f)\<rparr>"

definition put_schedule :: "string \<Rightarrow> schedule_entry list \<Rightarrow> ldf_db \<Rightarrow> ldf_db" where
  "put_schedule n es db = db\<lparr>db_schedules := (db_schedules db)(n \<mapsto> es)\<rparr>"

lemma frames_loop_block:
  assumes "rest p = block l ls @ r" and "list_all (\<lambda>l. l \<noteq> ''}'') ls" and "l \<noteq> ''}''" and "CHR ''{'' \<in> set l"
    and "parse_frame_header l = Some f0" and "f = fold frame_line ls f0"
  shows "\<exists>q. rest q = r \<and>
    frames_loop p db = frames_loop q (put_frame f db)"
  using assms frame_body_fold [of "advance p" ls r f0]
  by (subst frames_loop.simps) (auto simp: block_def peek_rest Let_def put_frame_def)

lemma tables_loop_block:
  assumes "rest p = block l ls @ r" and "list_all (\<lambda>l. l \<noteq> ''}'') ls" and "l \<noteq> ''}''"
    and "ends_with_char (CHR ''{'') l" and "n = trim (trim_end_matches (CHR ''{'') l)"
    and "es = fold (schedule_line iter db) ls []"
  shows "\<exists>q. rest q = r \<and>
    tables_loop iter p db = tables_loop iter q (put_schedule n es db)"
  using assms table_body_fold [of "advance p" ls r iter db "[]"]
  by (subst tables_loop.simps) (auto simp: block_def peek_rest Let_def put_schedule_def)

section \<open>Descriptions\<close>

text \<open>
  A description in the order of the file: the speed is a number with a fraction, given by
  its digits, a table is a list of frame names with delays.
\<close>

record ldf_doc =
  doc_protocol :: string
  doc_language :: string
  doc_speed :: "string \<times> string"
  doc_master :: string
  doc_slaves :: "string list"
  doc_signals :: "ldf_signal list"
  doc_frames :: "ldf_frame list"
  doc_tables :: "(string \<times> (string \<times> u32) list) list"

definition print_signal :: "ldf_signal \<Rightarrow> string" where
  "print_signal s = ls_name s @ '': '' @ dec_string (unat (ls_width s)) @ '', '' @
     dec_string (unat (ls_init s)) @ '', '' @ comma_list (ls_publisher s # ls_subscribers s) @ '';''"

definition print_ref :: "signal_ref \<Rightarrow> string" where
  "print_ref r = ref_name r @ '', '' @ dec_string (unat (ref_offset r)) @ '';''"

definition print_frame :: "ldf_frame \<Rightarrow> string list" where
  "print_frame f = block (lf_name f @ '': '' @ dec_string (unat (lf_id f)) @ '', '' @
     lf_publisher f @ '', '' @ dec_string (unat (lf_length f)) @ '' {'') (map print_ref (lf_signals f))"

definition print_entry :: "string \<times> u32 \<Rightarrow> string" where
  "print_entry e = fst e @ '' delay '' @ dec_string (unat (snd e)) @ '' ms;''"

definition print_table :: "string \<times> (string \<times> u32) list \<Rightarrow> string list" where
  "print_table t = block (fst t @ '' {'') (map print_entry (snd t))"

definition print_nodes :: "ldf_doc \<Rightarrow> string list" where
  "print_nodes d = [''Master: '' @ doc_master d @ '', 5 ms, 0.1 ms;'',
     ''Slaves: '' @ comma_list (doc_slaves d) @ '';'']"

definition print_lines :: "ldf_doc \<Rightarrow> string list" where
  "print_lines d =
     [''LIN_description_file;'',
      ''LIN_protocol_version = '' @ [CHR 0x22] @ doc_protocol d @ [CHR 0x22] @ '';'',
      ''LIN_language_version = '' @ [CHR 0x22] @ doc_language d @ [CHR 0x22] @ '';'',
      ''LIN_speed = '' @ fst (doc_speed d) @ ''.'' @ snd (doc_speed d) @ '' kbps;''] @
     block ''Nodes {'' (print_nodes d) @
     block ''Signals {'' (map print_signal (doc_signals d)) @
     block ''Frames {'' (concat (map print_frame (doc_frames d))) @
     block ''Schedule_tables {'' (concat (map print_table (doc_tables d)))"

definition print_doc :: "ldf_doc \<Rightarrow> string" where
  "print_doc d = concat (map (\<lambda>l. l @ [CHR 0x0A]) (print_lines d))"

text \<open>The database a description denotes.\<close>

definition frames_of :: "ldf_frame list \<Rightarrow> u8 \<rightharpoonup> ldf_frame" where
  "frames_of fs = map_of (map (\<lambda>f. (lf_id f, f)) fs)"

definition entry_of :: "ldf_frame list \<Rightarrow> string \<times> u32 \<Rightarrow> schedule_entry" where
  "entry_of fs e =
     \<lparr>se_id = the (map_of (map (\<lambda>f. (lf_name f, lf_id f)) fs) (fst e)), se_delay_ms = snd e\<rparr>"

definition put_table :: "ldf_frame list \<Rightarrow> string \<times> (string \<times> u32) list \<Rightarrow> ldf_db \<Rightarrow> ldf_db" where
  "put_table fs t = put_schedule (fst t) (map (entry_of fs) (snd t))"

definition db_of :: "ldf_doc \<Rightarrow> ldf_db" where
  "db_of d =
     \<lparr>db_protocol_version = doc_protocol d, db_language_version = doc_language d,
      db_speed_kbps = round_f64 False (decimal (fst (doc_speed d) @ snd (doc_speed d)))
        (10 ^ length (snd (doc_speed d))),
      db_master_node = doc_master d, db_slave_nodes = doc_slaves d,
      db_frames = frames_of (doc_frames d),
      db_signals = map_of (map (\<lambda>s. (ls_name s, s)) (doc_signals d)),
      db_schedules = map_of (map (\<lambda>t. (fst t, map (entry_of (doc_frames d)) (snd t))) (doc_tables d))\<rparr>"

text \<open>
  Names are words without separators; numbers stay below the bounds up to which the parser
  is exact (\<open>2 ^ 63\<close> for an \<open>i64\<close>, \<open>2 ^ 53\<close> for an integer read through a double); no two
  frames share a name or an identifier.
\<close>

definition signal_ok :: "ldf_signal \<Rightarrow> bool" where
  "signal_ok s \<longleftrightarrow> is_name (ls_name s) \<and> is_name (ls_publisher s) \<and>
     list_all is_name (ls_subscribers s) \<and> unat (ls_width s) < 2 ^ 63 \<and> unat (ls_init s) < 2 ^ 53"

definition frame_ok :: "ldf_frame \<Rightarrow> bool" where
  "frame_ok f \<longleftrightarrow> is_name (lf_name f) \<and> is_name (lf_publisher f) \<and> lf_id f \<le> LIN_MAX_ID \<and>
     unat (lf_length f) < 2 ^ 63 \<and>
     list_all (\<lambda>r. is_name (ref_name r) \<and> unat (ref_offset r) < 2 ^ 63) (lf_signals f)"

definition table_ok :: "ldf_frame list \<Rightarrow> string \<times> (string \<times> u32) list \<Rightarrow> bool" where
  "table_ok fs t \<longleftrightarrow> is_name (fst t) \<and>
     list_all (\<lambda>e. fst e \<in> set (map lf_name fs) \<and> \<not> starts_with ''AssignFrameId'' (fst e)) (snd t)"

definition doc_ok :: "ldf_doc \<Rightarrow> bool" where
  "doc_ok d \<longleftrightarrow>
     list_all name_char (doc_protocol d) \<and> list_all name_char (doc_language d) \<and>
     fst (doc_speed d) \<noteq> [] \<and> list_all is_digit (fst (doc_speed d)) \<and>
     list_all is_digit (snd (doc_speed d)) \<and>
     is_name (doc_master d) \<and> list_all is_name (doc_slaves d) \<and>
     list_all signal_ok (doc_signals d) \<and> distinct (map ls_name (doc_signals d)) \<and>
     list_all frame_ok (doc_frames d) \<and> distinct (map lf_name (doc_frames d)) \<and>
     distinct (map lf_id (doc_frames d)) \<and>
     list_all (table_ok (doc_frames d)) (doc_tables d) \<and> distinct (map fst (doc_tables d))"

section \<open>What a printed line does\<close>

text \<open>The start of \<open>name: \<dots>;\<close>, once the semicolon is gone.\<close>

lemma take_drop_colon:
  "take (length n) (n @ CHR '':'' # s) = n" "drop (Suc (length n)) (n @ CHR '':'' # s) = s"
  by simp_all

lemma signal_eta:
  "\<lparr>ls_name = ls_name s, ls_width = ls_width s, ls_init = ls_init s,
     ls_publisher = ls_publisher s, ls_subscribers = ls_subscribers s\<rparr> = s"
  "ls_subscribers s = [] \<Longrightarrow> \<lparr>ls_name = ls_name s, ls_width = ls_width s,
     ls_init = ls_init s, ls_publisher = ls_publisher s, ls_subscribers = []\<rparr> = s"
  by (cases s; simp)+

lemma signal_line_print:
  assumes "signal_ok s"
  shows "signal_line (print_signal s) db = put_signal s db"
proof -
  let ?w = "dec_string (unat (ls_width s))" and ?i = "dec_string (unat (ls_init s))"
  let ?ps = "comma_list (ls_publisher s # ls_subscribers s)"
  let ?b = "?w @ CHR '','' # CHR '' '' # ?i @ CHR '','' # CHR '' '' # ?ps"
  let ?l = "ls_name s @ CHR '':'' # CHR '' '' # ?b"
  have ok: "is_name (ls_name s)" "is_name (ls_publisher s)" "list_all is_name (ls_subscribers s)"
    "unat (ls_width s) < 2 ^ 63" "unat (ls_init s) < 2 ^ 53"
    using assms by (simp_all add: signal_ok_def)
  have framed: "framed ?b" "framed ?l" using ok by (simp_all add: ldf_text)
  have line: "trim (trim_end_matches (CHR '';'') (print_signal s)) = ?l"
    using framed trim_end_matches_snoc [of "CHR '';''" ?l]
    by (simp add: print_signal_def framed_trim_end_matches framed_solid trim_solid)
  have colon: "find_char (CHR '':'') ?l = Some (length (ls_name s))"
    using ok by (simp add: ldf_text)
  have body: "trim (drop (Suc (length (ls_name s))) ?l) = ?b"
    using framed by (simp add: framed_solid trim_solid)
  have parts: "splitn_char 4 (CHR '','') ?b = [?w, CHR '' '' # ?i, CHR '' '' # ls_publisher s] @
      (if ls_subscribers s = [] then [] else [CHR '' '' # comma_list (ls_subscribers s)])"
  proof -
    have i: "find_char (CHR '','') (CHR '' '' # ?i @ CHR '','' # t) = Some (Suc (length ?i))" for t
      using find_char_some [of "CHR '',''" "CHR '' '' # ?i" t] by (simp add: ldf_text)
    have p: "find_char (CHR '','') (CHR '' '' # ls_publisher s @ CHR '','' # t) =
        Some (Suc (length (ls_publisher s)))" for t
      using find_char_some [of "CHR '',''" "CHR '' '' # ls_publisher s" t] ok by (simp add: ldf_text)
    show ?thesis
      using ok by (cases "ls_subscribers s") (simp_all add: splitn_char_numeral ldf_text i p)
  qed
  show ?thesis
    using ok
    by (simp add: signal_line_def Let_def line colon body parts ldf_text split_comma_space
        signal_eta put_signal_def del: split_char.simps)
qed

lemma frame_line_print:
  assumes "is_name (ref_name r)" and "unat (ref_offset r) < 2 ^ 63"
  shows "frame_line (print_ref r) f = f\<lparr>lf_signals := lf_signals f @ [r]\<rparr>"
proof -
  let ?o = "dec_string (unat (ref_offset r))"
  let ?l = "ref_name r @ CHR '','' # CHR '' '' # ?o"
  have framed: "framed ?l" using assms by (simp add: ldf_text)
  then have "trim (trim_end_matches (CHR '';'') (print_ref r)) = ?l"
    using trim_end_matches_snoc [of "CHR '';''" ?l]
    by (simp add: print_ref_def framed_trim_end_matches framed_solid trim_solid)
  moreover have "splitn_char 2 (CHR '','') ?l = [ref_name r, CHR '' '' # ?o]"
    using assms by (simp add: splitn_char_numeral ldf_text)
  ultimately show ?thesis
    using assms by (simp add: frame_line_def Let_def ldf_text)
qed

lemma fold_frame_line:
  "list_all (\<lambda>r. is_name (ref_name r) \<and> unat (ref_offset r) < 2 ^ 63) rs \<Longrightarrow>
     fold frame_line (map print_ref rs) f = f\<lparr>lf_signals := lf_signals f @ rs\<rparr>"
  by (induction rs arbitrary: f) (simp_all add: frame_line_print)

lemma of_nat_u8: "of_int (int (unat (i :: u8))) = i"
  by simp

lemma parse_frame_header_print:
  assumes "frame_ok f"
  shows "parse_frame_header (hd (print_frame f)) = Some (f\<lparr>lf_signals := []\<rparr>)"
proof -
  let ?i = "dec_string (unat (lf_id f))" and ?n = "dec_string (unat (lf_length f))"
  let ?b = "?i @ CHR '','' # CHR '' '' # lf_publisher f @ CHR '','' # CHR '' '' # ?n"
  let ?l = "lf_name f @ CHR '':'' # CHR '' '' # ?b"
  have ok: "is_name (lf_name f)" "is_name (lf_publisher f)" "unat (lf_length f) < 2 ^ 63"
    "unat (lf_id f) < 2 ^ 63"
    using assms unsigned_less [where 'a = nat, of "lf_id f"] by (simp_all add: frame_ok_def)
  have framed: "framed ?b" "framed ?l" using ok by (simp_all add: ldf_text)
  have "trim_end_matches (CHR ''{'') (?l @ '' {'') = ?l @ '' ''"
    using trim_end_matches_snoc [of "CHR ''{''" "?l @ '' ''"]
    by (simp add: trim_end_matches_other)
  then have line: "trim (trim_end_matches (CHR ''{'') (hd (print_frame f))) = ?l"
    using framed trim_solid(3) [of ?l]
    by (simp add: print_frame_def block_def framed_solid)
  have colon: "find_char (CHR '':'') ?l = Some (length (lf_name f))"
    using ok by (simp add: ldf_text)
  have body: "trim (drop (Suc (length (lf_name f))) ?l) = ?b"
    using framed by (simp add: framed_solid trim_solid)
  have parts: "split_char (CHR '','') ?b = [?i, CHR '' '' # lf_publisher f, CHR '' '' # ?n]"
    using ok split_char_some [of "CHR '',''" "CHR '' '' # lf_publisher f" "CHR '' '' # ?n"]
    by (simp add: ldf_text)
  show ?thesis
    using ok by (simp add: parse_frame_header_def Let_def line colon body parts ldf_text)
qed

lemma fold_signal_line:
  "list_all signal_ok ss \<Longrightarrow>
     fold signal_line (map print_signal ss) db =
       fold put_signal ss db"
  by (induction ss arbitrary: db) (simp_all add: signal_line_print)

lemma frame_named_unique:
  assumes "fs i = Some f" and "lf_name f = name"
    and unique: "\<forall>j g. fs j = Some g \<and> lf_name g = name \<longrightarrow> j = i"
  shows "i \<in> set is \<Longrightarrow> frame_named fs name is = i"
proof (induction "is")
  case (Cons a as)
  show ?case
  proof (cases "\<exists>g. fs a = Some g \<and> lf_name g = name")
    case True
    with unique have "a = i" by blast
    with assms(1,2) show ?thesis by simp
  next
    case False
    with assms(1,2) have "a \<noteq> i" by auto
    with Cons have "frame_named fs name as = i" by auto
    with False show ?thesis by (auto split: option.split)
  qed
qed simp

text \<open>Every iteration order of a hash map lists exactly its keys.\<close>

definition iterates :: "((u8 \<rightharpoonup> ldf_frame) \<Rightarrow> u8 list) \<Rightarrow> bool" where
  "iterates iter \<longleftrightarrow> (\<forall>m. set (iter m) = dom m)"

lemma frames_of_Some:
  "distinct (map lf_id fs) \<Longrightarrow> frames_of fs i = Some f \<longleftrightarrow> f \<in> set fs \<and> lf_id f = i"
  by (auto simp: frames_of_def o_def map_of_eq_Some_iff)

lemma frame_id_by_name_print:
  assumes "iterates iter" and "db_frames db = frames_of fs"
    and "distinct (map lf_name fs)" and "distinct (map lf_id fs)"
    and "f \<in> set fs" and "lf_name f = n"
  shows "frame_id_by_name iter db n = lf_id f \<and>
    map_of (map (\<lambda>f. (lf_name f, lf_id f)) fs) n = Some (lf_id f)"
proof
  have f: "frames_of fs (lf_id f) = Some f"
    using assms by (simp add: frames_of_Some)
  show "frame_id_by_name iter db n = lf_id f"
    unfolding frame_id_by_name_def assms(2)
  proof (rule frame_named_unique [where f = f])
    show "lf_id f \<in> set (iter (frames_of fs))"
      using assms(1) f by (auto simp: iterates_def)
    show "\<forall>j g. frames_of fs j = Some g \<and> lf_name g = n \<longrightarrow> j = lf_id f"
      using assms(3-6) by (auto simp: frames_of_Some distinct_map dest: inj_onD)
  qed (use f assms in simp_all)
  show "map_of (map (\<lambda>f. (lf_name f, lf_id f)) fs) n = Some (lf_id f)"
    using assms(3,5,6) by (auto simp: map_of_eq_Some_iff o_def)
qed

lemma is_name_delay: "is_name ''delay''" "is_name ''ms''"
  by code_simp+

lemma schedule_line_print:
  assumes db: "iterates iter" "db_frames db = frames_of fs"
    and fs: "distinct (map lf_name fs)" "distinct (map lf_id fs)" "list_all frame_ok fs"
    and e: "fst e \<in> set (map lf_name fs)" "\<not> starts_with ''AssignFrameId'' (fst e)"
  shows "schedule_line iter db (print_entry e) es = es @ [entry_of fs e]"
proof -
  let ?d = "dec_string (unat (snd e))"
  let ?l = "fst e @ '' delay '' @ ?d @ '' ms''"
  obtain f where f: "f \<in> set fs" "lf_name f = fst e" using e by auto
  then have name: "is_name (fst e)" and max: "lf_id f \<le> LIN_MAX_ID"
    using fs by (auto simp: list_all_iff frame_ok_def)
  have framed: "framed ?l"
    using framed_append(1) [OF framed_name [OF name]
        framed_append(1) [OF framed_name [OF is_name_delay(1)]
          framed_append(1) [OF framed_name framed_name [OF is_name_delay(2)]]]]
      is_name_dec_string by simp
  then have line: "trim (trim_end_matches (CHR '';'') (print_entry e)) = ?l"
    using trim_end_matches_snoc [of "CHR '';''" ?l]
    by (simp add: print_entry_def framed_trim_end_matches framed_solid trim_solid)
  have words: "split_whitespace ?l = [fst e, ''delay'', ?d, ''ms'']"
    using split_whitespace_word [OF name, of "''delay '' @ ?d @ '' ms''"]
      split_whitespace_word [OF is_name_delay(1), of "?d @ '' ms''"]
      split_whitespace_word [OF is_name_dec_string, of "unat (snd e)" "''ms''"]
      split_whitespace_last [OF is_name_delay(2)] by simp
  have assign: "\<not> starts_with ''AssignFrameId'' ?l"
    using e starts_with_word [of "''AssignFrameId''" "fst e" "''delay '' @ ?d @ '' ms''"] by simp
  have delay: "parse_uint ?d = Some (of_nat (unat (snd e)))"
    using unsigned_less [where 'a = nat, of "snd e"] by (simp add: parse_uint_dec_string)
  have u32: "ucast (of_nat (unat (snd e)) :: u64) = snd e"
    by (rule bit_word_eqI) (simp add: bit_simps)
  note ids = frame_id_by_name_print [OF db fs(1,2) f]
  show ?thesis
    unfolding schedule_line_def Let_def line words
    using assign delay u32 ids max by (simp add: eq_ignore_ascii_case_def entry_of_def)
qed

lemma fold_schedule_line:
  assumes "iterates iter" "db_frames db = frames_of fs"
    and "distinct (map lf_name fs)" "distinct (map lf_id fs)" "list_all frame_ok fs"
    and "list_all (\<lambda>e. fst e \<in> set (map lf_name fs) \<and> \<not> starts_with ''AssignFrameId'' (fst e)) t"
  shows "fold (schedule_line iter db) (map print_entry t) es = es @ map (entry_of fs) t"
  using assms(6)
  by (induction t arbitrary: es) (simp_all add: schedule_line_print [OF assms(1-5)])

section \<open>Sections\<close>

lemma nodes_print:
  assumes "is_name (doc_master d)" and "list_all is_name (doc_slaves d)"
  shows "fold nodes_line (print_nodes d) db =
    db\<lparr>db_master_node := doc_master d, db_slave_nodes := db_slave_nodes db @ doc_slaves d\<rparr>"
proof -
  let ?m = "doc_master d @ '', 5 ms, 0.1 ms;''" and ?s = "comma_list (doc_slaves d) @ '';''"
  have "solid ?m" using assms(1) by (simp add: solid_def is_name_hd is_name_nonempty hd_append)
  then have "trim (trim_start_matches ''Master:'' (''Master: '' @ ?m)) = ?m"
    using trim_start_matches_once [of "''Master:''" "'' '' @ ?m"] by (simp add: trim_solid)
  then have master: "nodes_line (''Master: '' @ ?m) db = db\<lparr>db_master_node := doc_master d\<rparr>" for db
    using assms(1) by (simp add: nodes_line_def Let_def ldf_text)
  have "solid ?s"
    using framed_comma_list [OF assms(2)]
    by (cases "doc_slaves d = []") (auto simp: solid_def framed_def name_char_def hd_append)
  then have rest: "trim (trim_start_matches ''Slaves:'' (''Slaves: '' @ ?s)) = ?s"
    using trim_start_matches_once [of "''Slaves:''" "'' '' @ ?s"] by (simp add: trim_solid)
  have "trim_end_matches (CHR '';'') ?s = comma_list (doc_slaves d)"
    using framed_comma_list [OF assms(2)]
    by (cases "doc_slaves d = []")
      (simp_all add: trim_end_matches_snoc framed_trim_end_matches trim_end_matches_other [of "[]"]
        trim_end_matches_snoc [of _ "[]", simplified])
  with rest have slaves: "nodes_line (''Slaves: '' @ ?s) db =
      db\<lparr>db_slave_nodes := db_slave_nodes db @ doc_slaves d\<rparr>" for db
    using split_comma [OF assms(2)] by (simp add: nodes_line_def Let_def)
  show ?thesis
    using master slaves by (simp add: print_nodes_def)
qed

text \<open>A line inside a section: neither a closing brace nor one that starts with a brace.\<close>

definition body_line :: "string \<Rightarrow> bool" where
  "body_line l \<longleftrightarrow> l \<noteq> ''}'' \<and> \<not> starts_with ''{'' l"

lemma body_line_framed: "framed s \<Longrightarrow> body_line (s @ t)"
  using framed_not_brace [of s t] by (simp add: body_line_def)

lemma body_lines:
  "list_all body_line ls \<Longrightarrow> list_all (\<lambda>l. l \<noteq> ''}'') ls"
  by (simp add: body_line_def list_all_iff)

lemma skip_body:
  "rest p = ls @ ''}'' # r \<Longrightarrow> list_all body_line ls \<Longrightarrow> skip_brace p = p"
  by (cases ls) (auto simp: body_line_def intro: rest_skip_brace)

lemma body_line_signal: "signal_ok s \<Longrightarrow> body_line (print_signal s)"
  by (simp add: print_signal_def signal_ok_def body_line_framed framed_name)

lemma body_line_frame: "frame_ok f \<Longrightarrow> body_line (hd (print_frame f))"
  by (simp add: print_frame_def block_def frame_ok_def body_line_framed framed_name)

lemma frames_loop_print:
  "list_all frame_ok fs \<Longrightarrow> rest p = concat (map print_frame fs) @ ''}'' # r \<Longrightarrow>
     rest (fst (frames_loop p db)) = r \<and>
     snd (frames_loop p db) = fold put_frame fs db"
proof (induction fs arbitrary: p db)
  case Nil
  then show ?case by (simp add: frames_loop.simps peek_rest)
next
  case (Cons f fs)
  let ?h = "hd (print_frame f)" and ?ls = "map print_ref (lf_signals f)"
  have f: "frame_ok f" "list_all frame_ok fs" using Cons.prems by simp_all
  have refs: "list_all (\<lambda>r. is_name (ref_name r) \<and> unat (ref_offset r) < 2 ^ 63) (lf_signals f)"
    using f by (simp add: frame_ok_def)
  then have "list_all (\<lambda>l. l \<noteq> ''}'') ?ls"
    by (auto simp: list_all_iff print_ref_def dest: framed_name framed_not_brace)
  moreover have "f = fold frame_line ?ls (f\<lparr>lf_signals := []\<rparr>)"
    using refs by (simp add: fold_frame_line)
  moreover have "print_frame f = block ?h ?ls"
    by (simp add: print_frame_def block_def)
  then have "rest p = block ?h ?ls @ concat (map print_frame fs) @ ''}'' # r"
    using Cons.prems by simp
  moreover have "?h \<noteq> ''}''" "CHR ''{'' \<in> set ?h"
    using body_line_frame [OF f(1)] by (simp_all add: body_line_def print_frame_def block_def)
  ultimately obtain q where "rest q = concat (map print_frame fs) @ ''}'' # r"
    "frames_loop p db = frames_loop q (put_frame f db)"
    using frames_loop_block parse_frame_header_print [OF f(1)] by blast
  with Cons.IH [OF f(2)] show ?case by simp
qed

lemma tables_loop_print:
  assumes "iterates iter"
    and "distinct (map lf_name fs)" "distinct (map lf_id fs)" "list_all frame_ok fs"
  shows "list_all (table_ok fs) ts \<Longrightarrow> db_frames db = frames_of fs \<Longrightarrow>
    rest p = concat (map print_table ts) @ ''}'' # r \<Longrightarrow>
     rest (fst (tables_loop iter p db)) = r \<and>
     snd (tables_loop iter p db) =
       fold (put_table fs) ts db"
proof (induction ts arbitrary: p db)
  case Nil
  then show ?case by (simp add: tables_loop.simps peek_rest)
next
  case (Cons t ts)
  let ?h = "fst t @ '' {''" and ?ls = "map print_entry (snd t)"
  have "table_ok fs t" and ts: "list_all (table_ok fs) ts"
    using Cons.prems by simp_all
  then have t: "is_name (fst t)" and entries: "list_all (\<lambda>e. fst e \<in> set (map lf_name fs) \<and>
      \<not> starts_with ''AssignFrameId'' (fst e)) (snd t)"
    by (simp_all add: table_ok_def)
  have "body_line (print_entry e)" if "e \<in> set (snd t)" for e
    using that entries assms(4)
    by (auto simp: print_entry_def list_all_iff frame_ok_def intro!: body_line_framed framed_name)
  then have "list_all (\<lambda>l. l \<noteq> ''}'') ?ls"
    by (auto simp: list_all_iff body_line_def)
  moreover have "rest p = block ?h ?ls @ concat (map print_table ts) @ ''}'' # r"
    using Cons.prems print_table_def [of t] by simp
  moreover have "?h \<noteq> ''}''" "ends_with_char (CHR ''{'') ?h"
    by (simp_all add: ends_with_char_def append_eq_Cons_conv)
  moreover have "fst t = trim (trim_end_matches (CHR ''{'') ?h)"
    using trim_end_matches_snoc [of "CHR ''{''" "fst t @ '' ''"] t
    by (simp add: trim_end_matches_other trim_solid is_name_solid)
  moreover have "map (entry_of fs) (snd t) = fold (schedule_line iter db) ?ls []"
    using fold_schedule_line [OF assms(1) Cons.prems(2) assms(2-4) entries] by simp
  ultimately obtain q where "rest q = concat (map print_table ts) @ ''}'' # r"
    "tables_loop iter p db =
       tables_loop iter q (put_table fs t db)"
    using tables_loop_block unfolding put_table_def by blast
  moreover have "db_frames (put_table fs t db) = frames_of fs"
    using Cons.prems(2) by (simp add: put_table_def put_schedule_def)
  ultimately show ?case using Cons.IH [OF ts] by simp
qed

section \<open>The whole file\<close>

text \<open>One turn of the top loop.\<close>

lemma parse_top_line:
  "rest p = l # r \<Longrightarrow> parse_top iter p db =
     (if starts_with ''LIN_protocol_version'' l then
        parse_top iter (advance p) (db\<lparr>db_protocol_version := extract_quoted l\<rparr>)
      else if starts_with ''LIN_language_version'' l then
        parse_top iter (advance p) (db\<lparr>db_language_version := extract_quoted l\<rparr>)
      else if starts_with ''LIN_speed'' l then
        parse_top iter (advance p) (db\<lparr>db_speed_kbps := extract_float l\<rparr>)
      else if starts_with ''Nodes'' l then
        (let r = parse_nodes (advance p) db in parse_top iter (fst r) (snd r))
      else if starts_with ''Signals'' l then
        (let r = parse_signals (advance p) db in parse_top iter (fst r) (snd r))
      else if starts_with ''Frames'' l then
        (let r = parse_frames (advance p) db in parse_top iter (fst r) (snd r))
      else if starts_with ''Schedule_tables'' l then
        (let r = parse_schedule_tables iter (advance p) db in parse_top iter (fst r) (snd r))
      else parse_top iter (advance p) db)"
  by (subst parse_top.simps) (simp add: peek_rest)

lemma top_skip:
  assumes "rest p = ''LIN_description_file;'' # r"
  shows "\<exists>q. rest q = r \<and> parse_top iter p db = parse_top iter q db"
  by (rule exI [of _ "advance p"]) (simp add: parse_top_line [OF assms] assms)

lemma extract_quoted_print:
  assumes "list_all name_char v" and "CHR 0x22 \<notin> set s"
  shows "extract_quoted (s @ CHR 0x22 # v @ CHR 0x22 # t) = v"
proof -
  have "CHR 0x22 \<notin> set v" using assms(1) not_name_char(8) by (auto simp only: list_all_iff)
  then show ?thesis
    using assms(2) by (simp add: extract_quoted_def find_char_some)
qed

lemma top_protocol:
  assumes "rest p = (''LIN_protocol_version = '' @ [CHR 0x22] @ v @ [CHR 0x22] @ '';'') # r"
    and "list_all name_char v"
  shows "\<exists>q. rest q = r \<and> parse_top iter p db = parse_top iter q (db\<lparr>db_protocol_version := v\<rparr>)"
  using extract_quoted_print [OF assms(2), of "''LIN_protocol_version = ''" "'';''"]
  by (intro exI [of _ "advance p"]) (simp add: parse_top_line [OF assms(1)] assms(1))

lemma top_language:
  assumes "rest p = (''LIN_language_version = '' @ [CHR 0x22] @ v @ [CHR 0x22] @ '';'') # r"
    and "list_all name_char v"
  shows "\<exists>q. rest q = r \<and> parse_top iter p db = parse_top iter q (db\<lparr>db_language_version := v\<rparr>)"
  using extract_quoted_print [OF assms(2), of "''LIN_language_version = ''" "'';''"]
  by (intro exI [of _ "advance p"]) (simp add: parse_top_line [OF assms(1)] assms(1))

lemma name_not_number: "parse_f64 ''LIN_speed'' = None" "parse_f64 ''='' = None"
  by code_simp+

lemma extract_float_print:
  assumes "ds \<noteq> []" "list_all is_digit ds" "list_all is_digit fs"
  shows "extract_float (''LIN_speed = '' @ ds @ ''.'' @ fs @ '' kbps;'') =
    round_f64 False (decimal (ds @ fs)) (10 ^ length fs)"
proof -
  let ?n = "ds @ ''.'' @ fs"
  have "list_all ink ''LIN_speed''" "list_all ink ''=''" by code_simp+
  moreover have "list_all ink ds" "list_all ink fs" "ink (CHR ''.'')"
    using assms by (auto simp: list_all_iff is_digit_def ink_def byte_of_def)
  ultimately have "split_whitespace (''LIN_speed = '' @ ?n @ '' kbps;'') =
      ''LIN_speed'' # ''='' # ?n # split_whitespace ''kbps;''"
    using split_whitespace_ink [of "''LIN_speed''" "''= '' @ ?n @ '' kbps;''"]
      split_whitespace_ink [of "''=''" "?n @ '' kbps;''"]
      split_whitespace_ink [of ?n "''kbps;''"] by simp
  moreover have "trim_end_matches (CHR '';'') ''LIN_speed'' = ''LIN_speed''"
    "trim_end_matches (CHR '';'') ''='' = ''=''"
    by (rule trim_end_matches_other; simp)+
  moreover have "\<forall>c \<in> set fs. c \<noteq> CHR '';''"
    using assms(3) by (auto simp: list_all_iff is_digit_def byte_of_def)
  then have "trim_end_matches (CHR '';'') ?n = ?n"
    by (intro trim_end_matches_other) (cases fs rule: rev_cases; simp)
  ultimately show ?thesis
    using parse_f64_digits [OF assms, of ?n] by (simp add: extract_float_def name_not_number)
qed

lemma top_speed:
  assumes "rest p = (''LIN_speed = '' @ ds @ ''.'' @ fs @ '' kbps;'') # r"
    and "ds \<noteq> []" "list_all is_digit ds" "list_all is_digit fs"
  shows "\<exists>q. rest q = r \<and> parse_top iter p db =
    parse_top iter q (db\<lparr>db_speed_kbps := round_f64 False (decimal (ds @ fs)) (10 ^ length fs)\<rparr>)"
  using extract_float_print [OF assms(2-4)]
  by (intro exI [of _ "advance p"]) (simp add: parse_top_line [OF assms(1)] assms(1))

lemma top_nodes:
  assumes "rest p = block ''Nodes {'' ls @ r" and "list_all body_line ls"
  shows "\<exists>q. rest q = r \<and> parse_top iter p db = parse_top iter q (fold nodes_line ls db)"
proof -
  have r: "rest (advance p) = ls @ ''}'' # r" and l: "rest p = ''Nodes {'' # ls @ ''}'' # r"
    using assms(1) by (simp_all add: block_def)
  from nodes_loop_fold [OF r body_lines [OF assms(2)], of db] show ?thesis
    by (intro exI [of _ "fst (parse_nodes (advance p) db)"])
      (simp add: parse_top_line [OF l] parse_nodes_def skip_body [OF r assms(2)] Let_def)
qed

lemma top_signals:
  assumes "rest p = block ''Signals {'' (map print_signal ss) @ r" and "list_all signal_ok ss"
  shows "\<exists>q. rest q = r \<and> parse_top iter p db = parse_top iter q (fold put_signal ss db)"
proof -
  let ?ls = "map print_signal ss"
  have r: "rest (advance p) = ?ls @ ''}'' # r" and l: "rest p = ''Signals {'' # ?ls @ ''}'' # r"
    using assms(1) by (simp_all add: block_def)
  have b: "list_all body_line ?ls"
    using assms(2) by (auto simp: list_all_iff body_line_signal)
  from signals_loop_fold [OF r body_lines [OF b], of db] show ?thesis
    by (intro exI [of _ "fst (parse_signals (advance p) db)"])
      (simp add: parse_top_line [OF l] parse_signals_def skip_body [OF r b] Let_def
        fold_signal_line [OF assms(2)])
qed

lemma top_frames:
  assumes "rest p = block ''Frames {'' (concat (map print_frame fs)) @ r" and "list_all frame_ok fs"
  shows "\<exists>q. rest q = r \<and> parse_top iter p db = parse_top iter q (fold put_frame fs db)"
proof -
  let ?ls = "concat (map print_frame fs)"
  have r: "rest (advance p) = ?ls @ ''}'' # r" and l: "rest p = ''Frames {'' # ?ls @ ''}'' # r"
    using assms(1) by (simp_all add: block_def)
  have "skip_brace (advance p) = advance p"
  proof (cases fs)
    case Nil
    then show ?thesis using r by (intro rest_skip_brace [of _ "''}''" r]) simp_all
  next
    case (Cons f gs)
    then have "body_line (hd (print_frame f))" using assms(2) by (simp add: body_line_frame)
    then show ?thesis
      using r Cons by (intro rest_skip_brace) (auto simp: print_frame_def block_def body_line_def)
  qed
  with frames_loop_print [OF assms(2) r, of db] show ?thesis
    by (intro exI [of _ "fst (parse_frames (advance p) db)"])
      (simp add: parse_top_line [OF l] parse_frames_def Let_def)
qed

lemma top_tables:
  assumes "rest p = block ''Schedule_tables {'' (concat (map print_table ts)) @ r"
    and "list_all (table_ok fs) ts" and "db_frames db = frames_of fs"
    and "iterates iter" "distinct (map lf_name fs)" "distinct (map lf_id fs)" "list_all frame_ok fs"
  shows "\<exists>q. rest q = r \<and> parse_top iter p db = parse_top iter q (fold (put_table fs) ts db)"
proof -
  let ?ls = "concat (map print_table ts)"
  have r: "rest (advance p) = ?ls @ ''}'' # r"
    and l: "rest p = ''Schedule_tables {'' # ?ls @ ''}'' # r"
    using assms(1) by (simp_all add: block_def)
  have "skip_brace (advance p) = advance p"
  proof (cases ts)
    case Nil
    then show ?thesis using r by (intro rest_skip_brace [of _ "''}''" r]) simp_all
  next
    case (Cons t us)
    then have "is_name (fst t)" using assms(2) by (simp add: table_ok_def)
    then have "\<not> starts_with ''{'' (fst t @ '' {'')"
      by (simp add: framed_name framed_not_brace)
    then show ?thesis
      using r Cons by (intro rest_skip_brace) (auto simp: print_table_def block_def)
  qed
  with tables_loop_print [OF assms(4-7) assms(2,3) r] show ?thesis
    by (intro exI [of _ "fst (parse_schedule_tables iter (advance p) db)"])
      (simp add: parse_top_line [OF l] parse_schedule_tables_def Let_def)
qed

section \<open>Reading the printed text\<close>

definition text_line :: "string \<Rightarrow> bool" where
  "text_line l \<longleftrightarrow> l \<noteq> [] \<and> ink (hd l) \<and> ink (last l) \<and> list_all plain l"

lemma utf8_ascii: "list_all (\<lambda>b. b < 0x80) bs \<Longrightarrow> utf8_valid bs"
  by (induction bs) auto

lemma find_sub_none: "CHR ''/'' \<notin> set s \<Longrightarrow> find_sub ''//'' s = None"
  by (induction s) (auto simp: find_sub.simps starts_with_def)

lemma plain_ascii: "plain c \<Longrightarrow> byte_of c < 0x80"
  by (simp add: plain_def)

lemma not_plain: "\<not> plain (CHR 0x0A)" "\<not> plain (CHR ''/'')"
  by (simp_all add: plain_def byte_of_def)

lemma text_line_clean:
  assumes "text_line l"
  shows "utf8_valid (map byte_of l)" "clean_line (strip_cr l) = l" "CHR 0x0A \<notin> set l"
proof -
  have p: "\<forall>c \<in> set l. plain c" using assms by (simp add: text_line_def list_all_iff)
  then show "utf8_valid (map byte_of l)"
    by (intro utf8_ascii) (simp add: list_all_iff plain_ascii)
  show "CHR 0x0A \<notin> set l" using p not_plain by blast
  have "CHR ''/'' \<notin> set l" using p not_plain by blast
  moreover have "strip_cr l = l"
    using assms by (auto simp: strip_cr_def text_line_def ink_def byte_of_def)
  moreover have "solid l" using assms by (simp add: text_line_def solid_def)
  ultimately show "clean_line (strip_cr l) = l"
    by (simp add: clean_line_def find_sub_none trim_solid)
qed

lemma raw_lines_line:
  "CHR 0x0A \<notin> set l \<Longrightarrow> raw_lines (l @ CHR 0x0A # s) = (l # fst (raw_lines s), snd (raw_lines s))"
  by (induction l) (auto simp: Let_def)

lemma raw_lines_print:
  "list_all text_line ls \<Longrightarrow> raw_lines (concat (map (\<lambda>l. l @ [CHR 0x0A]) ls)) = (ls, [])"
  by (induction ls) (simp_all add: raw_lines_line text_line_clean)

lemma read_complete_print: "list_all text_line ls \<Longrightarrow> read_complete ls acc = Inr (acc @ ls)"
proof (induction ls arbitrary: acc)
  case (Cons l ls)
  then have "l \<noteq> []" by (simp add: text_line_def)
  with Cons show ?case by (simp add: text_line_clean)
qed simp

lemma read_lines_print:
  "list_all text_line ls \<Longrightarrow> read_lines (concat (map (\<lambda>l. l @ [CHR 0x0A]) ls)) None = Inr ls"
  by (simp add: read_lines_def raw_lines_print read_complete_print)

lemma plain_literals [simp]:
  "list_all plain '', ''" "plain (CHR '','')" "plain (CHR '' '')" "plain (CHR '';'')"
  "plain (CHR '':'')" "plain (CHR ''{'')" "plain (CHR 0x22)" "plain (CHR ''.'')"
  by (simp_all add: plain_def byte_of_def)

lemma plain_digits: "list_all is_digit ds \<Longrightarrow> list_all plain ds"
  by (auto simp: list_all_iff intro: name_char_plain digit_name_char)

lemma plain_names: "list_all name_char s \<Longrightarrow> list_all plain s"
  by (auto simp: list_all_iff intro: name_char_plain)

lemma text_line_framed:
  "framed a \<Longrightarrow> list_all plain a \<Longrightarrow> list_all plain b \<Longrightarrow> b \<noteq> [] \<Longrightarrow> ink (last b) \<Longrightarrow> text_line (a @ b)"
  by (simp add: text_line_def framed_def name_char_def)

lemma text_line_signal: "signal_ok s \<Longrightarrow> text_line (print_signal s)"
  unfolding print_signal_def
  by (rule text_line_framed) (auto simp: signal_ok_def ldf_text)

lemma text_line_ref: "is_name (ref_name r) \<Longrightarrow> text_line (print_ref r)"
  unfolding print_ref_def by (rule text_line_framed) (auto simp: ldf_text)

lemma text_line_frame: "frame_ok f \<Longrightarrow> list_all text_line (print_frame f)"
proof -
  assume f: "frame_ok f"
  then have "text_line (hd (print_frame f))"
    unfolding print_frame_def block_def list.sel
    by (intro text_line_framed) (auto simp: frame_ok_def ldf_text)
  moreover have "text_line ''}''" by code_simp
  moreover have "list_all text_line (map print_ref (lf_signals f))"
    using f by (auto simp: frame_ok_def list_all_iff intro: text_line_ref)
  ultimately show ?thesis by (simp add: print_frame_def block_def)
qed

lemma text_line_table:
  assumes "table_ok fs t" and "list_all frame_ok fs"
  shows "list_all text_line (print_table t)"
proof -
  have "text_line (print_entry e)" if "e \<in> set (snd t)" for e
  proof -
    have "is_name (fst e)"
      using that assms by (auto simp: table_ok_def list_all_iff frame_ok_def)
    moreover have "list_all plain '' delay ''" "list_all plain '' ms;''" by code_simp+
    ultimately show ?thesis
      unfolding print_entry_def by (intro text_line_framed) (auto simp: ldf_text)
  qed
  moreover have "text_line (fst t @ '' {'')"
    using assms by (intro text_line_framed) (auto simp: table_ok_def ldf_text)
  moreover have "text_line ''}''" by code_simp
  ultimately show ?thesis by (auto simp: print_table_def block_def list_all_iff)
qed

text \<open>A line that starts with a literal.\<close>

lemma text_line_literal:
  "ink c \<Longrightarrow> list_all plain (c # a) \<Longrightarrow> list_all plain b \<Longrightarrow> ink (last b) \<Longrightarrow> b \<noteq> [] \<Longrightarrow>
     text_line ((c # a) @ b)"
  by (simp add: text_line_def)

lemma text_lines_print:
  assumes "doc_ok d"
  shows "list_all text_line (print_lines d)"
proof -
  have lits: "text_line ''LIN_description_file;''" "text_line ''Nodes {''" "text_line ''Signals {''"
    "text_line ''Frames {''" "text_line ''Schedule_tables {''" "text_line ''}''"
    by code_simp+
  have pres: "list_all plain ''LIN_protocol_version = ''" "list_all plain ''LIN_language_version = ''"
    "list_all plain ''LIN_speed = ''" "list_all plain '' kbps;''" "list_all plain ''Master: ''"
    "list_all plain '', 5 ms, 0.1 ms;''" "list_all plain ''Slaves: ''" "ink (CHR ''L'')"
    "ink (CHR ''M'')" "ink (CHR ''S'')"
    by code_simp+
  have v: "list_all plain (doc_protocol d)" "list_all plain (doc_language d)"
    "list_all plain (fst (doc_speed d))" "list_all plain (snd (doc_speed d))"
    "list_all plain (doc_master d)" "list_all plain (comma_list (doc_slaves d))"
    using assms by (auto simp: doc_ok_def plain_digits plain_names plain_name plain_comma_list)
  have head: "text_line (''LIN_protocol_version = '' @ [CHR 0x22] @ doc_protocol d @ [CHR 0x22] @ '';'')"
    "text_line (''LIN_language_version = '' @ [CHR 0x22] @ doc_language d @ [CHR 0x22] @ '';'')"
    "text_line (''LIN_speed = '' @ fst (doc_speed d) @ ''.'' @ snd (doc_speed d) @ '' kbps;'')"
    "text_line (''Master: '' @ doc_master d @ '', 5 ms, 0.1 ms;'')"
    "text_line (''Slaves: '' @ comma_list (doc_slaves d) @ '';'')"
    by (intro text_line_literal; use v pres in simp)+
  have parts: "\<forall>s \<in> set (doc_signals d). signal_ok s" "\<forall>f \<in> set (doc_frames d). frame_ok f"
    "\<forall>t \<in> set (doc_tables d). table_ok (doc_frames d) t" "list_all frame_ok (doc_frames d)"
    using assms by (simp_all add: doc_ok_def list_all_iff)
  have "list_all text_line (map print_signal (doc_signals d))"
    using parts(1) by (simp add: list_all_iff text_line_signal)
  moreover have "list_all text_line (concat (map print_frame (doc_frames d)))"
    using parts(2) text_line_frame by (fastforce simp: list_all_iff)
  moreover have "list_all text_line (concat (map print_table (doc_tables d)))"
    using parts(3) text_line_table [OF _ parts(4)] by (fastforce simp: list_all_iff)
  ultimately show ?thesis
    using head lits by (simp add: print_lines_def print_nodes_def block_def)
qed

section \<open>The round trip\<close>

lemma fold_put:
  "fold put_signal ss db =
     db\<lparr>db_signals := fold (\<lambda>s m. m(ls_name s \<mapsto> s)) ss (db_signals db)\<rparr>"
  "fold put_frame fs db = db\<lparr>db_frames := fold (\<lambda>f m. m(lf_id f \<mapsto> f)) fs (db_frames db)\<rparr>"
  "fold (put_table gs) ts db = db\<lparr>db_schedules :=
     fold (\<lambda>t m. m(fst t \<mapsto> map (entry_of gs) (snd t))) ts (db_schedules db)\<rparr>"
proof -
  show "fold put_signal ss db =
      db\<lparr>db_signals := fold (\<lambda>s m. m(ls_name s \<mapsto> s)) ss (db_signals db)\<rparr>"
    by (induction ss arbitrary: db) (simp_all add: put_signal_def)
  show "fold put_frame fs db = db\<lparr>db_frames := fold (\<lambda>f m. m(lf_id f \<mapsto> f)) fs (db_frames db)\<rparr>"
    by (induction fs arbitrary: db) (simp_all add: put_frame_def)
  show "fold (put_table gs) ts db = db\<lparr>db_schedules :=
      fold (\<lambda>t m. m(fst t \<mapsto> map (entry_of gs) (snd t))) ts (db_schedules db)\<rparr>"
    by (induction ts arbitrary: db) (simp_all add: put_table_def put_schedule_def)
qed

lemma fold_update_distinct:
  "distinct (map k xs) \<Longrightarrow>
     fold (\<lambda>x m. m(k x \<mapsto> v x)) xs m = m ++ map_of (map (\<lambda>x. (k x, v x)) xs)"
proof (induction xs arbitrary: m)
  case (Cons x xs)
  then have "map_of (map (\<lambda>x. (k x, v x)) xs) (k x) = None"
    by (auto simp: map_of_eq_None_iff)
  then show ?case
    using Cons by (auto simp: fun_eq_iff map_add_def split: option.split)
qed simp

lemma parse_top_print:
  assumes d: "doc_ok d" and "iterates iter" and p: "rest p = print_lines d"
  shows "snd (parse_top iter p ldf_db_default) = db_of d"
proof -
  let ?v = "round_f64 False (decimal (fst (doc_speed d) @ snd (doc_speed d)))
    (10 ^ length (snd (doc_speed d)))"
  let ?db1 = "ldf_db_default\<lparr>db_protocol_version := doc_protocol d,
    db_language_version := doc_language d, db_speed_kbps := ?v\<rparr>"
  let ?db4 = "fold put_frame (doc_frames d) (fold put_signal (doc_signals d)
    (fold nodes_line (print_nodes d) ?db1))"
  have ok: "list_all name_char (doc_protocol d)" "list_all name_char (doc_language d)"
    "fst (doc_speed d) \<noteq> []" "list_all is_digit (fst (doc_speed d))"
    "list_all is_digit (snd (doc_speed d))" "is_name (doc_master d)"
    "list_all is_name (doc_slaves d)" "list_all signal_ok (doc_signals d)"
    "list_all frame_ok (doc_frames d)" "distinct (map lf_name (doc_frames d))"
    "distinct (map lf_id (doc_frames d))" "list_all (table_ok (doc_frames d)) (doc_tables d)"
    "distinct (map ls_name (doc_signals d))" "distinct (map fst (doc_tables d))"
    using d by (simp_all add: doc_ok_def)
  have nodes: "list_all body_line (print_nodes d)"
    by (simp add: print_nodes_def body_line_def)
  have frames: "db_frames ?db4 = frames_of (doc_frames d)"
    by (simp add: fold_put nodes_print [OF ok(6,7)] fold_update_distinct [OF ok(11)]
        frames_of_def ldf_db_default_def)
  let ?t = "block ''Schedule_tables {'' (concat (map print_table (doc_tables d))) @ []"
  let ?f = "block ''Frames {'' (concat (map print_frame (doc_frames d))) @ ?t"
  let ?s = "block ''Signals {'' (map print_signal (doc_signals d)) @ ?f"
  let ?n = "block ''Nodes {'' (print_nodes d) @ ?s"
  let ?h3 = "(''LIN_speed = '' @ fst (doc_speed d) @ ''.'' @ snd (doc_speed d) @ '' kbps;'') # ?n"
  let ?h2 = "(''LIN_language_version = '' @ [CHR 0x22] @ doc_language d @ [CHR 0x22] @ '';'') # ?h3"
  let ?h1 = "(''LIN_protocol_version = '' @ [CHR 0x22] @ doc_protocol d @ [CHR 0x22] @ '';'') # ?h2"
  have "rest p = ''LIN_description_file;'' # ?h1"
    by (simp only: p print_lines_def append.simps append_Nil2)
  from top_skip [OF this] obtain q1 where q1: "rest q1 = ?h1"
    "parse_top iter p ldf_db_default = parse_top iter q1 ldf_db_default" by blast
  from top_protocol [OF q1(1) ok(1)] obtain q2 where q2: "rest q2 = ?h2" "parse_top iter q1 ldf_db_default =
    parse_top iter q2 (ldf_db_default\<lparr>db_protocol_version := doc_protocol d\<rparr>)" by blast
  from top_language [OF q2(1) ok(2)] obtain q3 where q3: "rest q3 = ?h3"
    "parse_top iter q2 (ldf_db_default\<lparr>db_protocol_version := doc_protocol d\<rparr>) =
     parse_top iter q3 (ldf_db_default\<lparr>db_protocol_version := doc_protocol d,
       db_language_version := doc_language d\<rparr>)" by blast
  from top_speed [OF q3(1) ok(3-5)] obtain q4 where q4: "rest q4 = ?n"
    "parse_top iter q3 (ldf_db_default\<lparr>db_protocol_version := doc_protocol d,
       db_language_version := doc_language d\<rparr>) = parse_top iter q4 ?db1" by blast
  from top_nodes [OF q4(1) nodes] obtain q5 where q5: "rest q5 = ?s"
    "parse_top iter q4 ?db1 = parse_top iter q5 (fold nodes_line (print_nodes d) ?db1)" by blast
  from top_signals [OF q5(1) ok(8)] obtain q6 where q6: "rest q6 = ?f"
    "parse_top iter q5 (fold nodes_line (print_nodes d) ?db1) = parse_top iter q6
      (fold put_signal (doc_signals d) (fold nodes_line (print_nodes d) ?db1))" by blast
  from top_frames [OF q6(1) ok(9)] obtain q7 where q7: "rest q7 = ?t"
    "parse_top iter q6 (fold put_signal (doc_signals d) (fold nodes_line (print_nodes d) ?db1)) =
     parse_top iter q7 ?db4" by blast
  from top_tables [OF q7(1) ok(12) frames assms(2) ok(10,11,9)] obtain q8 where q8: "rest q8 = []"
    "parse_top iter q7 ?db4 = parse_top iter q8 (fold (put_table (doc_frames d)) (doc_tables d) ?db4)"
    by blast
  have "parse_top iter q8 db = (q8, db)" for db
    using q8(1) by (simp add: parse_top.simps)
  with q1 q2 q3 q4 q5 q6 q7 q8
  have "snd (parse_top iter p ldf_db_default) =
      fold (put_table (doc_frames d)) (doc_tables d) ?db4" by simp
  also have "\<dots> = db_of d"
    by (simp add: fold_put nodes_print [OF ok(6,7)] fold_update_distinct ok(11,13,14)
        frames_of_def ldf_db_default_def db_of_def)
  finally show ?thesis .
qed

lemma ldf_parse_print:
  assumes "doc_ok d" and "iterates iter"
  shows "ldf_parse iter (print_doc d) None = Inr (db_of d)"
  using read_lines_print [OF text_lines_print [OF assms(1)]]
    parse_top_print [OF assms, of "\<lparr>lp_lines = print_lines d, lp_pos = 0\<rparr>"]
  by (simp add: ldf_parse_def print_doc_def rest_def)

text \<open>
  C5: parsing a printed description gives the database it denotes, for any order in which
  hash maps are iterated: versions, the speed as the double nearest to the decimal number,
  nodes, every signal and frame with all its fields, and every schedule table with its
  frame names resolved to identifiers.  The description is any list of signals, frames and
  tables whose names are words without separators, frames with distinct names and
  identifiers, and numbers the parser represents exactly.
\<close>

theorem ldf_roundtrip:
  assumes "doc_ok d" and "iterates iter"
  shows "ldf_parse iter (print_doc d) None = Inr (db_of d)"
  by (rule ldf_parse_print [OF assms])

definition key_order :: "(u8 \<rightharpoonup> ldf_frame) \<Rightarrow> u8 list" where
  "key_order m = filter (\<lambda>i. m i \<noteq> None) (map of_nat [0..<256])"

lemma iterates_key_order: "iterates key_order"
proof -
  have "i \<in> of_nat ` {0..<256}" for i :: u8
    using unsigned_less [where 'a = nat, of i] by (intro image_eqI [of _ _ "unat i"]) simp_all
  then show ?thesis by (auto simp: iterates_def key_order_def)
qed

definition sample_doc :: ldf_doc where
  "sample_doc =
     \<lparr>doc_protocol = ''2.1'', doc_language = ''2.1'', doc_speed = (''19'', ''2''),
      doc_master = ''ECU'', doc_slaves = [''Door'', ''Seat''],
      doc_signals = [\<lparr>ls_name = ''Lock'', ls_width = 4, ls_init = 1, ls_publisher = ''ECU'',
        ls_subscribers = [''Door'', ''Seat'']\<rparr>],
      doc_frames = [\<lparr>lf_name = ''Cmd'', lf_id = 0x10, lf_publisher = ''ECU'', lf_length = 2,
        lf_signals = [\<lparr>ref_name = ''Lock'', ref_offset = 4\<rparr>]\<rparr>],
      doc_tables = [(''Normal'', [(''Cmd'', 10)])]\<rparr>"

lemma doc_ok_sample: "doc_ok sample_doc"
proof -
  have "is_name ''ECU''" "is_name ''Door''" "is_name ''Seat''" "is_name ''Lock''" "is_name ''Cmd''"
    "is_name ''Normal''" "list_all name_char ''2.1''" "list_all is_digit ''19''"
    "list_all is_digit ''2''" "\<not> starts_with ''AssignFrameId'' ''Cmd''"
    by code_simp+
  then show ?thesis
    by (simp add: sample_doc_def doc_ok_def signal_ok_def frame_ok_def table_ok_def LIN_MAX_ID_def)
qed

lemma db_of_sample:
  "db_frames (db_of sample_doc) 0x10 = Some \<lparr>lf_name = ''Cmd'', lf_id = 0x10,
     lf_publisher = ''ECU'', lf_length = 2, lf_signals = [\<lparr>ref_name = ''Lock'', ref_offset = 4\<rparr>]\<rparr>"
  "db_schedules (db_of sample_doc) ''Normal'' = Some [\<lparr>se_id = 0x10, se_delay_ms = 10\<rparr>]"
  by (simp_all add: sample_doc_def db_of_def frames_of_def entry_of_def)

theorem ldf_roundtrip_witness:
  "ldf_parse key_order (print_doc sample_doc) None = Inr (db_of sample_doc) \<and>
   db_schedules (db_of sample_doc) ''Normal'' = Some [\<lparr>se_id = 0x10, se_delay_ms = 10\<rparr>]"
  using ldf_roundtrip [OF doc_ok_sample iterates_key_order] db_of_sample by simp

section \<open>Parsed databases are well formed\<close>

text \<open>
  C22: the database built from any text, well formed or not, and for any order in which a
  hash map is iterated, is well formed: a frame is stored under its own identifier and a
  signal under its own name, and every entry of every schedule table has an identifier
  that is at most \<open>0x3F\<close> and belongs to a declared frame.
\<close>

theorem ldf_parse_well_formed:
  assumes "ldf_parse iter content failure = Inr db"
  shows "(ldf_frame_of db i = Some f \<longrightarrow> lf_id f = i) \<and>
    (ldf_signal_of db n = Some sig \<longrightarrow> ls_name sig = n) \<and>
    (ldf_schedule_of db n = Some es \<and> e \<in> set es \<longrightarrow>
       se_id e \<le> LIN_MAX_ID \<and> ldf_frame_of db (se_id e) \<noteq> None)"
  using ldf_parse_wf [OF assms]
  unfolding db_wf_def entry_ok_def ldf_frame_of_def ldf_signal_of_def ldf_schedule_of_def
  by blast

theorem ldf_parse_well_formed_witness:
  "ldf_schedule_of (db_of sample_doc) ''Normal'' = Some [\<lparr>se_id = 0x10, se_delay_ms = 10\<rparr>] \<and>
   (0x10 :: u8) \<le> LIN_MAX_ID \<and> ldf_frame_of (db_of sample_doc) 0x10 \<noteq> None"
  using ldf_parse_well_formed [OF ldf_parse_print [OF doc_ok_sample iterates_key_order],
      where n = "''Normal''" and es = "[\<lparr>se_id = 0x10, se_delay_ms = 10\<rparr>]"
      and e = "\<lparr>se_id = 0x10, se_delay_ms = 10\<rparr>"]
    db_of_sample by (simp add: ldf_schedule_of_def)

end
