(* ===== verification/Signal_Path.thy ===== *)
theory Signal_Path
  imports Ldf_Roundtrip Virtual_Bus_Spec Slave_Node
begin

text \<open>
  From a network description to a signal: the parser and decoder of \<open>src/ldf/mod.rs\<close>, the
  slave node and the virtual bus together.
\<close>

lemma set_response_bus:
  "i \<le> LIN_MAX_ID \<Longrightarrow> fst (snd (set_response publish i d (s, n))) = snd (publish i d s)"
  by (auto simp: set_response_def not_less split: prod.split sum.split)

text \<open>
  C24: For every slot of every schedule table of a database parsed from any text, as long as no
  signal reference of its frame overflows (puts a bit beyond position \<open>2 ^ 64 - 1\<close>, where
  decoding panics or wraps around): the frame is described; when the slave has set its response to a payload of one to eight bytes on an
  open bus, then whatever other calls come in between, short of closing the bus and
  publishing that identifier, the master's header for the slot succeeds, and decoding the
  frame it gets gives exactly the signals that the description places in that payload.
\<close>

theorem scheduled_signals_arrive:
  assumes "ldf_parse iter content failure = Inr db"
    and "ldf_schedule_of db name = Some es" and "e \<in> set es"
    and "\<not> vb_closed s" and "d \<noteq> []" and "length d \<le> LIN_MAX_DATA_LEN"
    and "\<forall>c \<in> set cs. leaves (se_id e) c"
    and "\<forall>fr \<in> set_option (db_frames db (se_id e)). \<forall>r \<in> set (lf_signals fr). \<not> overflowing db r"
  shows "\<exists>f fr. fst (vb_send_header clk ctx (se_id e) (snd (vb_calls cs
      (fst (snd (set_response vb_publish (se_id e) (Some d) (s, n))))))) = Inr f \<and>
    db_frames db (se_id e) = Some fr \<and>
    decode checks db (fr_id f) (fr_data f) = Some (Some (decoded db d (lf_signals fr)))"
proof -
  have wf: "db_wf db" by (rule ldf_parse_wf [OF assms(1)])
  then have entry: "se_id e \<le> LIN_MAX_ID" "se_id e \<in> dom (db_frames db)"
    using assms(2,3) by (auto simp: db_wf_def entry_ok_def ldf_schedule_of_def)
  obtain fr where fr: "db_frames db (se_id e) = Some fr" using entry(2) by blast
  have sent: "\<exists>f. fst (vb_send_header clk ctx (se_id e) (snd (vb_calls cs
      (snd (vb_publish (se_id e) (Some d) s))))) = Inr f \<and> fr_id f = se_id e \<and> fr_data f = d"
    using published_frame [OF assms(4) entry(1) assms(5-7)] by (simp add: vb_publish_def)
  have "decode checks db (se_id e) d = Some (Some (decoded db d (lf_signals fr)))"
    using fr assms(8) by (auto simp: decode_def decode_signals_value fun_eq_iff split: option.split)
  with sent fr show ?thesis by (auto simp: set_response_bus [OF entry(1)])
qed

theorem scheduled_signals_arrive_witness:
  "\<exists>f fr. fst (vb_send_header (\<lambda>k. 0) context_background 0x10
      (fst (snd (set_response vb_publish 0x10 (Some [0x5A]) (virtual_bus_new, slave_node_new))))) = Inr f \<and>
    decode True (db_of sample_doc) (fr_id f) (fr_data f) = Some (Some fr) \<and> fr ''Lock'' = Some 5"
proof -
  have small: "\<forall>fr \<in> set_option (db_frames (db_of sample_doc) 0x10). \<forall>r \<in> set (lf_signals fr).
      \<not> overflowing (db_of sample_doc) r"
    using db_of_sample(1) by (simp add: overflowing_def db_of_def sample_doc_def)
  have lock: "decoded (db_of sample_doc) [0x5A] [\<lparr>ref_name = ''Lock'', ref_offset = 4\<rparr>] ''Lock'' = Some 5"
    by (simp add: decoded_def last_offset_def signal_value_def db_of_def sample_doc_def)
  have slot: "ldf_schedule_of (db_of sample_doc) ''Normal'' = Some [\<lparr>se_id = 0x10, se_delay_ms = 10\<rparr>]"
    using db_of_sample(2) by (simp add: ldf_schedule_of_def)
  show ?thesis
    using scheduled_signals_arrive [OF ldf_parse_print [OF doc_ok_sample iterates_key_order] slot,
        of "\<lparr>se_id = 0x10, se_delay_ms = 10\<rparr>" virtual_bus_new "[0x5A]" "[]" "\<lambda>k. 0" context_background
          slave_node_new True] small lock db_of_sample(1)
    by (auto simp: virtual_bus_new_def LIN_MAX_DATA_LEN_def)
qed

end
