(* ===== verification/Cli.thy ===== *)
theory Cli
  imports Relay_Adapter Ldf_Text_Facts
begin

text \<open>
  \<open>src/bin/main.rs\<close>: the commands of the command line tool.  A command is a function from
  its parsed arguments and what standard input delivers to its result (\<open>Ok\<close> with the exit
  code, or the text of the boxed error) and the lines it prints.  Argument parsing (\<open>clap\<close>),
  JSON (\<open>serde_json\<close>), hexadecimal text (\<open>hex\<close>) and the epoch of \<open>chrono\<close> are external:
  the functions the tool calls are the fields of \<open>external\<close>.
\<close>

section \<open>Arguments, output and external functions\<close>

datatype output_format = Text | Json

datatype commands =
    CmdVersion output_format
  | CmdCapabilities
  | CmdStatus output_format
  | CmdSend "string option" "string option" output_format
  | CmdSubscribe usize output_format
  | CmdConvert string output_format

datatype out_line = Out string | Err string

type_synonym cmd_result = "(string + int) \<times> out_line list"

datatype json =
    JNull | JBool bool | JInt int | JString string | JArray "json list" | JObject "(string \<times> json) list"

text \<open>
  \<open>to_string_pretty\<close> and \<open>to_string\<close> of a JSON value, its \<open>Display\<close>, \<open>to_string_pretty\<close> of a
  message, \<open>from_str\<close> of a message, \<open>from_reader\<close> of a frame, \<open>hex::encode\<close>, \<open>hex::decode\<close>,
  and \<open>UNIX_EPOCH\<close>.
\<close>

record 'ts external =
  json_pretty :: "json \<Rightarrow> string + string"
  json_compact :: "json \<Rightarrow> string + string"
  json_display :: "json \<Rightarrow> string"
  message_pretty :: "'ts message \<Rightarrow> string + string"
  message_parse :: "string \<Rightarrow> string + 'ts message"
  frame_parse :: "string \<Rightarrow> string + lin_frame"
  hex_encode :: "bytes \<Rightarrow> string"
  hex_decode :: "string \<Rightarrow> string + bytes"
  unix_epoch :: 'ts

definition CARGO_PKG_VERSION :: string where
  "CARGO_PKG_VERSION = ''0.4.3''"

definition SPEC_VERSION :: string where
  "SPEC_VERSION = ''2.0''"

text \<open>\<open>doc[key]\<close> and \<open>as_str().unwrap_or("")\<close>.\<close>

fun json_get :: "json \<Rightarrow> string \<Rightarrow> json" where
  "json_get (JObject kvs) k = (case map_of kvs k of Some v \<Rightarrow> v | None \<Rightarrow> JNull)"
| "json_get _ k = JNull"

fun json_str :: "json \<Rightarrow> string" where
  "json_str (JString s) = s"
| "json_str _ = []"

definition field_line :: "json \<Rightarrow> string \<Rightarrow> string \<Rightarrow> out_line" where
  "field_line doc label k = Out (label @ json_str (json_get doc k))"

text \<open>\<open>println!("{}", \<dots>?); Ok(0)\<close>.\<close>

definition print_ok :: "string + string \<Rightarrow> cmd_result" where
  "print_ok r = (case r of Inl e \<Rightarrow> (Inl e, []) | Inr t \<Rightarrow> (Inr 0, [Out t]))"

section \<open>version, capabilities, status\<close>

definition version_doc :: json where
  "version_doc = JObject
     [(''tool'', JString ''rust-lin''), (''protocol'', JString ''LIN''),
      (''protocol_int'', JInt (protocol_to_i32 Lin)),
      (''version'', JString CARGO_PKG_VERSION), (''spec_version'', JString SPEC_VERSION),
      (''language'', JString ''rust''), (''runtime'', JString ''rustc 1.75+'')]"

definition cmd_version :: "'ts external \<Rightarrow> output_format \<Rightarrow> cmd_result" where
  "cmd_version ext format =
     (case format of
        Json \<Rightarrow> print_ok (json_pretty ext version_doc)
      | Text \<Rightarrow> (Inr 0,
          [field_line version_doc ''tool:         '' ''tool'',
           field_line version_doc ''protocol:     '' ''protocol'',
           field_line version_doc ''version:      '' ''version'',
           field_line version_doc ''spec_version: '' ''spec_version'',
           field_line version_doc ''language:     '' ''language'',
           field_line version_doc ''runtime:      '' ''runtime'']))"

definition capabilities_doc :: json where
  "capabilities_doc = JObject
     [(''kind'', JString ''capabilities''), (''tool'', JString ''rust-lin''),
      (''protocol'', JString ''LIN''), (''protocol_int'', JInt (protocol_to_i32 Lin)),
      (''version'', JString CARGO_PKG_VERSION), (''spec_version'', JString SPEC_VERSION),
      (''commands'', JArray [JString ''version'', JString ''capabilities'', JString ''status'',
         JString ''send'', JString ''subscribe'', JString ''convert'']),
      (''transports'', JArray [JString ''virtual'']),
      (''features'', JArray [JString ''master'', JString ''slave'', JString ''schedule'',
         JString ''checksum'', JString ''pid'']),
      (''interfaces'', JArray [JString ''Bus'', JString ''MasterBus'']),
      (''optional_interfaces'', JArray [JString ''HealthProvider'', JString ''MetricsProvider'']),
      (''adapt'', JBool True)]"

definition cmd_capabilities :: "'ts external \<Rightarrow> cmd_result" where
  "cmd_capabilities ext = print_ok (json_pretty ext capabilities_doc)"

definition status_doc :: json where
  "status_doc = JObject
     [(''protocol'', JString ''LIN''), (''tool'', JString ''rust-lin''),
      (''version'', JString CARGO_PKG_VERSION), (''healthy'', JBool True),
      (''connected'', JBool False), (''endpoint'', JString []), (''details'', JObject [])]"

definition cmd_status :: "'ts external \<Rightarrow> output_format \<Rightarrow> cmd_result" where
  "cmd_status ext format =
     (case format of
        Json \<Rightarrow> print_ok (json_pretty ext status_doc)
      | Text \<Rightarrow> (Inr 0,
          [field_line status_doc ''tool:      '' ''tool'',
           field_line status_doc ''protocol:  '' ''protocol'',
           field_line status_doc ''version:   '' ''version'',
           Out (''healthy:   '' @ json_display ext (json_get status_doc ''healthy'')),
           Out (''connected: '' @ json_display ext (json_get status_doc ''connected''))]))"

section \<open>send\<close>

text \<open>\<open>u8::from_str_radix\<close> and \<open>str::parse::<u8>\<close> with the text of their error.\<close>

fun u8_digits :: "nat \<Rightarrow> nat \<Rightarrow> string \<Rightarrow> string + u8" where
  "u8_digits radix acc [] = Inr (of_nat acc)"
| "u8_digits radix acc (c # cs) =
     (case digit_value radix c of
        None \<Rightarrow> Inl ''invalid digit found in string''
      | Some d \<Rightarrow>
          if acc * radix + d \<ge> 256 then Inl ''number too large to fit in target type''
          else u8_digits radix (acc * radix + d) cs)"

definition u8_from_str :: "nat \<Rightarrow> string \<Rightarrow> string + u8" where
  "u8_from_str radix s =
     (if s = [] then Inl ''cannot parse integer from empty string''
      else if s = ''+'' \<or> s = ''-'' then Inl ''invalid digit found in string''
      else u8_digits radix 0 (if hd s = CHR ''+'' then tl s else s))"

definition parse_id :: "string \<Rightarrow> string + u8" where
  "parse_id s =
     (if starts_with ''0x'' s \<or> starts_with ''0X'' s then u8_from_str 16 (drop 2 s)
      else u8_from_str 10 s)"

text \<open>
  The loop of \<open>send --format json\<close> over what \<open>stdin.lock().lines()\<close> yields: the counters, the
  lines printed so far and the bus.
\<close>

fun send_json_loop :: "'ts external \<Rightarrow> (string + string) list \<Rightarrow> usize \<Rightarrow> usize \<Rightarrow> out_line list \<Rightarrow>
    virtual_bus \<Rightarrow> cmd_result \<times> virtual_bus" where
  "send_json_loop ext [] sent errors out s =
     ((Inr 0, out @ [Err (''rust-lin: send --format json: sent='' @ dec_string (unat sent) @
        '' errors='' @ dec_string (unat errors))]), s)"
| "send_json_loop ext (l # ls) sent errors out s =
     (case l of
        Inl e \<Rightarrow> ((Inl e, out), s)
      | Inr line \<Rightarrow>
          (let line = trim line
           in if line = [] then send_json_loop ext ls sent errors out s
              else (case message_parse ext line of
                Inl e \<Rightarrow> send_json_loop ext ls sent (errors + 1)
                  (out @ [Err (''rust-lin: send --format json: parse error: '' @ e)]) s
              | Inr msg \<Rightarrow>
                  (case from_message msg of
                     Inl e \<Rightarrow> send_json_loop ext ls sent (errors + 1)
                       (out @ [Err (''rust-lin: send --format json: conversion error: '' @ error_display e)]) s
                   | Inr f \<Rightarrow>
                       (case validate_frame f of
                          Inl e \<Rightarrow> send_json_loop ext ls sent (errors + 1)
                            (out @ [Err (''rust-lin: send --format json: invalid frame: '' @ error_display e)]) s
                        | Inr _ \<Rightarrow>
                            (case vb_publish (fr_id f) (Some (fr_data f)) s of
                               (Inl e, s1) \<Rightarrow> ((Inl (error_display e), out), s1)
                             | (Inr _, s1) \<Rightarrow> send_json_loop ext ls (sent + 1) errors out s1))))))"

definition cmd_send_json :: "'ts external \<Rightarrow> (string + string) list \<Rightarrow> virtual_bus \<Rightarrow>
    cmd_result \<times> virtual_bus" where
  "cmd_send_json ext stdin s = send_json_loop ext stdin 0 0 [] s"

definition cmd_send :: "'ts external \<Rightarrow> (string + string) list \<Rightarrow> string option \<Rightarrow> string option \<Rightarrow>
    output_format \<Rightarrow> cmd_result \<times> virtual_bus" where
  "cmd_send ext stdin id_str data_hex format =
     (let bus = virtual_bus_new
      in case format of
           Json \<Rightarrow> cmd_send_json ext stdin bus
         | Text \<Rightarrow>
             (case id_str of
                None \<Rightarrow> ((Inl ''rust-lin: --id is required in text mode'', []), bus)
              | Some id_str \<Rightarrow>
                  (case data_hex of
                     None \<Rightarrow> ((Inl ''rust-lin: --data is required in text mode'', []), bus)
                   | Some data_hex \<Rightarrow>
                       (case parse_id id_str of
                          Inl e \<Rightarrow> ((Inl e, []), bus)
                        | Inr i \<Rightarrow>
                            (case hex_decode ext (filter (\<lambda>c. c \<noteq> CHR '' '') data_hex) of
                               Inl e \<Rightarrow> ((Inl e, []), bus)
                             | Inr data \<Rightarrow>
                                 if length data > LIN_MAX_DATA_LEN then
                                   ((Inl (''rust-lin: data length '' @ dec_string (length data) @
                                      '' exceeds maximum '' @ dec_string LIN_MAX_DATA_LEN), []), bus)
                                 else
                                   (case vb_publish i (Some data) bus of
                                      (Inl e, s) \<Rightarrow> ((Inl (error_display e), []), s)
                                    | (Inr _, s) \<Rightarrow>
                                        ((Inr 0, [Out (''published: id=0x'' @ hex02 i @ '' data='' @
                                           hex_encode ext data)]), s)))))))"

section \<open>subscribe\<close>

definition frame_doc :: "'ts external \<Rightarrow> usize \<Rightarrow> 'ts \<Rightarrow> lin_frame \<Rightarrow> json" where
  "frame_doc ext received now f =
     (let msg = to_message now f
      in JObject
        [(''protocol'', JString ''LIN''), (''id'', JString (msg_id msg)),
         (''data'', JString (hex_encode ext (fr_data f))),
         (''checksum'', JInt (int (unat (fr_checksum f)))),
         (''checksum_type'', JString (checksum_type_display (fr_checksum_type f))),
         (''seq'', JInt (int (unat received)))])"

definition print_received :: "'ts external \<Rightarrow> output_format \<Rightarrow> usize \<Rightarrow> 'ts \<Rightarrow> lin_frame \<Rightarrow> string + out_line" where
  "print_received ext format received now f =
     (case format of
        Json \<Rightarrow> map_sum id Out (json_compact ext (frame_doc ext received now f))
      | Text \<Rightarrow> Inr (Out (''['' @ dec_string (unat received) @ ''] id=0x'' @ hex02 (fr_id f) @
          '' checksum=0x'' @ hex02 (fr_checksum f) @ '' ct='' @
          checksum_type_display (fr_checksum_type f) @ '' data='' @ hex_encode ext (fr_data f))))"

text \<open>
  The receiving loop.  One turn is one poll of the receiver; \<open>env k\<close> is what other tasks do to
  the bus before poll \<open>k\<close>, \<open>now k\<close> the clock of \<open>to_message\<close>.  A pending poll is repeated.
\<close>

partial_function (option) subscribe_loop ::
    "'ts external \<Rightarrow> output_format \<Rightarrow> (nat \<Rightarrow> virtual_bus \<Rightarrow> virtual_bus) \<Rightarrow> (nat \<Rightarrow> 'ts) \<Rightarrow>
     usize \<Rightarrow> nat \<Rightarrow> nat \<Rightarrow> usize \<Rightarrow> out_line list \<Rightarrow> virtual_bus \<Rightarrow>
     ((string + unit) \<times> out_line list \<times> virtual_bus) option" where
  "subscribe_loop ext format env now count rx k received out s =
     (if count > 0 \<and> received \<ge> count then Some (Inr (), out, s)
      else (case rx_recv rx (env k s) of
        (Pending, s1) \<Rightarrow> subscribe_loop ext format env now count rx (Suc k) received out s1
      | (Ready None, s1) \<Rightarrow> Some (Inr (), out, s1)
      | (Ready (Some f), s1) \<Rightarrow>
          (case print_received ext format (received + 1) (now k) f of
             Inl e \<Rightarrow> Some (Inl e, out, s1)
           | Inr line \<Rightarrow>
               subscribe_loop ext format env now count rx (Suc k) (received + 1) (out @ [line]) s1)))"

definition cmd_subscribe ::
    "'ts external \<Rightarrow> (nat \<Rightarrow> virtual_bus \<Rightarrow> virtual_bus) \<Rightarrow> (nat \<Rightarrow> 'ts) \<Rightarrow> instant \<Rightarrow>
     usize \<Rightarrow> output_format \<Rightarrow> cmd_result option" where
  "cmd_subscribe ext env now start count format =
     (case vb_subscribe [] subscriber_options_default start virtual_bus_new of
        (Inl e, _) \<Rightarrow> Some (Inl (error_display e), [])
      | (Inr rx, s) \<Rightarrow>
          (let out = [Err (''rust-lin: subscribing on virtual bus ('' @
             (if count = 0 then ''unlimited'' else dec_string (unat count) @ '' frames'') @ '')'')]
           in case subscribe_loop ext format env now count rx 0 0 out s of
                None \<Rightarrow> None
              | Some (Inl e, out, s1) \<Rightarrow> Some (Inl e, out)
              | Some (Inr _, out, s1) \<Rightarrow>
                  (case vb_close s1 of
                     (Inl e, _) \<Rightarrow> Some (Inl (error_display e), out)
                   | (Inr _, _) \<Rightarrow> Some (Inr 0, out))))"

section \<open>convert\<close>

definition cmd_convert :: "'ts external \<Rightarrow> 'ts \<Rightarrow> string \<Rightarrow> string \<Rightarrow> output_format \<Rightarrow> cmd_result" where
  "cmd_convert ext now stdin protocol format =
     (if \<not> eq_ignore_ascii_case protocol ''LIN'' then
        (Inr 2, [Err (''rust-lin: convert: unsupported protocol '' @ [CHR 0x27] @ protocol @ [CHR 0x27] @
           ''; this tool implements LIN'')])
      else (case frame_parse ext stdin of
        Inl e \<Rightarrow> (Inr 1, [Err e, Err ''ErrInvalidFrame''])
      | Inr f \<Rightarrow>
          (case validate_frame f of
             Inl e \<Rightarrow> (Inr 1, [Err (error_display e), Err ''ErrInvalidFrame''])
           | Inr _ \<Rightarrow>
               (let msg = (to_message now f)\<lparr>msg_timestamp := unix_epoch ext\<rparr>
                in print_ok (message_pretty ext msg)))))"

section \<open>The entry point\<close>

definition run :: "'ts external \<Rightarrow> (nat \<Rightarrow> virtual_bus \<Rightarrow> virtual_bus) \<Rightarrow> (nat \<Rightarrow> 'ts) \<Rightarrow> instant \<Rightarrow>
    (string + string) list \<Rightarrow> string \<Rightarrow> commands \<Rightarrow> cmd_result option" where
  "run ext env now start stdin_lines stdin_text command =
     (case command of
        CmdVersion format \<Rightarrow> Some (cmd_version ext format)
      | CmdCapabilities \<Rightarrow> Some (cmd_capabilities ext)
      | CmdStatus format \<Rightarrow> Some (cmd_status ext format)
      | CmdSend i d format \<Rightarrow> Some (fst (cmd_send ext stdin_lines i d format))
      | CmdSubscribe count format \<Rightarrow> cmd_subscribe ext env now start count format
      | CmdConvert protocol format \<Rightarrow> Some (cmd_convert ext (now 0) stdin_text protocol format))"

text \<open>The exit code and everything printed; \<open>None\<close> if the command never returns.\<close>

definition main :: "'ts external \<Rightarrow> (nat \<Rightarrow> virtual_bus \<Rightarrow> virtual_bus) \<Rightarrow> (nat \<Rightarrow> 'ts) \<Rightarrow> instant \<Rightarrow>
    (string + string) list \<Rightarrow> string \<Rightarrow> commands \<Rightarrow> (int \<times> out_line list) option" where
  "main ext env now start stdin_lines stdin_text command =
     map_option (\<lambda>r. case r of
        (Inr code, out) \<Rightarrow> (code, out)
      | (Inl e, out) \<Rightarrow> (1, out @ [Err (''rust-lin: error: '' @ e)]))
       (run ext env now start stdin_lines stdin_text command)"

end
