(* ===== verification/Cli_Facts.thy ===== *)
theory Cli_Facts
  imports Cli
begin

text \<open>
  What the commands of the tool do: the exit code and output of \<open>send\<close> on any identifier and
  data, the accounting of \<open>send --format json\<close>, when \<open>subscribe\<close> returns and what it prints,
  and the message \<open>convert\<close> prints.
\<close>

section \<open>send\<close>

lemma digits_value_ge: "digits_value radix acc s = Some v \<Longrightarrow> 0 < radix \<Longrightarrow> acc \<le> v"
proof (induction s arbitrary: acc)
  case (Cons c cs)
  then obtain d where "digits_value radix (acc * radix + d) cs = Some v"
    by (auto split: option.splits)
  with Cons have "acc * radix + d \<le> v" by blast
  moreover have "acc \<le> acc * radix" using Cons.prems by simp
  ultimately show ?case by linarith
qed simp

lemma u8_digits_value:
  "digits_value radix acc s = Some v \<Longrightarrow> v < 256 \<Longrightarrow> 0 < radix \<Longrightarrow>
     u8_digits radix acc s = Inr (of_nat v)"
proof (induction s arbitrary: acc)
  case (Cons c cs)
  then obtain d where d: "digit_value radix c = Some d"
    "digits_value radix (acc * radix + d) cs = Some v"
    by (auto split: option.splits)
  with digits_value_ge [OF d(2)] Cons show ?case by simp
qed simp

lemma parse_id_decimal: "parse_id (dec_string (unat i)) = Inr i"
proof -
  have "dec_string (unat i) \<noteq> ''+''" "dec_string (unat i) \<noteq> ''-''" "hd (dec_string (unat i)) \<noteq> CHR ''+''"
    using digits_start(3) [OF dec_string_digits, of "unat i"] by auto
  then show ?thesis
    using u8_digits_value [OF digits_value_dec_string, of "unat i"] unsigned_less [where 'a = nat, of i]
    by (simp add: parse_id_def u8_from_str_def digits_start [OF dec_string_digits])
qed

lemma digit_value_hex: "n < 16 \<Longrightarrow> digit_value 16 (digit_char n) = Some n"
  by (auto simp: digit_value_def digit_char_def Let_def of_char_of)

lemma digit_char_sign: "n < 16 \<Longrightarrow> digit_char n \<noteq> CHR ''+'' \<and> digit_char n \<noteq> CHR ''-''"
  using digit_value_hex [of n] by (auto simp: digit_value_def Let_def)

lemma parse_id_hex: "parse_id (''0x'' @ hex02 i) = Inr i"
proof -
  have i: "unat i div 16 < 16" "unat i mod 16 < 16" "unat i < 256"
    using unsigned_less [where 'a = nat, of i] by (simp_all add: less_mult_imp_div_less)
  then have "digits_value 16 0 (hex02 i) = Some (unat i)"
    by (simp add: hex02_def digit_value_hex)
  with u8_digits_value [OF this] i show ?thesis
    by (simp add: parse_id_def u8_from_str_def hex02_def digit_char_sign)
qed

text \<open>
  C40: \<open>send --id I --data D\<close> in text mode, for any identifier byte written in decimal or as
  \<open>0xNN\<close> and any data the hexadecimal decoder accepts after spaces are removed: it prints
  the published identifier and data and exits with 0 exactly when the data has at most eight
  bytes and the identifier is at most \<open>0x3F\<close>; otherwise it prints which of the two failed,
  the data first, and exits with 1.
\<close>

theorem send_text_verdict:
  assumes "id_text = dec_string (unat i) \<or> id_text = ''0x'' @ hex02 i"
    and "hex_decode ext (filter (\<lambda>c. c \<noteq> CHR '' '') d) = Inr b"
  shows "main ext env now start lines text (CmdSend (Some id_text) (Some d) Text) = Some
    (if 8 < length b then
       (1, [Err (''rust-lin: error: rust-lin: data length '' @ dec_string (length b) @
          '' exceeds maximum 8'')])
     else if 0x3F < i then (1, [Err (''rust-lin: error: '' @ error_display (id_error i))])
     else (0, [Out (''published: id=0x'' @ hex02 i @ '' data='' @ hex_encode ext b)]))"
proof -
  have "parse_id id_text = Inr i" using assms(1) parse_id_decimal parse_id_hex by metis
  moreover have "dec_string 8 = ''8''" by code_simp
  moreover obtain r s where r: "publish_with_type i (Some b) Enhanced virtual_bus_new = (r, s)"
    by (cases "publish_with_type i (Some b) Enhanced virtual_bus_new")
  moreover have "\<not> vb_closed virtual_bus_new" by (simp add: virtual_bus_new_def)
  then have "r = (if 0x3F < i then Inl (id_error i)
      else if 8 < length b then Inl PayloadTooLarge else Inr ())"
    using publish_with_type_result [of i "Some b" Enhanced virtual_bus_new] r
    by (simp add: LIN_MAX_DATA_LEN_def LIN_MAX_ID_def)
  ultimately show ?thesis
    using assms(2)
    by (simp add: main_def run_def cmd_send_def Let_def LIN_MAX_DATA_LEN_def vb_publish_def)
qed

text \<open>A hexadecimal codec, for the concrete runs.\<close>

definition hex_digit :: "nat \<Rightarrow> char" where
  "hex_digit n = (if n < 10 then char_of (48 + n) else char_of (87 + n))"

definition hex_of :: "bytes \<Rightarrow> string" where
  "hex_of bs = concat (map (\<lambda>b. [hex_digit (unat b div 16), hex_digit (unat b mod 16)]) bs)"

fun hex_to :: "string \<Rightarrow> string + bytes" where
  "hex_to [] = Inr []"
| "hex_to [c] = Inl ''Odd number of digits''"
| "hex_to (c # d # cs) =
     (case (digit_value 16 c, digit_value 16 d) of
        (Some h, Some l) \<Rightarrow> map_sum id (\<lambda>bs. of_nat (16 * h + l) # bs) (hex_to cs)
      | _ \<Rightarrow> Inl ''Invalid character'')"

definition demo_external :: "unit external" where
  "demo_external =
     \<lparr>json_pretty = (\<lambda>_. Inr ''{}''), json_compact = (\<lambda>_. Inr ''{}''), json_display = (\<lambda>_. ''true''),
      message_pretty = (\<lambda>m. Inr (msg_id m)),
      message_parse = (\<lambda>s. if s = ''m'' then Inr ((to_message () \<lparr>fr_id = 0x10, fr_data = [1, 2],
        fr_checksum = calc_checksum 0x10 [1, 2] Classic, fr_checksum_type = Classic\<rparr>))
        else Inl ''expected value''),
      frame_parse = (\<lambda>_. Inl ''EOF''), hex_encode = hex_of, hex_decode = hex_to, unix_epoch = ()\<rparr>"

theorem send_text_verdict_witness:
  "main demo_external (\<lambda>k s. s) (\<lambda>k. ()) 0 [] [] (CmdSend (Some ''0x10'') (Some ''01 FF'') Text) =
     Some (0, [Out ''published: id=0x10 data=01ff''])"
proof -
  have "hex02 0x10 = ''10''" "hex_encode demo_external [1, 0xFF] = ''01ff''"
    "hex_decode demo_external (filter (\<lambda>c. c \<noteq> CHR '' '') ''01 FF'') = Inr [1, 0xFF]"
    by code_simp+
  with send_text_verdict [of "''0x10''" "0x10" demo_external "''01 FF''" "[1, 0xFF]"] show ?thesis
    by simp
qed

section \<open>send --format json\<close>

lemma unat_count: "unat (of_nat n :: usize) = n mod 2 ^ 64"
  using unsigned_of_nat [where 'a = nat and 'b = 64, of n] by (simp add: take_bit_eq_mod)

text \<open>The frame a line stands for, if the tool accepts it; blank lines are skipped.\<close>

definition line_frame :: "'ts external \<Rightarrow> string \<Rightarrow> lin_frame option" where
  "line_frame ext line =
     (case message_parse ext line of Inl _ \<Rightarrow> None
      | Inr m \<Rightarrow> (case from_message m of Inl _ \<Rightarrow> None
        | Inr f \<Rightarrow> if validate_frame f = Inr () then Some f else None))"

definition work_lines :: "string list \<Rightarrow> string list" where
  "work_lines ls = filter (\<lambda>l. l \<noteq> []) (map trim ls)"

definition accepted_frames :: "'ts external \<Rightarrow> string list \<Rightarrow> lin_frame list" where
  "accepted_frames ext ls = List.map_filter (line_frame ext) (work_lines ls)"

definition register :: "lin_frame \<Rightarrow> (u8 \<rightharpoonup> slave_response) \<Rightarrow> u8 \<rightharpoonup> slave_response" where
  "register f m = m(fr_id f \<mapsto> \<lparr>sr_data = fr_data f,
     sr_checksum_type = (if is_diagnostic (fr_id f) then Classic else Enhanced)\<rparr>)"

lemma publish_valid:
  assumes "validate_frame f = Inr ()" and "\<not> vb_closed s"
  shows "\<exists>t. vb_publish (fr_id f) (Some (fr_data f)) s = (Inr (), t) \<and> \<not> vb_closed t \<and>
    vb_responses t = register f (vb_responses s)"
proof -
  let ?p = "publish_with_type (fr_id f) (Some (fr_data f)) Enhanced s"
  have "fst ?p = Inr ()"
    using assms by (auto simp: publish_with_type_result validate_frame_ok)
  then have "?p = (Inr (), snd ?p)" "\<not> vb_closed (snd ?p)"
    "vb_responses (snd ?p) = register f (vb_responses s)"
    using assms(2) publish_with_type_state [of "fr_id f" "Some (fr_data f)" Enhanced s]
    by (simp_all add: prod_eq_iff register_def stored_type_def)
  then show ?thesis by (auto simp: vb_publish_def)
qed

lemma send_json_loop_result:
  "\<not> vb_closed s \<Longrightarrow>
     \<exists>warnings t. send_json_loop ext (map Inr ls) sent errors out s =
       ((Inr 0, out @ map Err warnings @ [Err (''rust-lin: send --format json: sent='' @
          dec_string (unat (sent + of_nat (length (accepted_frames ext ls)))) @ '' errors='' @
          dec_string (unat (errors + of_nat (length warnings))))]), t) \<and>
       length warnings + length (accepted_frames ext ls) = length (work_lines ls) \<and>
       vb_responses t = fold register (accepted_frames ext ls) (vb_responses s)"
proof (induction ls arbitrary: sent errors out s)
  case Nil
  then show ?case
    by (auto simp: accepted_frames_def work_lines_def map_filter_def)
next
  case (Cons l ls)
  consider (blank) "trim l = []"
    | (bad) e where "trim l \<noteq> []" "line_frame ext (trim l) = None"
        "send_json_loop ext (map Inr (l # ls)) sent errors out s =
         send_json_loop ext (map Inr ls) sent (errors + 1) (out @ [Err e]) s"
    | (good) f m where "trim l \<noteq> []" "line_frame ext (trim l) = Some f" "validate_frame f = Inr ()"
        "message_parse ext (trim l) = Inr m" "from_message m = Inr f"
    by (fastforce simp: line_frame_def Let_def split: sum.splits if_splits)
  then show ?case
  proof cases
    case blank
    with Cons show ?thesis by (simp add: accepted_frames_def work_lines_def map_filter_simps)
  next
    case bad
    with Cons.IH [OF Cons.prems, of sent "errors + 1" "out @ [Err e]"] show ?thesis
      by (auto simp: accepted_frames_def work_lines_def map_filter_simps add_ac intro: exI [of _ "e # _"])
  next
    case good
    from publish_valid [OF good(3) Cons.prems] obtain t where t:
      "vb_publish (fr_id f) (Some (fr_data f)) s = (Inr (), t)" "\<not> vb_closed t"
      "vb_responses t = register f (vb_responses s)" by blast
    with Cons.IH [OF t(2), of "sent + 1" errors out] good show ?thesis
      by (simp add: accepted_frames_def work_lines_def map_filter_simps add_ac)
  qed
qed

text \<open>
  \<open>send --format json\<close> on any readable input exits with 0, prints nothing on standard
  output, one warning for each line that is not blank and not accepted, and at the end the
  two counts, which together cover the lines that are not blank.  The bus then holds, for
  each identifier, the payload of its last accepted message, with the enhanced checksum
  model (classic for diagnostic identifiers), whatever model the message names.
\<close>

theorem send_json_accounting:
  "\<exists>warnings. main ext env now start (map Inr ls) text (CmdSend i d Json) =
       Some (0, map Err warnings @ [Err (''rust-lin: send --format json: sent='' @
         dec_string (length (accepted_frames ext ls) mod 2 ^ 64) @ '' errors='' @
         dec_string (length warnings mod 2 ^ 64))]) \<and>
     length warnings + length (accepted_frames ext ls) = length (work_lines ls) \<and>
     vb_responses (snd (cmd_send ext (map Inr ls) i d Json)) =
       fold register (accepted_frames ext ls) Map.empty"
proof -
  have new: "\<not> vb_closed virtual_bus_new" "vb_responses virtual_bus_new = Map.empty"
    by (simp_all add: virtual_bus_new_def bus_inner_new_def)
  obtain warnings t where loop: "cmd_send ext (map Inr ls) i d Json =
       ((Inr 0, map Err warnings @ [Err (''rust-lin: send --format json: sent='' @
          dec_string (unat (of_nat (length (accepted_frames ext ls)) :: usize)) @ '' errors='' @
          dec_string (unat (of_nat (length warnings) :: usize)))]), t)"
      "length warnings + length (accepted_frames ext ls) = length (work_lines ls)"
      "vb_responses t = fold register (accepted_frames ext ls) Map.empty"
    using send_json_loop_result [OF new(1), of ext ls 0 0 "[]"] new(2)
    by (auto simp: cmd_send_def cmd_send_json_def)
  have "main ext env now start (map Inr ls) text (CmdSend i d Json) =
      Some (0, map Err warnings @ [Err (''rust-lin: send --format json: sent='' @
        dec_string (unat (of_nat (length (accepted_frames ext ls)) :: usize)) @ '' errors='' @
        dec_string (unat (of_nat (length warnings) :: usize)))])"
    unfolding main_def run_def commands.case loop(1) by simp
  moreover have "snd (cmd_send ext (map Inr ls) i d Json) = t"
    unfolding loop(1) by simp
  ultimately show ?thesis
    using loop(2,3) unfolding unat_count by blast
qed

section \<open>subscribe\<close>

definition received_line :: "'ts external \<Rightarrow> nat \<Rightarrow> lin_frame \<Rightarrow> out_line" where
  "received_line ext n f =
     Out (''['' @ dec_string (n mod 2 ^ 64) @ ''] id=0x'' @ hex02 (fr_id f) @ '' checksum=0x'' @
       hex02 (fr_checksum f) @ '' ct='' @ checksum_type_display (fr_checksum_type f) @ '' data='' @
       hex_encode ext (fr_data f))"

fun received_lines :: "'ts external \<Rightarrow> nat \<Rightarrow> lin_frame list \<Rightarrow> out_line list" where
  "received_lines ext n [] = []"
| "received_lines ext n (f # fs) = received_line ext (Suc n) f # received_lines ext (Suc n) fs"

lemma print_received_text:
  "print_received ext Text (of_nat n + 1) now f = Inr (received_line ext (Suc n) f)"
proof -
  have "(of_nat n + 1 :: usize) = of_nat (Suc n)" by (simp add: add.commute)
  then show ?thesis
    by (simp only: print_received_def received_line_def output_format.case unat_count)
qed

text \<open>The state the next poll finds: other tasks act before the first poll only.\<close>

lemma rx_recv_cases:
  assumes "c = vb_heap s ! rx" and "rx < length (vb_heap s)"
  shows "queue c = f # fs \<Longrightarrow> \<exists>t. rx_recv rx s = (Ready (Some f), t) \<and> rx < length (vb_heap t) \<and>
      queue (vb_heap t ! rx) = fs \<and> sub_closed (vb_heap t ! rx) = sub_closed c"
    and "queue c = [] \<Longrightarrow> sub_closed c \<Longrightarrow> rx_recv rx s = (Ready None, s)"
    and "queue c = [] \<Longrightarrow> \<not> sub_closed c \<Longrightarrow> rx_recv rx s = (Pending, s)"
  using assms by (simp_all add: rx_recv_def recv_poll_eq)

lemma subscribe_loop_waits:
  assumes "subscribe_loop ext format env now count rx k received out s = Some r"
    and "\<forall>j. env (Suc j) = (\<lambda>s. s)" and "\<not> (count > 0 \<and> received \<ge> count)"
    and "rx < length (vb_heap (env k s))"
    and "queue (vb_heap (env k s) ! rx) = []" and "\<not> sub_closed (vb_heap (env k s) ! rx)"
  shows False
proof -
  have "(\<forall>j. env (Suc j) = (\<lambda>s. s)) \<longrightarrow> \<not> (count > 0 \<and> received \<ge> count) \<longrightarrow>
      rx < length (vb_heap (env k s)) \<longrightarrow> queue (vb_heap (env k s) ! rx) = [] \<longrightarrow>
      sub_closed (vb_heap (env k s) ! rx)"
  proof (rule subscribe_loop.raw_induct [where P = "\<lambda>ext format env now count rx k received out s r.
      (\<forall>j. env (Suc j) = (\<lambda>s. s)) \<longrightarrow> \<not> (count > 0 \<and> received \<ge> count) \<longrightarrow>
      rx < length (vb_heap (env k s)) \<longrightarrow> queue (vb_heap (env k s) ! rx) = [] \<longrightarrow>
      sub_closed (vb_heap (env k s) ! rx)", OF _ assms(1)], intro impI, rule ccontr)
    fix loop and ext :: "'a external" and format and env :: "nat \<Rightarrow> virtual_bus \<Rightarrow> virtual_bus"
      and now and count :: usize and rx k and received :: usize and out s r
    assume IH: "\<And>ext format env now count rx k received out s r.
        loop ext format env now count rx k received out s = Some r \<Longrightarrow>
        (\<forall>j. env (Suc j) = (\<lambda>s. s)) \<longrightarrow> \<not> (count > 0 \<and> received \<ge> count) \<longrightarrow>
        rx < length (vb_heap (env k s)) \<longrightarrow> queue (vb_heap (env k s) ! rx) = [] \<longrightarrow>
        sub_closed (vb_heap (env k s) ! rx)"
      and eq: "(if count > 0 \<and> received \<ge> count then Some (Inr (), out, s)
        else (case rx_recv rx (env k s) of
          (Pending, s1) \<Rightarrow> loop ext format env now count rx (Suc k) received out s1
        | (Ready None, s1) \<Rightarrow> Some (Inr (), out, s1)
        | (Ready (Some f), s1) \<Rightarrow>
            (case print_received ext format (received + 1) (now k) f of
               Inl e \<Rightarrow> Some (Inl e, out, s1)
             | Inr line \<Rightarrow>
                 loop ext format env now count rx (Suc k) (received + 1) (out @ [line]) s1))) = Some r"
      and idle: "\<forall>j. env (Suc j) = (\<lambda>s. s)" and more: "\<not> (count > 0 \<and> received \<ge> count)"
      and rx: "rx < length (vb_heap (env k s))" and empty: "queue (vb_heap (env k s) ! rx) = []"
      and "open": "\<not> sub_closed (vb_heap (env k s) ! rx)"
    have "rx_recv rx (env k s) = (Pending, env k s)"
      using rx_recv_cases(3) [OF refl rx empty "open"] .
    with eq more have "loop ext format env now count rx (Suc k) received out (env k s) = Some r"
      by simp
    from IH [OF this] idle more rx empty "open" show False by simp
  qed
  with assms(2-6) show False by blast
qed

definition without_bus :: "'a \<times> 'b \<times> 'c \<Rightarrow> 'a \<times> 'b" where
  "without_bus r = (fst r, fst (snd r))"

lemma subscribe_loop_drain:
  assumes idle: "\<forall>j. env (Suc j) = (\<lambda>s. s)"
  shows "rx < length (vb_heap (env k s)) \<Longrightarrow> queue (vb_heap (env k s) ! rx) = fs \<Longrightarrow>
    sub_closed (vb_heap (env k s) ! rx) = closed \<Longrightarrow> count = 0 \<or> n \<le> unat count \<Longrightarrow>
    map_option without_bus (subscribe_loop ext Text env now count rx k (of_nat n) out s) =
      (if count \<noteq> 0 \<and> unat count - n \<le> length fs \<or> closed then
         Some (Inr (), out @ received_lines ext n
           (take (if count = 0 then length fs else unat count - n) fs))
       else None)"
proof (induction fs arbitrary: k s n out)
  note unfold_loop = subscribe_loop.simps [of ext Text env now count rx]
  have done_iff: "(count > 0 \<and> of_nat n \<ge> count) = (count \<noteq> 0 \<and> n = unat count)"
    if "count = 0 \<or> n \<le> unat count" for n
  proof (cases "count = 0")
    case False
    then have "n < 2 ^ 64" using that unsigned_less [where 'a = nat, of count] by simp
    then show ?thesis using False that by (auto simp: word_le_nat_alt unat_count word_gt_0)
  qed simp
  {
    case Nil
    show ?case
    proof (cases "count \<noteq> 0 \<and> n = unat count")
      case True
      then have "count > 0 \<and> of_nat n \<ge> count" using done_iff [OF Nil(4)] by blast
      with True show ?thesis
        by (subst unfold_loop) (simp add: without_bus_def)
    next
      case False
      then have more: "\<not> (count > 0 \<and> of_nat n \<ge> count)" by (simp only: done_iff [OF Nil(4)] not_False_eq_True)
      have left: "\<not> (count \<noteq> 0 \<and> unat count - n \<le> 0)" using False Nil(4) by auto
      show ?thesis
      proof (cases closed)
        case True
        then show ?thesis
          using rx_recv_cases(2) [OF refl Nil(1,2)] Nil(3) more
          by (subst unfold_loop) (simp add: without_bus_def)
      next
        case False
        then have "subscribe_loop ext Text env now count rx k (of_nat n) out s = None"
          using subscribe_loop_waits [OF _ idle more Nil(1,2)] Nil(3) by (metis not_None_eq)
        with False left show ?thesis by simp
      qed
    qed
  next
    case (Cons f fs)
    show ?case
    proof (cases "count \<noteq> 0 \<and> n = unat count")
      case True
      then have "count > 0 \<and> of_nat n \<ge> count" using done_iff [OF Cons.prems(4)] by blast
      with True show ?thesis
        by (subst unfold_loop) (simp add: without_bus_def)
    next
      case False
      then have more: "\<not> (count > 0 \<and> of_nat n \<ge> count)"
        by (simp only: done_iff [OF Cons.prems(4)] not_False_eq_True)
      obtain t where t: "rx_recv rx (env k s) = (Ready (Some f), t)" "rx < length (vb_heap t)"
        "queue (vb_heap t ! rx) = fs" "sub_closed (vb_heap t ! rx) = closed"
        using rx_recv_cases(1) [OF refl Cons.prems(1,2)] Cons.prems(3) by auto
      have next_n: "count = 0 \<or> Suc n \<le> unat count" using False Cons.prems(4) by auto
      have "subscribe_loop ext Text env now count rx k (of_nat n) out s =
          subscribe_loop ext Text env now count rx (Suc k) (of_nat (Suc n))
            (out @ [received_line ext (Suc n) f]) t"
      proof -
        have Suc_n: "(of_nat (Suc n) :: usize) = of_nat n + 1" by (simp add: add.commute)
        show ?thesis
          unfolding Suc_n
          by (subst unfold_loop) (simp only: more if_False t(1) prod.case poll.case option.case
              print_received_text sum.case)
      qed
      moreover have "unat count - n = Suc (unat count - Suc n)" if "count \<noteq> 0"
        using next_n that by auto
      ultimately show ?thesis
        using Cons.IH [of "Suc k" t "Suc n" "out @ [received_line ext (Suc n) f]"] t(2-4) idle next_n
        by auto
    qed
  }
qed

text \<open>The bus after the tool has subscribed.\<close>

definition subscribed :: "instant \<Rightarrow> virtual_bus" where
  "subscribed start = snd (vb_subscribe [] subscriber_options_default start virtual_bus_new)"

lemma subscribed_sel:
  "vb_subscribe [] subscriber_options_default start virtual_bus_new = (Inr 0, subscribed start)"
  "length (vb_heap (subscribed start)) = 1" "queue (vb_heap (subscribed start) ! 0) = []"
  "\<not> sub_closed (vb_heap (subscribed start) ! 0)"
  by (simp_all add: subscribed_def vb_subscribe_def virtual_bus_new_def Let_def sub_inner_new_def)

definition subscribe_banner :: "usize \<Rightarrow> out_line" where
  "subscribe_banner count = Err (''rust-lin: subscribing on virtual bus ('' @
     (if count = 0 then ''unlimited'' else dec_string (unat count) @ '' frames'') @ '')'')"

text \<open>
  when \<open>subscribe --count N\<close> returns and what it prints.  Let other tasks do anything to
  its bus before the first poll and nothing afterwards.  If that leaves at least \<open>N > 0\<close>
  frames in the receiver's queue, the tool prints the first \<open>N\<close>, numbered from 1, and exits
  with 0; if it leaves fewer, or \<open>N\<close> is 0, and the receiver closed, it prints all of them
  and exits with 0; otherwise it waits for ever.  The tool creates the bus itself, so in
  the program as it is nothing happens to it and \<open>subscribe\<close> never returns.
\<close>

theorem subscribe_outcome:
  assumes "\<forall>k. env (Suc k) = (\<lambda>s. s)" and "vb_heap (env 0 (subscribed start)) \<noteq> []"
    and "c = vb_heap (env 0 (subscribed start)) ! 0"
  shows "main ext env now start lines text (CmdSubscribe count Text) =
    (if count \<noteq> 0 \<and> unat count \<le> length (queue c) \<or> sub_closed c then
       Some (0, subscribe_banner count # received_lines ext 0
         (take (if count = 0 then length (queue c) else unat count) (queue c)))
     else None)"
proof -
  let ?loop = "subscribe_loop ext Text env now count 0 0 0 [subscribe_banner count] (subscribed start)"
  have "map_option without_bus ?loop =
      (if count \<noteq> 0 \<and> unat count \<le> length (queue c) \<or> sub_closed c then
         Some (Inr (), subscribe_banner count # received_lines ext 0
           (take (if count = 0 then length (queue c) else unat count) (queue c)))
       else None)"
    using subscribe_loop_drain [OF assms(1), where rx = 0 and k = 0 and s = "subscribed start"
        and n = 0 and out = "[subscribe_banner count]" and ext = ext and now = now and count = count] assms(2,3)
    by simp
  moreover have "main ext env now start lines text (CmdSubscribe count Text) =
      (case ?loop of None \<Rightarrow> None
        | Some (Inl e, out, s) \<Rightarrow> Some (1, out @ [Err (''rust-lin: error: '' @ e)])
        | Some (Inr _, out, s) \<Rightarrow> Some (0, out))"
    by (auto simp: main_def run_def cmd_subscribe_def subscribed_sel Let_def subscribe_banner_def
        vb_close_def split: option.split sum.split prod.split)
  ultimately show ?thesis
    by (cases ?loop) (auto simp: without_bus_def split: if_splits)
qed

theorem subscribe_outcome_witness:
  "main demo_external (\<lambda>k s. s) (\<lambda>k. ()) 0 [] [] (CmdSubscribe 10 Text) = None \<and>
   main demo_external (\<lambda>k s. if k = 0 then snd (vb_close s) else s) (\<lambda>k. ()) 0 [] []
     (CmdSubscribe 10 Text) = Some (0, [subscribe_banner 10])"
proof
  show "main demo_external (\<lambda>k s. s) (\<lambda>k. ()) 0 [] [] (CmdSubscribe 10 Text) = None"
    by (subst subscribe_outcome [where c = "vb_heap (subscribed 0) ! 0"])
      (simp_all add: subscribed_sel flip: length_greater_0_conv)
  show "main demo_external (\<lambda>k s. if k = 0 then snd (vb_close s) else s) (\<lambda>k. ()) 0 [] []
     (CmdSubscribe 10 Text) = Some (0, [subscribe_banner 10])"
    by (subst subscribe_outcome [where c = "sub_close (vb_heap (subscribed 0) ! 0)"])
      (simp_all add: subscribed_def vb_subscribe_def virtual_bus_new_def bus_inner_new_def Let_def
        sub_inner_new_def vb_close_def sub_close_def)
qed

section \<open>convert\<close>

text \<open>
  the exit codes and output of \<open>convert\<close> on any input.  It exits with 2 exactly when the
  protocol is not \<open>LIN\<close> in any case, with 1 exactly when the input is then no frame or an
  invalid one, and it prints a text and exits with 0 exactly when the input is a valid frame
  and the text is the message of that frame at the epoch; that message converts back to
  the very frame read, checksum included.
\<close>

theorem convert_outcome:
  "((fst (cmd_convert ext now stdin protocol format) = Inr 2) =
      (map ascii_lower protocol \<noteq> ''lin'')) \<and>
   ((fst (cmd_convert ext now stdin protocol format) = Inr 1) =
      (map ascii_lower protocol = ''lin'' \<and>
       \<not> (\<exists>f. frame_parse ext stdin = Inr f \<and> validate_frame f = Inr ()))) \<and>
   ((cmd_convert ext now stdin protocol format = (Inr 0, [Out t])) =
      (map ascii_lower protocol = ''lin'' \<and>
       (\<exists>f. frame_parse ext stdin = Inr f \<and> validate_frame f = Inr () \<and>
          message_pretty ext (to_message (unix_epoch ext) f) = Inr t \<and>
          from_message (to_message (unix_epoch ext) f) = Inr f)))"
proof -
  have lin: "map ascii_lower ''LIN'' = ''lin''" by code_simp
  have stamp: "(to_message now f)\<lparr>msg_timestamp := u\<rparr> = to_message u f" for f and u :: 'a
    by (simp add: to_message_def Let_def)
  have inverse: "validate_frame f = Inr () \<Longrightarrow> from_message (to_message u f) = Inr f" for f and u :: 'a
    by (simp add: from_to_message validate_frame_ok not_less)
  show ?thesis
    unfolding cmd_convert_def eq_ignore_ascii_case_def lin
    by (auto simp: stamp Let_def print_ok_def inverse split: sum.splits)
qed

end
