(* ===== verification/Spec2Isabelle.thy ===== *)
theory Spec2Isabelle
  imports E2E_Safety Bus_Linearizable Bus_Cancellation Bus_Provenance Receiver_Sharing
    Base64_Serde Slave_Concurrency Mock_Concurrency Master_Node Relay_Bridge Adapter_Wakeup Signal_Packing Signal_Path Cli_Facts
begin

text \<open>
  A verification development for rust-LIN (\<open>src/src\<close>), a library for the LIN bus: an
  in-process master/slave bus, nodes that use it, an adapter to the RELAY message
  interface, and end-to-end protection of payloads.

  Parts of the program and where they are modelled.  \<open>frame.rs\<close>: theory \<open>Lin_Frame\<close>
  (constants, \<open>Frame\<close>, \<open>Filter\<close>, \<open>protect_id\<close>, \<open>verify_pid\<close>, \<open>calc_checksum\<close>,
  \<open>validate_frame\<close>).  \<open>error.rs\<close> and \<open>relay.rs\<close>: theory \<open>Relay_Types\<close> (both error types,
  protocol numbers, messages, subscriber options, deadlines, health, metrics).
  \<open>bus.rs\<close>: theory \<open>Lin_Bus\<close> (the subscriber queue \<open>SubInner\<close> with rate limiter and
  back-pressure policies, one turn of \<open>FrameReceiver::recv\<close>, and the traits \<open>Bus\<close> and
  \<open>MasterBus\<close> as the locales \<open>lin_bus\<close> and \<open>lin_master_bus\<close>).  \<open>virtual_bus/mod.rs\<close>: theory
  \<open>Virtual_Bus\<close>; its abstract specification and refinement: \<open>Virtual_Bus_Spec\<close>; its methods as
  tasks that interleave: \<open>Bus_Concurrency\<close>, with \<open>Bus_Linearizable\<close> for what overlapping
  calls can observe, \<open>Bus_Closing\<close> for closing, \<open>Bus_Progress\<close> for progress,
  \<open>Bus_Cancellation\<close> for calls dropped by their callers, and \<open>Bus_Provenance\<close> for where
  frames come from.  \<open>FrameReceiver::recv\<close> as a task:
  \<open>Receiver_Wakeup\<close>, and as several tasks on one receiver: \<open>Receiver_Sharing\<close>.
  \<open>mock/mod.rs\<close>: \<open>Mock_Bus\<close>, its methods as tasks \<open>Mock_Concurrency\<close>.  \<open>slave/mod.rs\<close>: \<open>Slave_Node\<close>, with several tasks
  \<open>Slave_Concurrency\<close>.  \<open>master/mod.rs\<close>: \<open>Master_Node\<close>.  The trait \<open>Node\<close> of \<open>relay.rs\<close>:
  the locale of \<open>Relay_Node\<close>.  \<open>adapt.rs\<close>: \<open>Relay_Adapter\<close>, a subscription as a
  pipeline of bus, forwarding task and client in \<open>Adapter_Pipeline\<close>, with the wake-ups of
  the task in \<open>Adapter_Wakeup\<close>, and two adapters as a bridge between two buses in \<open>Relay_Bridge\<close>.  \<open>safety/mod.rs\<close>: \<open>E2E_Safety\<close>.
  \<open>ldf/mod.rs\<close>: \<open>Ldf_Text\<close> (the string and floating-point parsing operations of the
  standard library it uses, on UTF-8 bytes), \<open>Ldf_Parser\<close> (database, decoding, parser),
  \<open>Ldf_Facts\<close> (decoding as arithmetic, well-formedness of every parsed database, when
  parsing fails), \<open>Signal_Packing\<close> (a reference encoder, which decoding inverts),
  \<open>Ldf_Text_Facts\<close> and \<open>Ldf_Roundtrip\<close> (a printer of descriptions, which
  the parser inverts).  \<open>bin/main.rs\<close>: \<open>Cli\<close> (the commands, from their parsed arguments to
  exit code and output) and \<open>Cli_Facts\<close>.  \<open>Signal_Path\<close>: description, slave and bus together.
  \<open>base64_serde.rs\<close>: \<open>Base64_Serde\<close>.
  \<open>Rust_Text\<close> holds the formatting and integer parsing of the standard library the
  sources use, \<open>Lin_Prelude\<close> the types, encodings and shared lemmas.

  How they interact.  A node (\<open>Slave_Node\<close>, \<open>Master_Node\<close>, \<open>Relay_Adapter\<close>) holds a shared
  bus and calls its trait methods; its operations take these as arguments and act on the
  pair of bus state and node state.  The buses keep their registrations, a closed flag and
  references to subscriber cells, which they share with the receivers handed out: a heap
  of cells inside the bus record, a reference being an index.  Both buses interpret
  \<open>lin_master_bus\<close>, and what the nodes guarantee over any bus is proved inside the locales
  and read off for each.

  Conventions.  A Rust method is a function from its arguments and the state to its result
  and the new state; \<open>Result\<close> is a sum with the error on the left, early returns are
  branches, error texts are kept.  Integers keep their width and wrap around (the
  counters of the metrics and the E2E sequence do so in the program; the sequence number
  of the forwarding task stays far from the limit).
  Reading the clock, the success of a channel send (outside \<open>Adapter_Pipeline\<close>) and the calls of other tasks between two
  steps of a node are arguments.  A method of the bus runs as one step, except in
  \<open>Mock_Concurrency\<close>, where a section under one mutex is a step, and in
  \<open>Bus_Concurrency\<close>, where a task stops at every await point, between two subscribers of a
  broadcast and before the counters, and any other tasks and receivers run meanwhile.  In
  \<open>Receiver_Wakeup\<close> the steps of \<open>recv\<close>, pushes and the two halves of \<open>close\<close> interleave and
  calls of \<open>recv\<close> are dropped, and in \<open>Slave_Concurrency\<close> publication and record of
  several tasks.  In \<open>Adapter_Pipeline\<close> pushes, the steps of the forwarding task and the
  client's reads interleave, the task polling at any time; in \<open>Adapter_Wakeup\<close> it runs the
  steps of \<open>recv\<close> and goes on only when it has been woken.

  What the lemmas show.  \<open>Lin_Frame\<close>: PIDs form a code of distance two, the checksum loop
  is an end-around-carry sum.  \<open>Lin_Bus\<close>: a capacity and rate invariant kept by every
  operation, what each policy keeps of a run of pushes, order under any interleaving.
  \<open>Virtual_Bus\<close>: an invariant of all reachable states (a step relation over all methods),
  the effect of an exchange on every subscriber and counter.  \<open>Virtual_Bus_Spec\<close>: a
  simulation with an abstract bus, hence equality of all replies.  \<open>Bus_Concurrency\<close>: mutual
  exclusion and well-formedness under every interleaving, one order of exchanges for all
  receivers, and a task left alone does what the method does as one step.
  \<open>Bus_Linearizable\<close>: the interleaved bus is simulated by an atomic one; an exchange takes
  effect when it gives the mutex back, every other call in its critical section or at the
  check that rejects it.  \<open>Bus_Closing\<close>:
  receivers handed out before a close are ended by it for every later call of \<open>recv\<close>, one
  handed out too late is not.
  \<open>Bus_Progress\<close>: the mutex is always given back and every call can be completed.
  \<open>Bus_Cancellation\<close>: dropped calls leave the bus in order, except a dropped \<open>close\<close>.
  \<open>Bus_Provenance\<close>: what a receiver gets, some task has published.
  \<open>Receiver_Wakeup\<close>: \<open>recv\<close> never sleeps on a frame, and closing wakes it except in one
  window.  \<open>Receiver_Sharing\<close>: tasks on one receiver never all sleep on a frame, but one
  can.  \<open>Slave_Concurrency\<close>: the book-keeping is right for calls that do not overlap.
  \<open>Mock_Concurrency\<close>: the replies of the mock bus are linearizable, with the calls that saw
  the flag clear put before the \<open>close\<close> that set it, its record and deliveries are not.
  \<open>Relay_Bridge\<close>: what one adapter emits the other registers.  \<open>Adapter_Pipeline\<close>: what
  the client of an adapter gets, in which order, how much is held on the way, and what
  happens when the client goes away.  \<open>Adapter_Wakeup\<close>: closing brings the client all that is
  left and ends the task, except in the window of the lost wake-up.  \<open>E2E_Safety\<close>: the CRC is
  linear and injective where needed for the detection results.  \<open>Ldf_Facts\<close> and
  \<open>Ldf_Roundtrip\<close>: a signal is a slice of the payload read as one number, the section
  loops of the parser are folds over lines, a printed line has the effect it stands for.
  \<open>Cli_Facts\<close>: exit codes and output of the commands.  Here: results about several
  components together.

  Bounds.  No fuel is used.  The loops of the description parser end because the cursor
  moves.  The two loops that may run for ever are a \<open>partial_function\<close>: \<open>MasterNode::run\<close>,
  whose returning is proved equivalent to the deadline passing at some check, and bounded
  for a clock that advances, and the receiving loop of \<open>subscribe\<close>, whose returning is
  characterised by what its receiver holds.  The round trip of descriptions bounds numbers
  by what the parser represents exactly: \<open>2 ^ 63\<close> for \<open>parse_int\<close>, \<open>2 ^ 53\<close> for \<open>parse_uint\<close>,
  which reads through a double.

  External functions.  Argument parsing (\<open>clap\<close>), JSON (\<open>serde_json\<close>), hexadecimal text
  (\<open>hex\<close>) and the epoch (\<open>chrono\<close>) are arguments of the commands that use them; the order
  in which a hash map is iterated is an argument of the parser.  The notification object of
  tokio is an argument of \<open>Receiver_Wakeup\<close>; what its documentation promises to a single
  waiting task is the hypothesis \<open>notify_laws\<close>, and to several the hypothesis \<open>many_laws\<close>.  The bounded
  channel of tokio is an argument of \<open>Adapter_Pipeline\<close> with the hypothesis \<open>channel_laws\<close>.

  Not modelled: the serde derives (an external crate) and the trait \<open>Caller\<close>, which nothing
  implements.
\<close>

section \<open>Clients see the same replies from either bus\<close>

text \<open>A client's calls, played against the operations of any bus.\<close>

datatype client_call =
  ClientPublish u8 "bytes option" | ClientSend "nat \<Rightarrow> instant" context_t u8 | ClientClose

fun client_step :: "(u8 \<Rightarrow> bytes option \<Rightarrow> 's \<Rightarrow> (error + unit) \<times> 's) \<Rightarrow>
    ('s \<Rightarrow> (error + unit) \<times> 's) \<Rightarrow>
    ((nat \<Rightarrow> instant) \<Rightarrow> context_t \<Rightarrow> u8 \<Rightarrow> 's \<Rightarrow> (error + lin_frame) \<times> 's) \<Rightarrow>
    client_call \<Rightarrow> 's \<Rightarrow> bus_reply \<times> 's" where
  "client_step publish close_bus send (ClientPublish i d) s = map_prod ReplyUnit id (publish i d s)"
| "client_step publish close_bus send (ClientSend clk ctx i) s =
     map_prod ReplyFrame id (send clk ctx i s)"
| "client_step publish close_bus send ClientClose s = map_prod ReplyUnit id (close_bus s)"

primrec client_run :: "(client_call \<Rightarrow> 's \<Rightarrow> bus_reply \<times> 's) \<Rightarrow> client_call list \<Rightarrow> 's \<Rightarrow>
    bus_reply list \<times> 's" where
  "client_run step [] s = ([], s)"
| "client_run step (c # cs) s =
     (fst (step c s) # fst (client_run step cs (snd (step c s))),
      snd (client_run step cs (snd (step c s))))"

text \<open>Publications the two buses treat alike: identifiers up to \<open>0x3F\<close> that are not
  diagnostic, and payloads that are not empty.\<close>

fun plain_call :: "client_call \<Rightarrow> bool" where
  "plain_call (ClientPublish i d) \<longleftrightarrow> i \<le> LIN_MAX_ID \<and> \<not> is_diagnostic i \<and> d \<noteq> Some []"
| "plain_call _ \<longleftrightarrow> True"

abbreviation on_virtual :: "client_call \<Rightarrow> virtual_bus \<Rightarrow> bus_reply \<times> virtual_bus" where
  "on_virtual \<equiv> client_step vb_publish vb_close vb_send_header"

abbreviation on_mock :: "client_call \<Rightarrow> mock_bus \<Rightarrow> bus_reply \<times> mock_bus" where
  "on_mock \<equiv> client_step mb_publish mb_close mb_send_header"

definition mirrors :: "mock_bus \<Rightarrow> virtual_bus \<Rightarrow> bool" where
  "mirrors m s \<longleftrightarrow> mb_closed m = vb_closed s \<and>
     vb_responses s = (\<lambda>i. map_option (\<lambda>d. \<lparr>sr_data = d, sr_checksum_type = Enhanced\<rparr>)
       (mb_responses m i)) \<and>
     (\<forall>i d. mb_responses m i = Some d \<longrightarrow>
        i \<le> LIN_MAX_ID \<and> \<not> is_diagnostic i \<and> d \<noteq> [] \<and> length d \<le> LIN_MAX_DATA_LEN)"

lemma mirrors_publish:
  assumes "mirrors m s" and "plain_call (ClientPublish i d)"
  shows "fst (mb_publish i d m) = fst (vb_publish i d s) \<and>
    mirrors (snd (mb_publish i d m)) (snd (vb_publish i d s))"
proof -
  have same: "fst (mb_publish i d m) = fst (vb_publish i d s)"
    using assms
    by (auto simp: mirrors_def mb_publish_result vb_publish_def publish_with_type_result not_less)
  have "mirrors (snd (mb_publish i d m)) (snd (vb_publish i d s))"
  proof (cases "fst (mb_publish i d m) = Inr ()")
    case True
    then have "\<forall>b. d = Some b \<longrightarrow> length b \<le> LIN_MAX_DATA_LEN"
      by (auto simp: mb_publish_result not_less split: if_splits)
    moreover have "fst (publish_with_type i d Enhanced s) = Inr ()"
      using True same by (simp add: vb_publish_def)
    ultimately show ?thesis
      using assms True
      by (auto simp: mirrors_def mb_publish_state vb_publish_def publish_with_type_state
          stored_type_def fun_eq_iff)
  next
    case False
    then have "fst (publish_with_type i d Enhanced s) \<noteq> Inr ()"
      using same by (simp add: vb_publish_def)
    with False assms show ?thesis
      by (simp add: mirrors_def mb_publish_state vb_publish_def publish_with_type_state)
  qed
  with same show ?thesis by simp
qed

lemma mirrors_send:
  assumes "mirrors m s"
  shows "fst (mb_send_header clk ctx i m) = fst (vb_send_header clk ctx' i s) \<and>
    mirrors (snd (mb_send_header clk ctx i m)) (snd (vb_send_header clk ctx' i s))"
proof (cases "mb_responses m i")
  case None
  with assms show ?thesis
    by (auto simp: mb_send_header_def vb_send_header_eq mirrors_def id_error_def Let_def)
next
  case (Some d)
  let ?r = "\<lparr>sr_data = d, sr_checksum_type = Enhanced\<rparr>"
  have r: "vb_responses s i = Some ?r" "response_ok i ?r" "d \<noteq> []"
    using assms Some by (auto simp: mirrors_def response_ok_def)
  with Some assms validate_response_frame [OF r(2)] show ?thesis
    by (auto simp: mb_send_header_def vb_send_header_eq mirrors_def id_error_def Let_def
        response_frame_def)
qed

lemma mirrors_close:
  "mirrors m s \<Longrightarrow> fst (mb_close m) = fst (vb_close s) \<and>
     mirrors (snd (mb_close m)) (snd (vb_close s))"
  by (auto simp: mirrors_def mb_close_def vb_close_def Let_def)

lemma mirrors_call:
  "mirrors m s \<Longrightarrow> plain_call c \<Longrightarrow> fst (on_mock c m) = fst (on_virtual c s) \<and>
     mirrors (snd (on_mock c m)) (snd (on_virtual c s))"
  using mirrors_publish mirrors_send mirrors_close by (cases c) auto

lemma mirrors_run:
  "mirrors m s \<Longrightarrow> \<forall>c \<in> set cs. plain_call c \<Longrightarrow>
     fst (client_run on_mock cs m) = fst (client_run on_virtual cs s)"
proof (induction cs arbitrary: m s)
  case (Cons c cs)
  with mirrors_call [of m s c] Cons.IH [of "snd (on_mock c m)" "snd (on_virtual c s)"] show ?case
    by simp
qed simp

lemma mirrors_new: "mirrors mock_bus_new virtual_bus_new"
  by (simp add: mirrors_def mock_bus_new_def virtual_bus_new_def bus_inner_new_def)

text \<open>
  The restriction to non-diagnostic identifiers is needed.  For \<open>0x3C\<close> and \<open>0x3D\<close> the
  mock bus answers a header with an enhanced-checksum frame, which \<open>validate_frame\<close>
  rejects; the virtual bus answers the same calls with a valid classic frame.
\<close>

theorem mock_diagnostic_frames:
  assumes "is_diagnostic i" and "d \<noteq> []" and "length d \<le> LIN_MAX_DATA_LEN"
  shows "\<exists>f g. fst (mb_send_header clk ctx i (snd (mb_publish i (Some d) mock_bus_new))) = Inr f \<and>
    fst (vb_send_header clk ctx i (snd (vb_publish i (Some d) virtual_bus_new))) = Inr g \<and>
    fr_checksum_type f = Enhanced \<and> validate_frame f \<noteq> Inr () \<and>
    fr_checksum_type g = Classic \<and> validate_frame g = Inr ()"
proof -
  have i: "i \<le> LIN_MAX_ID"
    using assms(1) by (auto simp: lin_defs word_le_nat_alt)
  let ?f = "\<lparr>fr_id = i, fr_data = d, fr_checksum = calc_checksum (protect_id i) d Enhanced,
    fr_checksum_type = Enhanced\<rparr>"
  let ?r = "\<lparr>sr_data = d, sr_checksum_type = Classic\<rparr>"
  have "fst (mb_send_header clk ctx i (snd (mb_publish i (Some d) mock_bus_new))) = Inr ?f"
    using i assms(3) by (simp add: mb_send_header_def mb_publish_def mock_bus_new_def Let_def not_less)
  moreover have "vb_responses (snd (vb_publish i (Some d) virtual_bus_new)) i = Some ?r"
    "\<not> vb_closed (snd (vb_publish i (Some d) virtual_bus_new))"
    using i assms by (simp_all add: vb_publish_def publish_with_type_state
        publish_with_type_result virtual_bus_new_def bus_inner_new_def stored_type_def not_less)
  then have "fst (vb_send_header clk ctx i (snd (vb_publish i (Some d) virtual_bus_new))) =
      Inr (response_frame i ?r)"
    using validate_response_frame [of i ?r] i assms
    by (simp add: vb_send_header_eq response_ok_def not_less)
  ultimately show ?thesis
    using i assms
    by (intro exI [of _ ?f] exI [of _ "response_frame i ?r"])
      (simp add: validate_frame_ok Suc_le_eq)
qed

theorem mock_diagnostic_frames_witness:
  "\<exists>f. fst (mb_send_header (\<lambda>k. 0) context_background 0x3D
       (snd (mb_publish 0x3D (Some [1]) mock_bus_new))) = Inr f \<and> validate_frame f \<noteq> Inr ()"
proof -
  have "is_diagnostic 0x3D" by (simp add: is_diagnostic_def LIN_DIAG_RESPONSE_ID_def)
  from mock_diagnostic_frames [OF this, of "[1]" "\<lambda>k. 0" context_background]
  show ?thesis by (auto simp: LIN_MAX_DATA_LEN_def)
qed

text \<open>
  C37: Where the mock bus stands in for the virtual bus: any sequence of publications of
  non-empty payloads on identifiers up to \<open>0x3F\<close> that are not diagnostic, of headers on any
  identifiers and of closings gives, from new buses, the same results, errors and frames on
  both.  It is about these three calls and these publications only: the mock accepts
  identifiers above \<open>0x3F\<close>, keeps the enhanced checksum for diagnostic ones, answers an empty
  payload with an invalid frame, and ignores filters and schedules.
\<close>

theorem mock_equals_virtual:
  assumes "\<forall>c \<in> set cs. plain_call c"
  shows "fst (client_run on_mock cs mock_bus_new) = fst (client_run on_virtual cs virtual_bus_new)"
  using mirrors_run [OF mirrors_new assms] .

theorem mock_equals_virtual_witness:
  "fst (client_run on_mock [ClientPublish 0x10 (Some [1]), ClientSend (\<lambda>k. 0) context_background 0x10,
      ClientSend (\<lambda>k. 0) context_background 0x50, ClientClose, ClientPublish 0x10 None] mock_bus_new) =
   fst (client_run on_virtual [ClientPublish 0x10 (Some [1]), ClientSend (\<lambda>k. 0) context_background 0x10,
      ClientSend (\<lambda>k. 0) context_background 0x50, ClientClose, ClientPublish 0x10 None] virtual_bus_new)"
  by (rule mock_equals_virtual)
    (simp add: lin_defs
      word_le_nat_alt)

section \<open>The slave node\<close>

lemma tracks_new:
  "vbus.tracks (virtual_bus_new, slave_node_new)" "mock.tracks (mock_bus_new, slave_node_new)"
  using vbus_inv_new mock_inv_new
  by (auto simp: vbus.tracks_def mock.tracks_def slave_node_new_def vb_payloads_def
      virtual_bus_new_def bus_inner_new_def mock_bus_new_def)

text \<open>
  The slave node's book-keeping agrees with the bus: after any calls of
  \<open>set_response\<close>, valid or not, \<open>registered_ids\<close> lists, in strictly increasing order,
  exactly the identifiers that have a response on the bus, all of them up to \<open>0x3F\<close>.  It holds
  over the virtual and over the mock bus.
\<close>

theorem slave_registered_ids:
  "set (registered_ids (snd (set_responses vb_publish cs (virtual_bus_new, slave_node_new)))) =
     {i. vb_responses (fst (set_responses vb_publish cs (virtual_bus_new, slave_node_new))) i \<noteq> None} \<and>
   set (registered_ids (snd (set_responses mb_publish cs (mock_bus_new, slave_node_new)))) =
     {i. mb_responses (fst (set_responses mb_publish cs (mock_bus_new, slave_node_new))) i \<noteq> None} \<and>
   sorted_wrt (<) (registered_ids (snd (set_responses vb_publish cs (virtual_bus_new, slave_node_new)))) \<and>
   set (registered_ids (snd (set_responses vb_publish cs (virtual_bus_new, slave_node_new)))) \<subseteq>
     {i. i \<le> LIN_MAX_ID}"
  using vbus.set_responses_tracks [OF tracks_new(1), of cs]
    mock.set_responses_tracks [OF tracks_new(2), of cs]
  by (auto simp: vbus.tracks_def mock.tracks_def vb_payloads_def dom_def)

text \<open>
  The slave's answer to the master.  After any run of \<open>set_response\<close> calls over a
  new virtual bus, the header of an identifier up to \<open>0x3F\<close> is answered with the payload
  of the last valid call for it; with \<open>NoResponse\<close> when there was none or the last one
  removed it; and with an invalid-frame error when that payload is empty.
\<close>

theorem slave_answers_header:
  assumes "i \<le> LIN_MAX_ID"
  shows "map_sum id fr_data (fst (vb_send_header clk ctx i
      (fst (set_responses vb_publish cs (virtual_bus_new, slave_node_new))))) =
    (case foldl response_update Map.empty cs i of
       None \<Rightarrow> Inl NoResponse
     | Some d \<Rightarrow> if d = [] then Inl (InvalidFrame ''frame data must not be empty'') else Inr d)"
proof -
  let ?s = "fst (set_responses vb_publish cs (virtual_bus_new, slave_node_new))"
  have inv: "vbus_inv ?s"
    using vbus.set_responses_tracks [OF tracks_new(1), of cs] by (simp add: vbus.tracks_def)
  have low: "\<not> LIN_MAX_ID < i" using assms by (simp add: not_less)
  have open_bus: "\<not> vb_closed ?s"
    using vbus.set_responses_closed [of cs virtual_bus_new slave_node_new]
    by (simp add: virtual_bus_new_def)
  have "vb_payloads ?s = foldl response_update (vb_payloads virtual_bus_new) cs"
    by (rule vbus.set_responses_table [OF vbus_inv_new]) (simp add: virtual_bus_new_def)
  moreover have "vb_payloads virtual_bus_new = Map.empty"
    by (simp add: vb_payloads_def fun_eq_iff virtual_bus_new_def bus_inner_new_def)
  ultimately have table: "vb_payloads ?s i = foldl response_update Map.empty cs i" by simp
  show ?thesis
  proof (cases "vb_responses ?s i")
    case None
    with table low open_bus show ?thesis by (simp add: vb_send_header_eq vb_payloads_def)
  next
    case (Some r)
    then have "response_ok i r" using inv by (simp add: vbus_inv_def)
    with Some table [symmetric] low open_bus validate_response_frame [of i r] show ?thesis
      by (simp add: vb_send_header_eq vb_payloads_def)
  qed
qed

theorem slave_answers_header_witness:
  "map_sum id fr_data (fst (vb_send_header (\<lambda>k. 0) context_background 0x11
      (fst (set_responses vb_publish [(0x11, Some [1, 2]), (0x90, Some [3]), (0x11, Some [4])]
        (virtual_bus_new, slave_node_new))))) = Inr [4]"
  by (subst slave_answers_header)
    (simp_all add: LIN_MAX_ID_def LIN_MAX_DATA_LEN_def response_update_def word_le_nat_alt)

section \<open>The master node\<close>

text \<open>
  Installing a schedule is all or nothing: it succeeds exactly on an open bus for a
  non-empty table with identifiers up to \<open>0x3F\<close>, and then bus and node hold that table;
  in every other case neither changes, and the error tells which check failed first.
\<close>

theorem master_set_schedule_atomic:
  "master_set_schedule vb_set_schedule es (s, n) =
     (if es = [] then (Inl (Other ''schedule must not be empty''), s, n)
      else if \<not> list_all (\<lambda>e. se_id e \<le> LIN_MAX_ID) es then
        (Inl (InvalidFrame (''schedule entry ID 0x'' @
           hex02 (se_id (hd (filter (\<lambda>e. se_id e > LIN_MAX_ID) es))) @ '' exceeds maximum 0x3F'')), s, n)
      else if vb_closed s then (Inl Closed, s, n)
      else (Inr (), s\<lparr>vb_inner := (vb_inner s)\<lparr>bi_schedule := es\<rparr>\<rparr>, n\<lparr>mn_schedule := es\<rparr>))"
proof -
  have err: "check_entries es = Inl (InvalidFrame (''schedule entry ID 0x'' @
      hex02 (se_id (hd (filter (\<lambda>e. se_id e > LIN_MAX_ID) es))) @ '' exceeds maximum 0x3F''))"
    if "\<not> list_all (\<lambda>e. se_id e \<le> LIN_MAX_ID) es"
    using that
    by (induction es) (auto simp: hex02_max_id not_le)
  show ?thesis
    using err check_entries_ok [of es]
    by (auto simp: master_set_schedule_def vb_set_schedule_def list_all_iff split: sum.splits)
qed

text \<open>
  from a description to the master: every schedule table of a database parsed from any
  text whatever, unless it is empty, is accepted by the master node on an open bus, which
  then holds that table.
\<close>

theorem parsed_schedule_accepted:
  assumes "ldf_parse iter content failure = Inr db"
    and "ldf_schedule_of db name = Some es" and "es \<noteq> []" and "\<not> vb_closed s"
  shows "master_set_schedule vb_set_schedule es (s, n) =
    (Inr (), s\<lparr>vb_inner := (vb_inner s)\<lparr>bi_schedule := es\<rparr>\<rparr>, n\<lparr>mn_schedule := es\<rparr>)"
proof -
  have "\<forall>e \<in> set es. se_id e \<le> LIN_MAX_ID"
    using ldf_parse_wf [OF assms(1)] assms(2)
    by (auto simp: db_wf_def entry_ok_def ldf_schedule_of_def)
  then have "check_entries es = Inr ()" by (simp add: check_entries_ok)
  with assms(3,4) show ?thesis
    by (simp add: master_set_schedule_def vb_set_schedule_def)
qed

theorem parsed_schedule_accepted_witness:
  "fst (master_set_schedule vb_set_schedule [\<lparr>se_id = 0x10, se_delay_ms = 10\<rparr>]
      (virtual_bus_new, master_node_new)) = Inr ()"
  using parsed_schedule_accepted [OF ldf_parse_print [OF doc_ok_sample iterates_key_order],
      where name = "''Normal''" and s = virtual_bus_new and n = master_node_new]
    db_of_sample by (simp add: ldf_schedule_of_def virtual_bus_new_def)

text \<open>
  The result of \<open>run\<close>, in closed form, for any clock and anything other tasks do
  between its calls: an empty schedule is refused at once; otherwise it returns exactly
  when some reading of the context's clock finds the deadline passed, always with
  \<open>Timeout\<close>, after half as many slots as the context was checked, rounded up to whole
  slots; the slots visit the schedule round-robin.
\<close>

theorem master_run_result:
  "master_run (\<lambda>k. vb_send_header (clk k) ctx) env (\<lambda>m. context_done ctx (now m)) (s, n) =
     (if mn_schedule n = [] then Some (Inl (Other ''master node: schedule is empty''), s, [])
      else if \<exists>m. context_done ctx (now m) then
        Some (Inl Timeout, slots (\<lambda>k. vb_send_header (clk k) ctx) env (mn_schedule n) s
          (Suc (LEAST m. context_done ctx (now m)) div 2))
      else None)"
  using master_run_eq [of n "\<lambda>k. vb_send_header (clk k) ctx" env "\<lambda>m. context_done ctx (now m)" s]
  by (simp add: master_run_def)

text \<open>
  C34: \<open>run\<close> stops in time.  With a timeout of \<open>d\<close> nanoseconds, a clock that never runs
  backwards, sleeps that last at least the slot's delay and delays of at least one
  millisecond, it returns \<open>Timeout\<close> after at most one slot more than the milliseconds of
  the timeout, whatever the bus answers.
\<close>

theorem master_run_stops:
  assumes "mn_schedule n \<noteq> []" and "t0 \<le> now 0" and "\<forall>m. now m \<le> now (Suc m)"
    and "\<forall>k. now (2 * k) + 1000000 * unat (se_delay_ms (mn_schedule n ! (k mod length (mn_schedule n))))
      \<le> now (2 * k + 1)"
    and "\<forall>e \<in> set (mn_schedule n). 0 < se_delay_ms e"
  shows "\<exists>j \<le> d div 1000000 + 1. master_run send env
      (\<lambda>m. context_done (context_with_timeout t0 d) (now m)) (s, n) =
    Some (Inl Timeout, slots send env (mn_schedule n) s j)"
proof -
  have slot: "now (2 * k) + 1000000 \<le> now (2 * Suc k)" for k
  proof -
    have "mn_schedule n ! (k mod length (mn_schedule n)) \<in> set (mn_schedule n)"
      using assms(1) by simp
    then have "0 < unat (se_delay_ms (mn_schedule n ! (k mod length (mn_schedule n))))"
      using assms(5) by (simp add: word_less_nat_alt)
    then have "now (2 * k) + 1000000 \<le> now (2 * k + 1)"
      using assms(4) [rule_format, of k] by simp
    also have "\<dots> \<le> now (2 * Suc k)" using assms(3) [rule_format, of "2 * k + 1"] by simp
    finally show ?thesis .
  qed
  have clock: "t0 + 1000000 * k \<le> now (2 * k)" for k
  proof (induction k)
    case (Suc k)
    with slot [of k] show ?case by simp
  qed (use assms(2) in simp)
  let ?k = "d div 1000000 + 1"
  have half: "m \<le> 2 * k \<Longrightarrow> Suc m div 2 \<le> k" for m k :: nat by linarith
  let ?done = "\<lambda>m. context_done (context_with_timeout t0 d) (now m)"
  have "d < 1000000 * ?k" using div_mult_mod_eq [of d 1000000] mod_less_divisor [of 1000000 d] by simp
  with clock [of ?k] have fin: "?done (2 * ?k)" by simp
  then have "(LEAST m. ?done m) \<le> 2 * ?k" by (rule Least_le)
  then have "Suc (LEAST m. ?done m) div 2 \<le> ?k" by (rule half)
  moreover have "\<exists>m. ?done m" using fin by blast
  ultimately show ?thesis using master_run_eq [OF assms(1), of send env ?done s] by auto
qed

definition demo_master :: master_node where
  "demo_master = \<lparr>mn_schedule =
     [\<lparr>se_id = 0x10, se_delay_ms = 1\<rparr>, \<lparr>se_id = 0x11, se_delay_ms = 2\<rparr>]\<rparr>"

theorem master_run_stops_witness:
  "\<exists>j \<le> 4. master_run (\<lambda>k. vb_send_header (\<lambda>_. 0) context_background) (\<lambda>k u. u)
      (\<lambda>m. context_done (context_with_timeout 5 3000000) (2000000 * m + 7)) (demo_bus, demo_master) =
    Some (Inl Timeout, slots (\<lambda>k. vb_send_header (\<lambda>_. 0) context_background) (\<lambda>k u. u)
      (mn_schedule demo_master) demo_bus j)"
proof -
  have "mn_schedule demo_master ! (k mod length (mn_schedule demo_master)) \<in>
      set (mn_schedule demo_master)" for k
    by (rule nth_mem) (simp add: demo_master_def)
  moreover have "\<forall>e \<in> set (mn_schedule demo_master). unat (se_delay_ms e) \<le> 2"
    by (simp add: demo_master_def)
  ultimately have delays: "unat (se_delay_ms (mn_schedule demo_master !
      (k mod length (mn_schedule demo_master)))) \<le> 2" for k
    by blast
  have "2000000 * (2 * k) + 7 + 1000000 * unat (se_delay_ms (mn_schedule demo_master !
      (k mod length (mn_schedule demo_master)))) \<le> 2000000 * (2 * k + 1) + 7" for k :: nat
    using delays [of k] by simp
  from master_run_stops [of demo_master 5 "\<lambda>m. 2000000 * m + 7" 3000000
      "\<lambda>k. vb_send_header (\<lambda>_. 0) context_background" "\<lambda>k u. u" demo_bus, OF _ _ _ allI [OF this]]
  show ?thesis by (simp add: demo_master_def)
qed

text \<open>A slot on the virtual bus, the other tasks leaving its identifier alone and the bus open.\<close>

lemma slots_leave:
  assumes "vbus_inv s" and "\<forall>k. list_all (leaves i) (calls k)"
    and u: "u = fst (slots (\<lambda>k. vb_send_header (clk k) ctx) (\<lambda>k u. snd (vb_calls (calls k) u)) sched s j)"
  shows "vbus_inv u \<and> vb_responses u i = vb_responses s i \<and> vb_closed u = vb_closed s"
  unfolding u
proof (rule slots_invariant [where P = "\<lambda>u. vbus_inv u \<and> vb_responses u i = vb_responses s i \<and> vb_closed u = vb_closed s"])
  fix k h and t :: virtual_bus
  assume t: "vbus_inv t \<and> vb_responses t i = vb_responses s i \<and> vb_closed t = vb_closed s"
  have "leaves i (CallSend (clk k) ctx h)" by (simp add: leaves_def)
  from vb_call_leaves [OF this, of t] vb_call_inv [of t "CallSend (clk k) ctx h"] t
  show "vbus_inv (snd (vb_send_header (clk k) ctx h t)) \<and>
      vb_responses (snd (vb_send_header (clk k) ctx h t)) i = vb_responses s i \<and>
      vb_closed (snd (vb_send_header (clk k) ctx h t)) = vb_closed s"
    by simp
next
  fix k and t :: virtual_bus
  assume t: "vbus_inv t \<and> vb_responses t i = vb_responses s i \<and> vb_closed t = vb_closed s"
  from vb_calls_leave [of "calls k" i t] vb_calls_inv [of t "calls k"] t assms(2)
  show "vbus_inv (snd (vb_calls (calls k) t)) \<and>
      vb_responses (snd (vb_calls (calls k) t)) i = vb_responses s i \<and>
      vb_closed (snd (vb_calls (calls k) t)) = vb_closed s"
    by (simp add: list_all_iff)
qed (use assms(1) in simp)

text \<open>
  C11: The events of a run over the virtual bus.  While the node sleeps other tasks make any
  calls that neither close the bus nor publish the identifier of the entry concerned.  The
  \<open>j\<close>-th slot is about entry \<open>j\<close> modulo the table length.  Its callback is \<open>on_frame\<close> with the
  registered payload and its checksum when the entry's identifier has a registration with a
  payload; it is \<open>on_error\<close>, without ending the run, with \<open>NoResponse\<close> when it has none, with
  the error of the empty payload when that is registered, and with the identifier error above
  \<open>0x3F\<close>.  The entry's delay follows the callback.
\<close>

theorem master_run_events:
  assumes "vbus_reachable s" and "\<not> vb_closed s"
    and "\<forall>k. list_all (leaves (se_id entry)) (calls k)"
    and "master_run (\<lambda>k. vb_send_header (clk k) ctx) (\<lambda>k u. snd (vb_calls (calls k) u)) expired (s, n) =
      Some (res, t, evs)"
    and "2 * j < length evs" and "mn_schedule n ! (j mod length (mn_schedule n)) = entry"
  shows "evs ! (2 * j) =
      (if se_id entry > LIN_MAX_ID then OnError (se_id entry) (id_error (se_id entry))
       else case vb_responses s (se_id entry) of
              None \<Rightarrow> OnError (se_id entry) NoResponse
            | Some r \<Rightarrow>
                if sr_data r = [] then OnError (se_id entry) (InvalidFrame ''frame data must not be empty'')
                else OnFrame \<lparr>fr_id = se_id entry, fr_data = sr_data r,
                  fr_checksum = calc_checksum (protect_id (se_id entry)) (sr_data r) (sr_checksum_type r),
                  fr_checksum_type = sr_checksum_type r\<rparr>) \<and>
    evs ! (2 * j + 1) = Slept (se_delay_ms entry)"
proof -
  let ?send = "\<lambda>k. vb_send_header (clk k) ctx"
  let ?env = "\<lambda>k u. snd (vb_calls (calls k) u)"
  have nonempty: "mn_schedule n \<noteq> []" using assms(4,5) by (auto simp: master_run_def)
  have "\<exists>N. slots ?send ?env (mn_schedule n) s N = (t, evs)"
    using assms(4) master_run_eq [OF nonempty, of ?send ?env expired s] by (auto split: if_splits)
  then obtain N where evs: "evs = snd (slots ?send ?env (mn_schedule n) s N)" by (metis snd_conv)
  have j: "j < N" using assms(5) by (simp add: evs length_slots)
  let ?u = "fst (slots ?send ?env (mn_schedule n) s j)"
  have u: "vbus_inv ?u" "vb_responses ?u (se_id entry) = vb_responses s (se_id entry)" "\<not> vb_closed ?u"
    using slots_leave [OF vbus_reachable_inv [OF assms(1)] assms(3) refl] assms(2) by simp_all
  note nth = slots_nth [OF j, of ?send ?env "mn_schedule n" s, folded evs, unfolded assms(6)]
  show ?thesis
  proof (cases "se_id entry > LIN_MAX_ID")
    case True
    then have "fst (?send j (se_id entry) ?u) = Inl (id_error (se_id entry))"
      using u(3) by (simp add: vb_send_header_eq)
    with nth True show ?thesis by simp
  next
    case False
    then have "se_id entry \<le> LIN_MAX_ID" by simp
    from nth send_header_open [OF u(1,3) this, of "clk j" ctx] u(2) False show ?thesis
      by (simp add: response_frame_def split: option.split)
  qed
qed

lemma demo_master_run:
  "master_run (\<lambda>k. vb_send_header (\<lambda>_. 0) ctx) (\<lambda>k u. snd (vb_calls [CallHealth] u))
     (\<lambda>m. 3 \<le> m) (demo_bus, demo_master) =
   Some (Inl Timeout, slots (\<lambda>k. vb_send_header (\<lambda>_. 0) ctx) (\<lambda>k u. snd (vb_calls [CallHealth] u))
     (mn_schedule demo_master) demo_bus 2)"
proof -
  have "(LEAST m :: nat. 3 \<le> m) = 3" by (rule Least_equality) auto
  moreover have "\<exists>m :: nat. 3 \<le> m" by (rule exI [of _ 3]) simp
  ultimately show ?thesis
    by (subst master_run_eq) (simp_all add: demo_master_def)
qed

theorem master_run_events_witness:
  "snd (slots (\<lambda>k. vb_send_header (\<lambda>_. 0) context_background)
      (\<lambda>k u. snd (vb_calls [CallHealth] u)) (mn_schedule demo_master) demo_bus 2) ! 2 =
    OnError 0x11 NoResponse"
proof -
  let ?evs = "snd (slots (\<lambda>k. vb_send_header (\<lambda>_. 0) context_background)
      (\<lambda>k u. snd (vb_calls [CallHealth] u)) (mn_schedule demo_master) demo_bus 2)"
  let ?t = "fst (slots (\<lambda>k. vb_send_header (\<lambda>_. 0) context_background)
      (\<lambda>k u. snd (vb_calls [CallHealth] u)) (mn_schedule demo_master) demo_bus 2)"
  let ?entry = "\<lparr>se_id = 0x11, se_delay_ms = 2\<rparr> :: schedule_entry"
  have quiet: "\<forall>k :: nat. list_all (leaves (se_id ?entry)) ((\<lambda>_. [CallHealth]) k)" by (simp add: leaves_def)
  have run: "master_run (\<lambda>k. vb_send_header ((\<lambda>_ _. 0) k) context_background)
      (\<lambda>k u. snd (vb_calls ((\<lambda>_. [CallHealth]) k) u)) (\<lambda>m. 3 \<le> m) (demo_bus, demo_master) =
      Some (Inl Timeout, ?t, ?evs)"
    using demo_master_run [of context_background] by simp
  have len: "2 * 1 < length ?evs" by (simp add: length_slots)
  have entry: "mn_schedule demo_master ! (1 mod length (mn_schedule demo_master)) = ?entry"
    by (simp add: demo_master_def)
  from master_run_events [OF demo_bus_reachable demo_bus_sel(2) quiet run len entry]
  show ?thesis by (simp add: LIN_MAX_ID_def word_le_nat_alt)
qed

text \<open>Over the mock bus, from the contract alone.\<close>

lemma mock_slot_outcome:
  assumes "mock_inv s" and "\<not> mb_closed s" and "j < n"
    and "sched ! (j mod length sched) = entry"
    and "ev = snd (slots (\<lambda>k. mb_send_header (clk k) ctx) (\<lambda>k t. t) sched s n) ! (2 * j)"
  shows "mb_responses s (se_id entry) = None \<Longrightarrow> se_id entry \<le> LIN_MAX_ID \<Longrightarrow>
      ev = OnError (se_id entry) NoResponse"
    and "ev = OnFrame f \<Longrightarrow> fr_id f = se_id entry \<and> mb_responses s (se_id entry) = Some (fr_data f)"
  using mock.slot_outcome [OF assms(1-3), where env = "\<lambda>k t. t" and sched = sched and clk = clk and ctx = ctx]
  unfolding assms(4,5) by simp_all

section \<open>The RELAY adapter\<close>

text \<open>
  Message conversion loses nothing: a frame whose identifier is at most \<open>0x3F\<close> comes
  back unchanged, checksum and checksum model included, from its RELAY message, whatever
  time stamp and sequence number the message was given; any other frame's message is
  rejected with an error naming the identifier.
\<close>

theorem message_roundtrip:
  "from_message ((to_message now f)\<lparr>msg_timestamp := u, msg_seq := k\<rparr>) =
     (if fr_id f \<le> LIN_MAX_ID then Inr f
      else Inl (InvalidFrame (''LIN ID '' @ dec_string (unat (fr_id f)) @ '' exceeds maximum ''
             @ dec_string 63)))"
  by (auto simp: from_to_message LIN_MAX_ID_def)

text \<open>
  Sending through the adapter, for any message: an oversized payload is refused
  before the bus is touched; a message that is not LIN, has no decimal identifier or one
  above \<open>0x3F\<close> is refused as \<open>Closed\<close>, the bus untouched; otherwise the result is that
  of publishing the payload, which fails only on a closed bus.
\<close>

theorem adapter_send_result:
  "adapter_send vb_publish m s =
     (if length (msg_payload m) > LIN_MAX_DATA_LEN then (Inl RPayloadTooLarge, s)
      else if msg_protocol m \<noteq> Lin then (Inl RClosed, s)
      else case parse_u8 (msg_id m) of
             None \<Rightarrow> (Inl RClosed, s)
           | Some i \<Rightarrow>
               if i > LIN_MAX_ID then (Inl RClosed, s)
               else if vb_closed s then (Inl RClosed, s\<lparr>vb_error_count := vb_error_count s + 1\<rparr>)
               else (Inr (), s\<lparr>vb_inner := (vb_inner s)\<lparr>bi_responses := (vb_responses s)
                 (i \<mapsto> \<lparr>sr_data = msg_payload m,
                       sr_checksum_type = (if is_diagnostic i then Classic else Enhanced)\<rparr>)\<rparr>\<rparr>))"
proof (cases "from_message m")
  case (Inl e)
  then show ?thesis
    using from_message_Inl [OF Inl]
    by (auto simp: adapter_send_def map_err_def relay_kind_def from_message_def Let_def
        split: if_splits option.splits)
next
  case (Inr f)
  note f = from_message_Inr [OF Inr]
  have "publish_with_type (fr_id f) (Some (fr_data f)) Enhanced s =
      (if vb_closed s then (Inl Closed, count_error s)
       else (Inr (), s\<lparr>vb_inner := (vb_inner s)\<lparr>bi_responses := (vb_responses s)
         (fr_id f \<mapsto> \<lparr>sr_data = fr_data f, sr_checksum_type = stored_type (fr_id f) Enhanced\<rparr>)\<rparr>\<rparr>))"
    if "\<not> length (msg_payload m) > LIN_MAX_DATA_LEN"
    using publish_with_type_state [of "fr_id f" "Some (fr_data f)" Enhanced s]
      publish_with_type_result [of "fr_id f" "Some (fr_data f)" Enhanced s] f that
    by (intro prod_eqI) (auto simp: not_less)
  with Inr f show ?thesis
    by (auto simp: adapter_send_def map_err_def relay_kind_def vb_publish_def count_error_def
        stored_type_def not_less)
qed

text \<open>
  From LIN to RELAY, end to end.  Subscribe through the adapter without a rate limit,
  exchange any headers, close the bus and let the forwarding task run: it stops, and the
  messages it put into its channel, converted back, are in order the frames that the
  back-pressure policy kept of those sent, numbered 0, 1, 2, \<open>\<dots>\<close> without a gap.
\<close>

theorem adapter_forwards_stream:
  assumes "vbus_reachable s"
    and "adapter_subscribe (\<lambda>flts o'. vb_subscribe flts o' now) opts s = (Inr (r, cap), t)"
    and "rate_limit_per_sec opts = 0"
    and "kept = keep (back_pressure opts)
        (unat (if channel_depth opts = 0 then 64 else channel_depth opts)) []
        (sent_frames (fst (send_all hs t)))"
    and "length nows = Suc (length kept)"
    and "w = forward_run (turns nows (fst (poll_times (Suc (length kept))
        (vb_heap (snd (vb_close (snd (send_all hs t)))) ! r)))) forwarder_new"
  shows "\<not> fw_running w \<and> map from_message (fw_out w) = map Inr kept \<and>
    map msg_seq (fw_out w) = map of_nat [0..<length kept]"
  using forwarded_stream [OF assms(1-5)] assms(6) by blast

theorem adapter_forwards_stream_witness:
  "map from_message (fw_out (forward_run (turns [(0, 0), (1, 1 :: nat)] (fst (poll_times 2
      (vb_heap (snd (vb_close (snd (send_all [(\<lambda>k. 0, 0x10)]
        (snd (vb_subscribe [] demo_options 0 demo_bus)))))) ! 0)))) forwarder_new)) =
    [Inr (response_frame 0x10 \<lparr>sr_data = [1, 2], sr_checksum_type = Enhanced\<rparr>)]"
  using adapter_forwards_stream [OF demo_bus_reachable demo_adapter_subscribe _ refl _ refl,
      where hs = "[(\<lambda>k. 0, 0x10)]" and nows = "[(0, 0), (1, 1 :: nat)]"]
  unfolding demo_send_all by (simp add: demo_options_def numeral_2_eq_2 del: poll_times.simps)

section \<open>Protected payloads and LIN frames\<close>

text \<open>
  A protected payload never fits one LIN frame: whatever the payload, on any
  identifier, the diagnostic ones included, publishing the datagram is refused (with
  \<open>PayloadTooLarge\<close> on an open bus and a valid identifier) and registers nothing.
\<close>

theorem protected_payload_needs_transport:
  "fst (publish_with_type i (Some (fst (protect payload p))) ct s) =
     (if vb_closed s then Inl Closed else if i > LIN_MAX_ID then Inl (id_error i)
      else Inl PayloadTooLarge) \<and>
   vb_responses (snd (publish_with_type i (Some (fst (protect payload p))) ct s)) = vb_responses s"
proof -
  have "length (fst (protect payload p)) > LIN_MAX_DATA_LEN"
    by (simp add: protect_def Let_def LIN_MAX_DATA_LEN_def)
  then have "fst (publish_with_type i (Some (fst (protect payload p))) ct s) =
     (if vb_closed s then Inl Closed else if i > LIN_MAX_ID then Inl (id_error i)
      else Inl PayloadTooLarge)"
    by (simp add: publish_with_type_result)
  then show ?thesis by (auto simp: publish_with_type_state)
qed

end
